(* ===== verification/P2P_Prelude.thy ===== *)
theory P2P_Prelude
  imports Complex_Main "HOL-Library.Word"
begin

text \<open>
  The prelude of the development: the names of the C types, the memory and
  byte-order operations that every component of the program uses, the generic
  lemmas about machine words, lists and the circular window index, and the
  interfaces (locales) that the components implement: a packed-struct codec, a
  bounded registry with lookup by key, a window of slots indexed modulo its
  size, and a transition system with an invariant.
\<close>

unbundle bit_operations_syntax

section \<open>C types\<close>

type_synonym u8 = "8 word"
type_synonym u16 = "16 word"
type_synonym u32 = "32 word"
type_synonym u64 = "64 word"
type_synonym byte = u8
type_synonym bytes = "byte list"

named_theorems layout \<open>byte lengths of the packed structs\<close>
named_theorems frame \<open>fields that an operation leaves alone\<close>

section \<open>Memory operations\<close>

text \<open>
  An array is a list. An access outside its bounds is undefined in C; in the model
  it is the value \<open>Inl OutOfBounds\<close>, so that memory safety is a theorem (the
  operation returns \<open>Inr\<close>) and not a convention.
\<close>

datatype c_fault = OutOfBounds | NullPointer

type_synonym 'a c_result = "c_fault + 'a"

definition memcpy_at :: "'a list \<Rightarrow> nat \<Rightarrow> 'a list \<Rightarrow> 'a list c_result" where
  "memcpy_at dst off src =
     (if off + length src \<le> length dst
      then Inr (take off dst @ src @ drop (off + length src) dst)
      else Inl OutOfBounds)"

definition read_at :: "'a list \<Rightarrow> nat \<Rightarrow> nat \<Rightarrow> 'a list c_result" where
  "read_at src off n =
     (if off + n \<le> length src then Inr (take n (drop off src)) else Inl OutOfBounds)"

lemma memcpy_at_length: "memcpy_at dst off src = Inr dst' \<Longrightarrow> length dst' = length dst"
  by (auto simp: memcpy_at_def split: if_splits)

lemma memcpy_at_take:
  "memcpy_at dst off src = Inr dst' \<Longrightarrow> n \<le> off \<Longrightarrow> take n dst' = take n dst"
  by (auto simp: memcpy_at_def min_def split: if_splits)

lemma memcpy_at_extend:
  "memcpy_at dst off src = Inr dst' \<Longrightarrow> take (off + length src) dst' = take off dst @ src"
  by (cases "off \<le> length dst") (auto simp: memcpy_at_def split: if_splits)

lemma memcpy_at_0_ok:
  "length src \<le> length dst \<Longrightarrow> \<exists>dst'. memcpy_at dst 0 src = Inr dst' \<and> length dst' = length dst
     \<and> take (length src) dst' = src"
  by (auto simp: memcpy_at_def)

lemma read_at_length: "read_at src off n = Inr xs \<Longrightarrow> length xs = n"
  by (auto simp: read_at_def split: if_splits)

section \<open>C strings\<close>

text \<open>
  \<^verbatim>\<open>strncpy(dst, src, n)\<close>: at most \<open>n\<close> bytes of \<open>src\<close> up to its terminating NUL, the
  rest of the \<open>n\<close> bytes filled with NULs. Both registries copy a name with
  \<^verbatim>\<open>n = sizeof(dst) - 1\<close> and then store a NUL in the last byte.
\<close>

definition strncpy_bytes :: "nat \<Rightarrow> bytes \<Rightarrow> bytes" where
  "strncpy_bytes n src =
     (let s = takeWhile (\<lambda>b. b \<noteq> 0) (take n src) in s @ replicate (n - length s) 0)"

definition copy_name :: "bytes \<Rightarrow> bytes" where
  "copy_name src = strncpy_bytes 255 src @ [0]"

definition c_string :: "bytes \<Rightarrow> bytes" where
  "c_string bs = takeWhile (\<lambda>b. b \<noteq> 0) bs"

lemma length_strncpy_bytes [simp]: "length (strncpy_bytes n src) = n"
  using length_takeWhile_le [of "\<lambda>b. b \<noteq> 0" "take n src"]
  by (simp add: strncpy_bytes_def Let_def)

lemma length_copy_name [simp, layout]: "length (copy_name src) = 256"
  by (simp add: copy_name_def)

lemma takeWhile_stop:
  "\<not> P y \<Longrightarrow> takeWhile P (takeWhile P xs @ y # ys) = takeWhile P xs"
  by (subst takeWhile_append2) (auto dest: set_takeWhileD)

lemma copy_name_terminated [simp]: "0 \<in> set (copy_name src)"
  by (simp add: copy_name_def)

lemma c_string_copy_name: "c_string (copy_name src) = takeWhile (\<lambda>b. b \<noteq> 0) (take 255 src)"
proof -
  let ?s = "takeWhile (\<lambda>b. b \<noteq> 0) (take 255 src)"
  obtain k where k: "replicate (255 - length ?s) 0 @ [0 :: byte] = 0 # replicate k 0"
    by (metis Cons_eq_appendI replicate_Suc replicate_append_same)
  have "copy_name src = ?s @ 0 # replicate k 0"
    using k by (simp add: copy_name_def strncpy_bytes_def Let_def)
  then show ?thesis
    by (simp add: c_string_def takeWhile_stop)
qed

lemma take_copy_name: "take 255 (copy_name src) = strncpy_bytes 255 src"
  by (simp add: copy_name_def)

lemma strncpy_bytes_idem: "strncpy_bytes n (strncpy_bytes n src) = strncpy_bytes n src"
proof -
  let ?s = "takeWhile (\<lambda>b. b \<noteq> 0) (take n src)"
  have "takeWhile (\<lambda>b. b \<noteq> 0) (?s @ replicate m 0) = ?s" for m
  proof (cases m)
    case 0
    then show ?thesis by (simp add: takeWhile_idem)
  next
    case (Suc k)
    then show ?thesis by (simp add: takeWhile_stop)
  qed
  moreover have "take n (strncpy_bytes n src) = strncpy_bytes n src" by simp
  ultimately show ?thesis
    by (simp add: strncpy_bytes_def [of n "strncpy_bytes n src"])
      (simp add: strncpy_bytes_def Let_def)
qed

lemma strncpy_bytes_take: "n \<le> m \<Longrightarrow> strncpy_bytes n (take m src) = strncpy_bytes n src"
  by (simp add: strncpy_bytes_def min_def)

lemma copy_name_idem [simp]: "copy_name (copy_name src) = copy_name src"
  using strncpy_bytes_take [of 255 255 "copy_name src"]
  by (simp add: copy_name_def [of "copy_name src"] take_copy_name strncpy_bytes_idem)
    (simp add: copy_name_def)

section \<open>Byte order\<close>

text \<open>
  \<^verbatim>\<open>htons\<close>/\<^verbatim>\<open>htonl\<close> followed by a store put the most significant byte first on every
  host. A field stored without them is laid out in the host's own order, which is why
  the host order is a parameter.
\<close>

datatype byte_order = Little | Big

definition be16 :: "u16 \<Rightarrow> bytes" where
  "be16 w = [ucast (drop_bit 8 w), ucast w]"

definition be32 :: "u32 \<Rightarrow> bytes" where
  "be32 w = [ucast (drop_bit 24 w), ucast (drop_bit 16 w), ucast (drop_bit 8 w), ucast w]"

definition of_be16 :: "bytes \<Rightarrow> u16" where
  "of_be16 bs = push_bit 8 (ucast (bs ! 0)) OR ucast (bs ! 1)"

definition of_be32 :: "bytes \<Rightarrow> u32" where
  "of_be32 bs =
     push_bit 24 (ucast (bs ! 0)) OR push_bit 16 (ucast (bs ! 1)) OR
     push_bit 8 (ucast (bs ! 2)) OR ucast (bs ! 3)"

definition host16 :: "byte_order \<Rightarrow> u16 \<Rightarrow> bytes" where
  "host16 ord w = (case ord of Big \<Rightarrow> be16 w | Little \<Rightarrow> rev (be16 w))"

definition of_host16 :: "byte_order \<Rightarrow> bytes \<Rightarrow> u16" where
  "of_host16 ord bs =
     (case ord of Big \<Rightarrow> of_be16 bs
      | Little \<Rightarrow> push_bit 8 (ucast (bs ! 1)) OR ucast (bs ! 0))"

lemma length_be16 [simp, layout]: "length (be16 w) = 2"
  by (simp add: be16_def)

lemma length_be32 [simp, layout]: "length (be32 w) = 4"
  by (simp add: be32_def)

lemma length_host16 [simp, layout]: "length (host16 ord w) = 2"
  by (simp add: host16_def split: byte_order.split)

lemma of_be16_be16 [simp]: "of_be16 (be16 w @ rest) = w"
  by (simp add: of_be16_def be16_def, rule bit_word_eqI) (auto simp: bit_simps)

lemma of_be32_be32 [simp]: "of_be32 (be32 w @ rest) = w"
proof (rule bit_word_eqI)
  fix n
  assume "n < LENGTH(32)"
  then consider "n < 8" | "8 \<le> n" "n < 16" | "16 \<le> n" "n < 24" | "24 \<le> n" "n < 32"
    by fastforce
  then show "bit (of_be32 (be32 w @ rest)) n = bit w n"
    by cases (auto simp: of_be32_def be32_def bit_simps)
qed

lemma of_host16_host16 [simp]: "of_host16 ord (host16 ord w @ rest) = w"
  by (cases ord; simp add: of_host16_def host16_def)
    (simp add: be16_def, rule bit_word_eqI, auto simp: bit_simps)

section \<open>Machine words as numbers\<close>

text \<open>
  The loops of the program count in \<^verbatim>\<open>uint32_t\<close>. Each lemma reads one word
  operation as an operation on natural numbers under the bound that excludes
  wrap-around.
\<close>

lemma unat_add_bounded:
  "unat (a :: 'a::len word) + unat b < 2 ^ LENGTH('a) \<Longrightarrow> unat (a + b) = unat a + unat b"
  by (simp add: unat_word_ariths)

lemma unat_Suc_less: "(a :: 'a::len word) < b \<Longrightarrow> unat (a + 1) = Suc (unat a)"
  by unat_arith

lemma unat_u32_less: "unat (a :: u32) < 4294967296"
  using unsigned_less [of a, where ?'a = nat] by simp

lemma unat_u16_less: "unat (a :: u16) < 65536"
  using unsigned_less [of a, where ?'a = nat] by simp

lemma unat_u8_less: "unat (a :: u8) < 256"
  using unsigned_less [of a, where ?'a = nat] by simp

lemma unat_ucast_down:
  "unat (ucast (w :: 'a::len word) :: 'b::len word) = unat w mod 2 ^ LENGTH('b)"
  by (simp add: unsigned_ucast_eq take_bit_eq_mod)

lemma unat_diff_le: "(b :: 'a::len word) \<le> a \<Longrightarrow> unat (a - b) = unat a - unat b"
  by (simp add: unat_sub)

lemma unat_not_u16: "unat (NOT (w :: u16)) = 65535 - unat w"
proof -
  have "w \<le> 65535" using unat_u16_less [of w] by (simp add: word_le_nat_alt)
  moreover have "NOT w = 65535 - w" by (simp add: not_eq_complement)
  ultimately show ?thesis by (simp only: unat_diff_le) simp
qed

section \<open>Scanning an array\<close>

text \<open>
  The loops \<^verbatim>\<open>for (i = 0; i < n; i++) if (P(a[i])) return &a[i];\<close> return a pointer into the
  array; in the model, the index of the first entry with \<open>P\<close>.
\<close>

fun first_index_from :: "('a \<Rightarrow> bool) \<Rightarrow> nat \<Rightarrow> 'a list \<Rightarrow> nat option" where
  "first_index_from P i [] = None"
| "first_index_from P i (x # xs) = (if P x then Some i else first_index_from P (i + 1) xs)"

definition first_index :: "('a \<Rightarrow> bool) \<Rightarrow> 'a list \<Rightarrow> nat option" where
  "first_index P xs = first_index_from P 0 xs"

lemma first_index_from_find:
  "find P xs = map_option (\<lambda>j. xs ! (j - i)) (first_index_from P i xs) \<and>
   (\<forall>j. first_index_from P i xs = Some j \<longrightarrow> i \<le> j \<and> j < i + length xs \<and> P (xs ! (j - i)))"
proof (induction xs arbitrary: i)
  case (Cons x xs)
  have IH: "find P xs = map_option (\<lambda>j. xs ! (j - Suc i)) (first_index_from P (Suc i) xs)"
    "\<And>j. first_index_from P (Suc i) xs = Some j \<Longrightarrow> Suc i \<le> j \<and> j < Suc i + length xs \<and> P (xs ! (j - Suc i))"
    using Cons [of "Suc i"] by blast+
  show ?case
  proof (cases "P x")
    case False
    have shift: "(x # xs) ! (j - i) = xs ! (j - Suc i)" if "Suc i \<le> j" for j
      using that by (simp add: nth_Cons' Suc_diff_Suc)
    have "map_option (\<lambda>j. (x # xs) ! (j - i)) (first_index_from P (Suc i) xs) =
        map_option (\<lambda>j. xs ! (j - Suc i)) (first_index_from P (Suc i) xs)"
      using IH(2) shift by (cases "first_index_from P (Suc i) xs") auto
    then show ?thesis using False IH shift by auto
  qed simp
qed simp

lemma first_index_find: "find P xs = map_option (\<lambda>j. xs ! j) (first_index P xs)"
  using first_index_from_find [of P xs 0] by (simp add: first_index_def)

lemma first_index_SomeD: "first_index P xs = Some j \<Longrightarrow> j < length xs \<and> P (xs ! j)"
  using first_index_from_find [of P xs 0] by (simp add: first_index_def)

lemma first_index_None: "first_index P xs = None \<longleftrightarrow> (\<forall>x \<in> set xs. \<not> P x)"
proof -
  have "first_index P xs = None \<longleftrightarrow> find P xs = None" by (simp add: first_index_find)
  then show ?thesis by (auto simp: find_None_iff)
qed

lemma first_index_map: "first_index (\<lambda>x. P (f x)) xs = first_index P (map f xs)"
proof -
  have "first_index_from (\<lambda>x. P (f x)) i xs = first_index_from P i (map f xs)" for i
    by (induction xs arbitrary: i) simp_all
  then show ?thesis by (simp add: first_index_def)
qed

lemma drop_concat_blocks:
  "\<forall>x \<in> set xs. length x = n \<Longrightarrow> drop (n * k) (concat xs) = concat (drop k xs)"
proof (induction xs arbitrary: k)
  case (Cons x xs)
  then show ?case by (cases k) simp_all
qed simp

lemma length_concat_blocks: "\<forall>x \<in> set xs. length x = n \<Longrightarrow> length (concat xs) = n * length xs"
  by (induction xs) simp_all

section \<open>Interfaces\<close>

subsection \<open>A window of slots indexed modulo its size\<close>

text \<open>
  Sender and receiver keep the packets of the current window in an array of
  \<^verbatim>\<open>WINDOW_SIZE\<close> entries, packet \<open>k\<close> in entry \<open>k % WINDOW_SIZE\<close>. Two different
  packets of one window never share an entry, so an update of one leaves the others
  alone. The locale states this once for any window size.
\<close>

lemma mod_window_inj:
  assumes "(i :: nat) mod W = j mod W" "b \<le> i" "i < b + W" "b \<le> j" "j < b + W"
  shows "i = j"
proof -
  have "\<bar>int i - int j\<bar> < int W" using assms by linarith
  moreover have "int W dvd int i - int j"
    using assms(1) by (metis mod_eq_dvd_iff of_nat_mod)
  ultimately have "int i - int j = 0"
    by (metis abs_of_nat dvd_imp_le_int not_le)
  then show ?thesis by simp
qed

locale slot_window =
  fixes W :: nat
  assumes W_pos: "0 < W"
begin

lemma slot_less [simp]: "k mod W < W"
  using W_pos by simp

lemma slot_update:
  assumes "length ws = W" "b \<le> j" "j < b + W" "b \<le> k" "k < b + W"
  shows "ws[k mod W := x] ! (j mod W) = (if j = k then x else ws ! (j mod W))"
  using assms mod_window_inj [of j W k b] by (auto simp: nth_list_update)

lemma slot_next_base: "(b + W) mod W = b mod W"
  by simp

lemma slot_onto:
  assumes "i < W"
  obtains k where "b \<le> k" "k < b + W" "k mod W = i"
proof (cases "b mod W \<le> i")
  case True
  then have "(b + (i - b mod W)) mod W = i"
    using assms W_pos by (metis le_add_diff_inverse mod_add_left_eq mod_less)
  moreover have "b + (i - b mod W) < b + W"
    using assms W_pos by (meson add_strict_left_mono less_imp_diff_less)
  ultimately show ?thesis using that [of "b + (i - b mod W)"] by simp
next
  case False
  have "b mod W < W" using W_pos by simp
  then have "b mod W + (W + i - b mod W) = W + i" by linarith
  then have "(b mod W + (W + i - b mod W)) mod W = i"
    using assms by simp
  then have "(b + (W + i - b mod W)) mod W = i"
    by (metis mod_add_left_eq)
  moreover have "b + (W + i - b mod W) < b + W"
    using False \<open>b mod W < W\<close> by linarith
  ultimately show ?thesis using that [of "b + (W + i - b mod W)"] by simp
qed

end

subsection \<open>A packed struct and its byte layout\<close>

text \<open>
  Every message is a \<^verbatim>\<open>__attribute__((packed))\<close> struct cast over a byte buffer. A
  codec has a fixed size and reading the struct back from a buffer that starts with
  its bytes gives the struct; so no two different structs share a layout, and what
  follows the struct in the buffer is found at a fixed offset.
\<close>

locale codec =
  fixes enc :: "'a \<Rightarrow> bytes" and dec :: "bytes \<Rightarrow> 'a" and sz :: nat and ok :: "'a \<Rightarrow> bool"
  assumes enc_length: "ok x \<Longrightarrow> length (enc x) = sz"
    and dec_enc: "ok x \<Longrightarrow> dec (enc x @ rest) = x"
begin

lemma enc_inj:
  assumes "ok x" "ok y" "enc x @ rest = enc y @ rest'"
  shows "x = y \<and> rest = rest'"
proof -
  have "x = y" using assms dec_enc by metis
  with assms(3) show ?thesis by simp
qed

lemma payload_drop: "ok x \<Longrightarrow> drop sz (enc x @ rest) = rest"
  using enc_length by simp

lemma payload_take: "ok x \<Longrightarrow> take sz (enc x @ rest) = enc x"
  using enc_length by simp

end

subsection \<open>A bounded registry with lookup by key\<close>

text \<open>
  Both the directory server and the sharing client keep an append-only array with a
  counter and look an entry up by scanning from the front. The laws say what the
  scan and the append do to the list of live entries; the lemmas are what a user of
  the registry relies on. An entry is copied into fixed-size arrays when it is added,
  so what is found later is its \<open>stored\<close> form.
\<close>

locale registry =
  fixes entries :: "'s \<Rightarrow> 'e list" and key :: "'e \<Rightarrow> 'k"
    and lookup :: "'s \<Rightarrow> 'k \<Rightarrow> 'e option" and add :: "'s \<Rightarrow> 'e \<Rightarrow> 's"
    and stored :: "'e \<Rightarrow> 'e" and cap :: nat and invar :: "'s \<Rightarrow> bool"
  assumes lookup_entries: "invar s \<Longrightarrow> lookup s k = find (\<lambda>e. key e = k) (entries s)"
    and add_entries: "invar s \<Longrightarrow> length (entries s) < cap \<Longrightarrow> entries (add s e) = entries s @ [stored e]"
    and key_stored: "key (stored e) = key e"
    and add_full: "invar s \<Longrightarrow> cap \<le> length (entries s) \<Longrightarrow> add s e = s"
    and invar_add: "invar s \<Longrightarrow> invar (add s e)"
begin

lemma find_append:
  "find P (xs @ ys) = (case find P xs of None \<Rightarrow> find P ys | Some x \<Rightarrow> Some x)"
  by (induction xs) auto

lemma lookup_add:
  assumes "invar s" "length (entries s) < cap"
  shows "lookup (add s e) k =
    (case lookup s k of None \<Rightarrow> if key e = k then Some (stored e) else None | Some x \<Rightarrow> Some x)"
  using assms
  by (simp add: lookup_entries add_entries invar_add find_append key_stored split: option.split)

lemma lookup_key: "invar s \<Longrightarrow> lookup s k = Some e \<Longrightarrow> key e = k \<and> e \<in> set (entries s)"
  by (auto simp: lookup_entries find_Some_iff)

lemma lookup_None: "invar s \<Longrightarrow> lookup s k = None \<longleftrightarrow> (\<forall>e \<in> set (entries s). key e \<noteq> k)"
  by (auto simp: lookup_entries find_None_iff)

lemma lookup_distinct:
  assumes "invar s" "distinct (map key (entries s))" "e \<in> set (entries s)"
  shows "lookup s (key e) = Some e"
proof -
  obtain e' where e': "lookup s (key e) = Some e'"
    using assms(1,3) lookup_None [of s "key e"] by fastforce
  with assms(1) have "key e' = key e" "e' \<in> set (entries s)"
    by (auto dest: lookup_key)
  with assms(2,3) have "e' = e" by (auto dest: inj_onD simp: distinct_map)
  with e' show ?thesis by simp
qed

end

subsection \<open>A transition system and its invariant\<close>

locale transition_invariant =
  fixes init :: "'s \<Rightarrow> bool" and step :: "'s \<Rightarrow> 's \<Rightarrow> bool" and inv :: "'s \<Rightarrow> bool"
  assumes init_inv: "init s \<Longrightarrow> inv s"
    and step_inv: "inv s \<Longrightarrow> step s t \<Longrightarrow> inv t"
begin

lemma reachable_inv: "step\<^sup>*\<^sup>* s t \<Longrightarrow> init s \<Longrightarrow> inv t"
  by (induction rule: rtranclp_induct) (auto intro: init_inv step_inv)

lemma run_inv: "step\<^sup>*\<^sup>* s t \<Longrightarrow> inv s \<Longrightarrow> inv t"
  by (induction rule: rtranclp_induct) (auto intro: step_inv)

end

end
