(* ===== verification/Protocol.thy ===== *)
theory Protocol
  imports P2P_Prelude "HOL-Library.Multiset"
begin

text \<open>
  The wire protocol (\<^verbatim>\<open>protocol.h\<close>): the message codes and parameters, the packed
  structs with their byte layouts, and the additive checksum.

  A record holds the value of each multi-byte field after \<^verbatim>\<open>ntohs\<close>/\<^verbatim>\<open>ntohl\<close>; its
  encoder stores the field most significant byte first, as \<^verbatim>\<open>htons\<close>/\<^verbatim>\<open>htonl\<close> and a
  store do. The UDP checksum is the one field the code never converts, so it is laid
  out in the order of the host (\<^typ>\<open>byte_order\<close>). \<^verbatim>\<open>peer_ip\<close> is copied as it is stored
  in a socket address, so it is kept as its four bytes read most significant first.
  The macros are abbreviations, expanded by the parser as the C preprocessor does.
\<close>

section \<open>Codes and parameters\<close>

abbreviation (input) TCP_REGISTER :: u8 where "TCP_REGISTER \<equiv> 1"
abbreviation (input) TCP_REGISTER_ACK :: u8 where "TCP_REGISTER_ACK \<equiv> 2"
abbreviation (input) TCP_SHARE_FILE :: u8 where "TCP_SHARE_FILE \<equiv> 3"
abbreviation (input) TCP_SHARE_ACK :: u8 where "TCP_SHARE_ACK \<equiv> 4"
abbreviation (input) TCP_LIST_FILES :: u8 where "TCP_LIST_FILES \<equiv> 5"
abbreviation (input) TCP_FILE_LIST :: u8 where "TCP_FILE_LIST \<equiv> 6"
abbreviation (input) TCP_REQUEST_FILE :: u8 where "TCP_REQUEST_FILE \<equiv> 7"
abbreviation (input) TCP_FILE_LOCATION :: u8 where "TCP_FILE_LOCATION \<equiv> 8"
abbreviation (input) TCP_UNREGISTER :: u8 where "TCP_UNREGISTER \<equiv> 9"
abbreviation (input) TCP_ERROR :: u8 where "TCP_ERROR \<equiv> 10"

abbreviation (input) ERR_NONE :: u8 where "ERR_NONE \<equiv> 0"
abbreviation (input) ERR_FILE_NOT_FOUND :: u8 where "ERR_FILE_NOT_FOUND \<equiv> 1"
abbreviation (input) ERR_NO_PEERS :: u8 where "ERR_NO_PEERS \<equiv> 2"
abbreviation (input) ERR_INVALID_MSG :: u8 where "ERR_INVALID_MSG \<equiv> 3"

abbreviation (input) UDP_DATA :: u8 where "UDP_DATA \<equiv> 1"
abbreviation (input) UDP_ACK :: u8 where "UDP_ACK \<equiv> 2"
abbreviation (input) UDP_REQUEST_FILE :: u8 where "UDP_REQUEST_FILE \<equiv> 3"
abbreviation (input) UDP_FILE_START :: u8 where "UDP_FILE_START \<equiv> 4"

abbreviation (input) CHUNK_SIZE :: "'a::numeral" where "CHUNK_SIZE \<equiv> 1024"
abbreviation (input) WINDOW_SIZE :: "'a::numeral" where "WINDOW_SIZE \<equiv> 64"
abbreviation (input) TIMEOUT_MS :: "'a::numeral" where "TIMEOUT_MS \<equiv> 500"
abbreviation (input) MAX_RETRIES :: "'a::numeral" where "MAX_RETRIES \<equiv> 10"

section \<open>Packed structs\<close>

record tcp_header_t =
  th_msg_type :: u8
  th_error_code :: u8
  th_data_len :: u16

record tcp_register_t =
  reg_udp_port :: u16

record tcp_register_ack_t =
  rack_client_id :: u32

record tcp_share_file_t =
  sh_file_size :: u32
  sh_hash :: bytes
  sh_filename :: bytes

record tcp_share_ack_t =
  sack_file_id :: u32

record file_info_t =
  fi_file_id :: u32
  fi_file_size :: u32
  fi_hash :: bytes
  fi_num_peers :: u8
  fi_filename :: bytes

record tcp_request_file_t =
  rq_file_id :: u32

record tcp_file_location_t =
  loc_file_id :: u32
  loc_file_size :: u32
  loc_hash :: bytes
  loc_peer_ip :: u32
  loc_peer_port :: u16
  loc_filename :: bytes

record udp_header_t =
  uh_msg_type :: u8
  uh_flags :: u8
  uh_checksum :: u16
  uh_seq_num :: u32
  uh_ack_num :: u32
  uh_data_len :: u16
  uh_window :: u16

record udp_request_file_t =
  urq_file_id :: u32
  urq_hash :: bytes

record udp_file_start_t =
  fs_file_size :: u32
  fs_num_chunks :: u32

definition enc_tcp_header :: "tcp_header_t \<Rightarrow> bytes" where
  "enc_tcp_header h = [th_msg_type h, th_error_code h] @ be16 (th_data_len h)"

definition dec_tcp_header :: "bytes \<Rightarrow> tcp_header_t" where
  "dec_tcp_header bs =
     \<lparr>th_msg_type = bs ! 0, th_error_code = bs ! 1, th_data_len = of_be16 (drop 2 bs)\<rparr>"

definition enc_tcp_register :: "tcp_register_t \<Rightarrow> bytes" where
  "enc_tcp_register r = be16 (reg_udp_port r)"

definition dec_tcp_register :: "bytes \<Rightarrow> tcp_register_t" where
  "dec_tcp_register bs = \<lparr>reg_udp_port = of_be16 bs\<rparr>"

definition enc_tcp_register_ack :: "tcp_register_ack_t \<Rightarrow> bytes" where
  "enc_tcp_register_ack r = be32 (rack_client_id r)"

definition dec_tcp_register_ack :: "bytes \<Rightarrow> tcp_register_ack_t" where
  "dec_tcp_register_ack bs = \<lparr>rack_client_id = of_be32 bs\<rparr>"

definition enc_tcp_share_file :: "tcp_share_file_t \<Rightarrow> bytes" where
  "enc_tcp_share_file s = be32 (sh_file_size s) @ sh_hash s @ sh_filename s"

definition dec_tcp_share_file :: "bytes \<Rightarrow> tcp_share_file_t" where
  "dec_tcp_share_file bs =
     \<lparr>sh_file_size = of_be32 bs, sh_hash = take 32 (drop 4 bs), sh_filename = take 256 (drop 36 bs)\<rparr>"

definition enc_tcp_share_ack :: "tcp_share_ack_t \<Rightarrow> bytes" where
  "enc_tcp_share_ack r = be32 (sack_file_id r)"

definition dec_tcp_share_ack :: "bytes \<Rightarrow> tcp_share_ack_t" where
  "dec_tcp_share_ack bs = \<lparr>sack_file_id = of_be32 bs\<rparr>"

definition enc_file_info :: "file_info_t \<Rightarrow> bytes" where
  "enc_file_info f =
     be32 (fi_file_id f) @ be32 (fi_file_size f) @ fi_hash f @ [fi_num_peers f] @ fi_filename f"

definition dec_file_info :: "bytes \<Rightarrow> file_info_t" where
  "dec_file_info bs =
     \<lparr>fi_file_id = of_be32 bs, fi_file_size = of_be32 (drop 4 bs), fi_hash = take 32 (drop 8 bs),
      fi_num_peers = drop 40 bs ! 0, fi_filename = take 256 (drop 41 bs)\<rparr>"

definition enc_tcp_request_file :: "tcp_request_file_t \<Rightarrow> bytes" where
  "enc_tcp_request_file r = be32 (rq_file_id r)"

definition dec_tcp_request_file :: "bytes \<Rightarrow> tcp_request_file_t" where
  "dec_tcp_request_file bs = \<lparr>rq_file_id = of_be32 bs\<rparr>"

definition enc_tcp_file_location :: "tcp_file_location_t \<Rightarrow> bytes" where
  "enc_tcp_file_location l =
     be32 (loc_file_id l) @ be32 (loc_file_size l) @ loc_hash l @ be32 (loc_peer_ip l) @
     be16 (loc_peer_port l) @ loc_filename l"

definition dec_tcp_file_location :: "bytes \<Rightarrow> tcp_file_location_t" where
  "dec_tcp_file_location bs =
     \<lparr>loc_file_id = of_be32 bs, loc_file_size = of_be32 (drop 4 bs), loc_hash = take 32 (drop 8 bs),
      loc_peer_ip = of_be32 (drop 40 bs), loc_peer_port = of_be16 (drop 44 bs),
      loc_filename = take 256 (drop 46 bs)\<rparr>"

definition enc_udp_header :: "byte_order \<Rightarrow> udp_header_t \<Rightarrow> bytes" where
  "enc_udp_header ord h =
     [uh_msg_type h, uh_flags h] @ host16 ord (uh_checksum h) @ be32 (uh_seq_num h) @
     be32 (uh_ack_num h) @ be16 (uh_data_len h) @ be16 (uh_window h)"

definition dec_udp_header :: "byte_order \<Rightarrow> bytes \<Rightarrow> udp_header_t" where
  "dec_udp_header ord bs =
     \<lparr>uh_msg_type = bs ! 0, uh_flags = bs ! 1, uh_checksum = of_host16 ord (drop 2 bs),
      uh_seq_num = of_be32 (drop 4 bs), uh_ack_num = of_be32 (drop 8 bs),
      uh_data_len = of_be16 (drop 12 bs), uh_window = of_be16 (drop 14 bs)\<rparr>"

definition enc_udp_request_file :: "udp_request_file_t \<Rightarrow> bytes" where
  "enc_udp_request_file r = be32 (urq_file_id r) @ urq_hash r"

definition dec_udp_request_file :: "bytes \<Rightarrow> udp_request_file_t" where
  "dec_udp_request_file bs = \<lparr>urq_file_id = of_be32 bs, urq_hash = take 32 (drop 4 bs)\<rparr>"

definition enc_udp_file_start :: "udp_file_start_t \<Rightarrow> bytes" where
  "enc_udp_file_start s = be32 (fs_file_size s) @ be32 (fs_num_chunks s)"

definition dec_udp_file_start :: "bytes \<Rightarrow> udp_file_start_t" where
  "dec_udp_file_start bs = \<lparr>fs_file_size = of_be32 bs, fs_num_chunks = of_be32 (drop 4 bs)\<rparr>"

section \<open>The checksum\<close>

text \<open>
  \<^verbatim>\<open>calculate_checksum\<close>: a 32-bit sum of the bytes, folded into 16 bits by adding the
  high half to the low half until the high half is zero, complemented.
\<close>

definition sum_bytes :: "bytes \<Rightarrow> u32" where
  "sum_bytes bs = foldl (\<lambda>s b. s + ucast b) 0 bs"

lemma unat_high_half: "unat (drop_bit 16 (s :: u32)) = unat s div 65536"
  by (simp only: unat_drop_bit_eq) (simp add: drop_bit_eq_div)

lemma fold_step_unat:
  "unat (((s :: u32) AND 0xFFFF) + drop_bit 16 s) = unat s mod 65536 + unat s div 65536"
proof -
  have "s AND 0xFFFF = take_bit 16 s"
    by (simp add: take_bit_eq_mask mask_eq_exp_minus_1)
  then have lo: "unat (s AND 0xFFFF) = unat s mod 65536"
    by (simp add: take_bit_eq_mod unat_mod_distrib)
  note hi = unat_high_half [of s]
  have "unat s div 65536 < 65536" using unat_u32_less [of s] by linarith
  then have "unat (s AND 0xFFFF) + unat (drop_bit 16 s) < 2 ^ LENGTH(32)"
    using lo hi mod_less_divisor [of 65536 "unat s"] by simp
  then show ?thesis using lo hi by (simp add: unat_add_bounded)
qed

lemma high_half_nonzero: "drop_bit 16 (s :: u32) \<noteq> 0 \<longleftrightarrow> 65536 \<le> unat s"
  using unat_high_half [of s] by (metis div_eq_0_iff linorder_not_less unat_eq_zero zero_neq_numeral)

function fold_sum :: "u32 \<Rightarrow> u32" where
  "fold_sum s =
     (if drop_bit 16 s \<noteq> 0 then fold_sum ((s AND 0xFFFF) + drop_bit 16 s) else s)"
  by pat_completeness auto
termination
proof (relation "measure unat")
  fix s :: u32
  assume "drop_bit 16 s \<noteq> 0"
  then have "65536 \<le> unat s" by (simp add: high_half_nonzero)
  then have "1 \<le> unat s div 65536" by (simp add: less_eq_div_iff_mult_less_eq)
  moreover have "unat s = 65536 * (unat s div 65536) + unat s mod 65536" by simp
  ultimately have "unat s mod 65536 + unat s div 65536 < unat s" by linarith
  then show "((s AND 0xFFFF) + drop_bit 16 s, s) \<in> measure unat"
    by (simp only: in_measure fold_step_unat)
qed simp

definition calculate_checksum :: "bytes \<Rightarrow> u16" where
  "calculate_checksum bs = ucast (NOT (fold_sum (sum_bytes bs)))"

definition verify_checksum :: "bytes \<Rightarrow> u16 \<Rightarrow> bool" where
  "verify_checksum bs expected = (calculate_checksum bs = expected)"

declare fold_sum.simps [simp del]

subsection \<open>The value of the checksum\<close>

definition byte_total :: "bytes \<Rightarrow> nat" where
  "byte_total bs = sum_list (map unat bs)"

lemma byte_total_simps [simp]:
  "byte_total [] = 0"
  "byte_total (b # bs) = unat b + byte_total bs"
  "byte_total (xs @ ys) = byte_total xs + byte_total ys"
  by (simp_all add: byte_total_def)

lemma byte_total_le: "byte_total bs \<le> 255 * length bs"
proof (induction bs)
  case (Cons b bs)
  then show ?case using unat_u8_less [of b] by simp
qed simp

lemma foldl_sum_unat:
  "unat (foldl (\<lambda>s b. s + ucast (b :: byte)) (a :: u32) bs) = (unat a + byte_total bs) mod 2 ^ 32"
proof (induction bs arbitrary: a)
  case Nil
  then show ?case using unat_u32_less [of a] by simp
next
  case (Cons b bs)
  have "unat (ucast b :: u32) = unat b"
    using unat_u8_less [of b] by (simp add: unat_ucast_down)
  then show ?case
    by (simp add: Cons.IH unat_word_ariths mod_add_left_eq add.assoc)
qed

lemma sum_bytes_unat:
  assumes "length bs \<le> 2 ^ 24"
  shows "unat (sum_bytes bs) = byte_total bs"
proof -
  have "byte_total bs < 2 ^ 32" using byte_total_le [of bs] assms by simp
  then show ?thesis by (simp add: sum_bytes_def foldl_sum_unat)
qed

text \<open>Folding computes the residue modulo 65535, with 65535 and not 0 for a non-zero multiple.\<close>

definition ones_residue :: "nat \<Rightarrow> nat" where
  "ones_residue n = (if n = 0 then 0 else (n - 1) mod 65535 + 1)"

lemma ones_residue_less: "ones_residue n < 65536"
  using mod_less_divisor [of 65535 "n - 1"] by (simp add: ones_residue_def)

lemma ones_residue_small: "n < 65536 \<Longrightarrow> ones_residue n = n"
  by (simp add: ones_residue_def)

lemma ones_residue_fold:
  assumes "65536 \<le> n"
  shows "ones_residue (n mod 65536 + n div 65536) = ones_residue n"
proof -
  define q r where "q = n div 65536" and "r = n mod 65536"
  have n: "n = 65536 * q + r" by (simp add: q_def r_def)
  have q: "1 \<le> q" using assms by (simp add: q_def less_eq_div_iff_mult_less_eq)
  have "n - 1 = 65535 * q + (r + q - 1)" using n q by simp
  then have "(n - 1) mod 65535 = (r + q - 1) mod 65535" by (metis mod_mult_self4)
  then show ?thesis using q assms by (simp add: ones_residue_def flip: q_def r_def)
qed

lemma fold_sum_unat: "unat (fold_sum s) = ones_residue (unat s)"
proof (induction s rule: fold_sum.induct)
  case (1 s)
  show ?case
  proof (cases "drop_bit 16 s \<noteq> 0")
    case True
    then have big: "65536 \<le> unat s" by (simp add: high_half_nonzero)
    have "unat (fold_sum s) = ones_residue (unat s mod 65536 + unat s div 65536)"
      using "1.IH" [OF True] True by (simp add: fold_sum.simps [of s] fold_step_unat)
    with big show ?thesis by (simp add: ones_residue_fold)
  next
    case False
    then have "unat s < 65536" using high_half_nonzero [of s] by linarith
    then show ?thesis using False by (simp add: fold_sum.simps [of s] ones_residue_small)
  qed
qed

lemma ucast_not_unat:
  assumes "unat (s :: u32) < 65536"
  shows "unat (ucast (NOT s) :: u16) = 65535 - unat s"
proof -
  have "(ucast (NOT s) :: u16) = NOT (ucast s)"
    by (rule bit_word_eqI) (auto simp: bit_simps)
  moreover have "unat (ucast s :: u16) = unat s" using assms by (simp add: unat_ucast_down)
  ultimately show ?thesis by (simp add: unat_not_u16)
qed

lemma checksum_value:
  assumes "length bs \<le> 2 ^ 24"
  shows "unat (calculate_checksum bs) = 65535 - ones_residue (byte_total bs)"
  using assms
  by (simp add: calculate_checksum_def ucast_not_unat fold_sum_unat ones_residue_less
      sum_bytes_unat)

lemma checksum_eq_iff:
  assumes "length xs \<le> 2 ^ 24" "length ys \<le> 2 ^ 24"
  shows "calculate_checksum xs = calculate_checksum ys \<longleftrightarrow>
    ones_residue (byte_total xs) = ones_residue (byte_total ys)"
proof -
  have "calculate_checksum xs = calculate_checksum ys \<longleftrightarrow>
      65535 - ones_residue (byte_total xs) = 65535 - ones_residue (byte_total ys)"
    using assms by (simp add: checksum_value word_unat_eq_iff)
  then show ?thesis
    using ones_residue_less [of "byte_total xs"] ones_residue_less [of "byte_total ys"] by linarith
qed

lemma ones_residue_differ:
  assumes "a \<noteq> b" "a < b + 256" "b < a + 256"
  shows "ones_residue a \<noteq> ones_residue b"
proof
  assume eq: "ones_residue a = ones_residue b"
  show False
  proof (cases "a = 0 \<or> b = 0")
    case True
    then show False using assms eq by (auto simp: ones_residue_small)
  next
    case False
    then have "(a - 1) mod 65535 = (b - 1) mod 65535" using eq by (simp add: ones_residue_def)
    then have "a - 1 = b - 1"
      by (rule mod_window_inj [where b = "min (a - 1) (b - 1)"]) (use assms in linarith)+
    then show False using assms False by linarith
  qed
qed

lemma byte_total_update:
  assumes "i < length bs"
  shows "byte_total (bs[i := b]) + unat (bs ! i) = byte_total bs + unat b"
proof -
  have "bs = take i bs @ bs ! i # drop (Suc i) bs" using assms by (simp add: id_take_nth_drop)
  then have "byte_total bs = byte_total (take i bs) + unat (bs ! i) + byte_total (drop (Suc i) bs)"
    by (metis add.assoc byte_total_simps(2,3))
  with assms show ?thesis by (simp add: upd_conv_take_nth_drop)
qed

lemma checksum_detects_byte_change:
  assumes "i < length bs" "b \<noteq> bs ! i" "length bs \<le> 2 ^ 24"
  shows "calculate_checksum (bs[i := b]) \<noteq> calculate_checksum bs"
proof -
  have "unat b \<noteq> unat (bs ! i)" using assms(2) by (simp add: word_unat_eq_iff)
  then have "byte_total (bs[i := b]) \<noteq> byte_total bs"
      "byte_total (bs[i := b]) < byte_total bs + 256"
      "byte_total bs < byte_total (bs[i := b]) + 256"
    using byte_total_update [OF assms(1), of b] unat_u8_less [of b] unat_u8_less [of "bs ! i"]
    by linarith+
  then show ?thesis using assms by (simp add: checksum_eq_iff ones_residue_differ)
qed

lemma checksum_ignores_order:
  assumes "mset xs = mset ys" "length xs \<le> 2 ^ 24"
  shows "calculate_checksum xs = calculate_checksum ys"
proof -
  have "byte_total xs = byte_total ys"
    using assms(1) by (metis byte_total_def mset_map sum_mset_sum_list)
  moreover have "length xs = length ys" using assms(1) by (rule mset_eq_length)
  ultimately show ?thesis using assms(2) by (simp add: checksum_eq_iff)
qed

section \<open>The layouts are codecs\<close>

text \<open>
  Each struct satisfies the codec laws. The arrays inside a struct have their C
  length (\<^verbatim>\<open>hash[32]\<close>, \<^verbatim>\<open>filename[256]\<close>).
\<close>

definition share_file_ok :: "tcp_share_file_t \<Rightarrow> bool" where
  "share_file_ok s \<longleftrightarrow> length (sh_hash s) = 32 \<and> length (sh_filename s) = 256"

definition file_info_ok :: "file_info_t \<Rightarrow> bool" where
  "file_info_ok f \<longleftrightarrow> length (fi_hash f) = 32 \<and> length (fi_filename f) = 256"

definition file_location_ok :: "tcp_file_location_t \<Rightarrow> bool" where
  "file_location_ok l \<longleftrightarrow> length (loc_hash l) = 32 \<and> length (loc_filename l) = 256"

definition udp_request_ok :: "udp_request_file_t \<Rightarrow> bool" where
  "udp_request_ok r \<longleftrightarrow> length (urq_hash r) = 32"

lemmas tcp_codec_defs =
  enc_tcp_header_def dec_tcp_header_def enc_tcp_register_def dec_tcp_register_def
  enc_tcp_register_ack_def dec_tcp_register_ack_def enc_tcp_share_file_def dec_tcp_share_file_def
  enc_tcp_share_ack_def dec_tcp_share_ack_def enc_file_info_def dec_file_info_def
  enc_tcp_request_file_def dec_tcp_request_file_def enc_tcp_file_location_def
  dec_tcp_file_location_def share_file_ok_def file_info_ok_def file_location_ok_def

lemmas udp_codec_defs =
  enc_udp_header_def dec_udp_header_def enc_udp_request_file_def dec_udp_request_file_def
  enc_udp_file_start_def dec_udp_file_start_def udp_request_ok_def

lemmas of_be_bare [simp] =
  of_be16_be16 [where rest = "[]", simplified] of_be32_be32 [where rest = "[]", simplified]

interpretation tcp_header: codec enc_tcp_header dec_tcp_header 4 "\<lambda>_. True"
  by unfold_locales (simp_all add: tcp_codec_defs)

interpretation tcp_register: codec enc_tcp_register dec_tcp_register 2 "\<lambda>_. True"
  by unfold_locales (simp_all add: tcp_codec_defs)

interpretation tcp_register_ack: codec enc_tcp_register_ack dec_tcp_register_ack 4 "\<lambda>_. True"
  by unfold_locales (simp_all add: tcp_codec_defs)

interpretation tcp_share_file: codec enc_tcp_share_file dec_tcp_share_file 292 share_file_ok
  by unfold_locales (simp_all add: tcp_codec_defs)

interpretation tcp_share_ack: codec enc_tcp_share_ack dec_tcp_share_ack 4 "\<lambda>_. True"
  by unfold_locales (simp_all add: tcp_codec_defs)

interpretation file_info: codec enc_file_info dec_file_info 297 file_info_ok
  by unfold_locales (simp_all add: tcp_codec_defs)

interpretation tcp_request_file: codec enc_tcp_request_file dec_tcp_request_file 4 "\<lambda>_. True"
  by unfold_locales (simp_all add: tcp_codec_defs)

interpretation tcp_file_location:
  codec enc_tcp_file_location dec_tcp_file_location 302 file_location_ok
  by unfold_locales (simp_all add: tcp_codec_defs)

interpretation udp_header: codec "enc_udp_header ord" "dec_udp_header ord" 16 "\<lambda>_. True"
  for ord
  by unfold_locales (simp_all add: udp_codec_defs)

interpretation udp_request_file: codec enc_udp_request_file dec_udp_request_file 36 udp_request_ok
  by unfold_locales (simp_all add: udp_codec_defs)

interpretation udp_file_start: codec enc_udp_file_start dec_udp_file_start 8 "\<lambda>_. True"
  by unfold_locales (simp_all add: udp_codec_defs)

lemmas struct_length [layout] =
  tcp_header.enc_length tcp_register.enc_length tcp_register_ack.enc_length
  tcp_share_file.enc_length tcp_share_ack.enc_length file_info.enc_length
  tcp_request_file.enc_length tcp_file_location.enc_length udp_header.enc_length
  udp_request_file.enc_length udp_file_start.enc_length

lemmas struct_decode =
  tcp_header.dec_enc tcp_register.dec_enc tcp_register_ack.dec_enc tcp_share_file.dec_enc
  tcp_share_ack.dec_enc file_info.dec_enc tcp_request_file.dec_enc tcp_file_location.dec_enc
  udp_header.dec_enc udp_request_file.dec_enc udp_file_start.dec_enc

section \<open>Properties of the protocol\<close>

text \<open>
  C30. The value of the checksum. For messages of up to 2 to the 24 bytes the 32-bit sum
  does not wrap, and \<^verbatim>\<open>calculate_checksum\<close> is the complement of the byte sum reduced modulo
  65535 (with 65535 for a non-zero multiple). So two messages get the same checksum exactly
  when their byte sums are congruent, and \<^verbatim>\<open>verify_checksum\<close> accepts exactly that value.
\<close>

theorem checksum_characterised:
  assumes "length xs \<le> 2 ^ 24" "length ys \<le> 2 ^ 24"
  shows "unat (calculate_checksum xs) = 65535 - ones_residue (byte_total xs) \<and>
    (verify_checksum xs (calculate_checksum ys) \<longleftrightarrow>
       ones_residue (byte_total xs) = ones_residue (byte_total ys))"
  using checksum_value [OF assms(1)] checksum_eq_iff [OF assms] by (simp add: verify_checksum_def)

theorem checksum_characterised_witness:
  "unat (calculate_checksum [1, 2, 255]) = 65277 \<and> verify_checksum [1, 2, 255] (calculate_checksum [255, 3])"
  using checksum_characterised [of "[1, 2, 255]" "[255, 3]"] by (simp add: ones_residue_def)

text \<open>
  C31. Round trips of the UDP messages, on hosts that use the same byte order for the
  checksum field; and what goes wrong otherwise: a host of the other order reads the two
  bytes of the checksum swapped.
\<close>

theorem udp_messages_roundtrip:
  assumes "udp_request_ok rq"
  shows "dec_udp_header ord (enc_udp_header ord h @ rest) = h \<and>
    dec_udp_request_file (enc_udp_request_file rq @ rest) = rq \<and>
    dec_udp_file_start (enc_udp_file_start fs @ rest) = fs \<and>
    uh_checksum (dec_udp_header Big (enc_udp_header Little h)) =
      push_bit 8 (uh_checksum h) OR drop_bit 8 (uh_checksum h)"
proof -
  have "push_bit 8 (ucast (ucast w :: byte)) OR ucast (ucast (drop_bit 8 w) :: byte) = push_bit 8 w OR drop_bit 8 w"
    for w :: u16
    by (rule bit_word_eqI) (auto simp: bit_simps dest: bit_imp_le_length)
  then have "uh_checksum (dec_udp_header Big (enc_udp_header Little h)) =
      push_bit 8 (uh_checksum h) OR drop_bit 8 (uh_checksum h)"
    by (simp add: dec_udp_header_def enc_udp_header_def host16_def of_host16_def of_be16_def be16_def)
  then show ?thesis using assms by (simp add: struct_decode)
qed

theorem udp_messages_roundtrip_witness:
  "dec_udp_file_start (enc_udp_file_start \<lparr>fs_file_size = 2500, fs_num_chunks = 3\<rparr>) = \<lparr>fs_file_size = 2500, fs_num_chunks = 3\<rparr>"
  using udp_messages_roundtrip [of "\<lparr>urq_file_id = 1, urq_hash = replicate 32 0\<rparr>" Little
      "\<lparr>uh_msg_type = 1, uh_flags = 0, uh_checksum = 0, uh_seq_num = 0, uh_ack_num = 0, uh_data_len = 0, uh_window = 0\<rparr>"
      "[]" "\<lparr>fs_file_size = 2500, fs_num_chunks = 3\<rparr>"]
  by (simp add: udp_request_ok_def)

end
