(* ===== verification/Lossy_UDP.thy ===== *)
theory Lossy_UDP
  imports Protocol
begin

text \<open>
  The lossy UDP shim (\<^verbatim>\<open>lossy_udp.c\<close>) and the environment of the selective-repeat
  code: the socket address, the link with its random generator, the datagrams the
  process handed to \<^verbatim>\<open>sendto\<close>, and the static counters of \<^verbatim>\<open>selective_repeat.c\<close>.

  \<^verbatim>\<open>(double)(r >> 11) / (double)(1ULL<<53)\<close> is exact: the numerator has 53 bits and the
  divisor is a power of two. So a double is modelled as a rational, an infinity or
  NaN, with the comparison of IEEE 754. A datagram that the kernel refuses is a
  datagram the network lost, so \<^verbatim>\<open>sendto\<close> always answers the length here; no caller of
  \<^verbatim>\<open>lossy_send\<close> looks at the answer.
\<close>

section \<open>State\<close>

datatype c_double = Finite rat | PosInf | NegInf | NaN

fun dbl_less :: "c_double \<Rightarrow> c_double \<Rightarrow> bool" where
  "dbl_less NaN y = False"
| "dbl_less x NaN = False"
| "dbl_less (Finite a) (Finite b) = (a < b)"
| "dbl_less PosInf y = False"
| "dbl_less x PosInf = True"
| "dbl_less x NegInf = False"
| "dbl_less NegInf y = True"

record sockaddr_in =
  sin_port :: u16
  sin_addr :: u32

record lossy_link_t =
  ll_fd :: int
  ll_loss :: c_double
  ll_rng :: u64

record sr_stats_t =
  packets_sent :: int
  packets_retransmitted :: int
  acks_received :: int

record udp_env =
  env_order :: byte_order
  env_link :: lossy_link_t
  env_sent :: "(sockaddr_in \<times> bytes) list"
  env_stats :: sr_stats_t

section \<open>Operations\<close>

definition xs64 :: "u64 \<Rightarrow> u64 \<times> u64" where
  "xs64 s =
     (let x = s;
          x = x XOR drop_bit 12 x;
          x = x XOR push_bit 25 x;
          x = x XOR drop_bit 27 x
      in (x * 2685821657736338717, x))"

definition lossy_init :: "int \<Rightarrow> c_double \<Rightarrow> u64 \<Rightarrow> lossy_link_t" where
  "lossy_init fd loss seed =
     (let l = \<lparr>ll_fd = fd, ll_loss = loss,
               ll_rng = (if seed \<noteq> 0 then seed else 88172645463393265)\<rparr>;
          l = (if dbl_less (ll_loss l) (Finite 0) then l\<lparr>ll_loss := Finite 0\<rparr> else l)
      in if dbl_less (Finite 1) (ll_loss l) then l\<lparr>ll_loss := Finite 1\<rparr> else l)"

definition unit_interval :: "u64 \<Rightarrow> rat" where
  "unit_interval r = of_nat (unat (drop_bit 11 r)) / 2 ^ 53"

definition sendto :: "udp_env \<Rightarrow> bytes \<Rightarrow> sockaddr_in \<Rightarrow> int \<times> udp_env" where
  "sendto env buf dest = (int (length buf), env\<lparr>env_sent := env_sent env @ [(dest, buf)]\<rparr>)"

definition lossy_send :: "udp_env \<Rightarrow> bytes \<Rightarrow> sockaddr_in \<Rightarrow> int \<times> udp_env" where
  "lossy_send env buf dest =
     (let (r, rng) = xs64 (ll_rng (env_link env));
          env = env\<lparr>env_link := (env_link env)\<lparr>ll_rng := rng\<rparr>\<rparr>
      in if dbl_less (Finite (unit_interval r)) (ll_loss (env_link env))
         then (int (length buf), env)
         else sendto env buf dest)"

definition sr_get_stats :: "udp_env \<Rightarrow> sr_stats_t" where
  "sr_get_stats env =
     \<lparr>packets_sent = packets_sent (env_stats env),
      packets_retransmitted = packets_retransmitted (env_stats env),
      acks_received = acks_received (env_stats env)\<rparr>"

section \<open>What the operations leave alone\<close>

lemma sendto_frame [frame, simp]:
  "env_order (snd (sendto env buf dest)) = env_order env"
  "env_link (snd (sendto env buf dest)) = env_link env"
  "env_stats (snd (sendto env buf dest)) = env_stats env"
  by (simp_all add: sendto_def)

lemma lossy_send_frame [frame, simp]:
  "env_order (snd (lossy_send env buf dest)) = env_order env"
  "env_stats (snd (lossy_send env buf dest)) = env_stats env"
  by (simp_all add: lossy_send_def sendto_def Let_def split: prod.split)

lemma sendto_sent: "env_sent (snd (sendto env buf dest)) = env_sent env @ [(dest, buf)]"
  by (simp add: sendto_def)

text \<open>A send either hands the datagram to the kernel or drops it; it never changes it.\<close>

lemma lossy_send_sent:
  "env_sent (snd (lossy_send env buf dest)) = env_sent env \<or>
   env_sent (snd (lossy_send env buf dest)) = env_sent env @ [(dest, buf)]"
  by (simp add: lossy_send_def sendto_def Let_def split: prod.split)

section \<open>The generator\<close>

text \<open>
  Each of the three shift-and-exclusive-or steps is injective: if two states gave one
  result, their exclusive or \<open>z\<close> would be a fixed point of the shift.
\<close>

lemma drop_bit_fixpoint:
  assumes "drop_bit n (z :: u64) = z" "0 < n"
  shows "z = 0"
proof (rule ccontr)
  assume "z \<noteq> 0"
  then have pos: "0 < unat z" by (simp add: unat_gt_0)
  have "unat z = unat z div 2 ^ n"
    using assms(1) by (metis unat_drop_bit_eq drop_bit_eq_div)
  moreover have "(1 :: nat) < 2 ^ n" using assms(2) by (rule one_less_power [rotated]) simp
  ultimately show False using div_less_dividend [OF _ pos] by (metis less_irrefl)
qed

lemma push_bit_fixpoint:
  assumes "push_bit n (z :: u64) = z" "0 < n"
  shows "z = 0"
proof (rule bit_word_eqI)
  fix i
  have "\<not> bit z i"
  proof (induction i rule: less_induct)
    case (less i)
    have "bit z i = bit (push_bit n z) i" by (simp only: assms(1))
    with less assms(2) show ?case
      by (metis bit_push_bit_iff diff_less less_le_trans not_le zero_less_iff_neq_zero)
  qed
  then show "bit z i = bit 0 i" by simp
qed

lemma xor_exchange: "x XOR u = y XOR v \<Longrightarrow> u XOR v = x XOR (y :: u64)"
  by (simp add: bit_eq_iff bit_simps) blast

lemma xor_zero: "x XOR y = 0 \<Longrightarrow> x = (y :: u64)"
  by (simp add: bit_eq_iff bit_simps)

lemma xor_shift_inj:
  assumes "\<And>a b. f (a XOR b) = f a XOR (f b :: u64)" and "\<And>z. f z = z \<Longrightarrow> z = 0"
    and "x XOR f x = y XOR f y"
  shows "x = y"
proof -
  have "f (x XOR y) = x XOR y"
    using xor_exchange [OF assms(3)] by (simp only: assms(1))
  then show ?thesis by (rule assms(2) [THEN xor_zero])
qed

lemma drop_bit_linear: "drop_bit n (a XOR b) = drop_bit n a XOR drop_bit n (b :: u64)"
  by (rule bit_word_eqI) (auto simp: bit_simps)

lemma push_bit_linear: "push_bit n (a XOR b) = push_bit n a XOR push_bit n (b :: u64)"
  by (rule bit_word_eqI) (auto simp: bit_simps)

lemma xor_drop_inj: "0 < n \<Longrightarrow> x XOR drop_bit n x = y XOR drop_bit n (y :: u64) \<Longrightarrow> x = y"
  by (rule xor_shift_inj [of "drop_bit n"]) (auto intro: drop_bit_linear drop_bit_fixpoint)

lemma xor_push_inj: "0 < n \<Longrightarrow> x XOR push_bit n x = y XOR push_bit n (y :: u64) \<Longrightarrow> x = y"
  by (rule xor_shift_inj [of "push_bit n"]) (auto intro: push_bit_linear push_bit_fixpoint)

lemma xs64_state_inj:
  assumes "snd (xs64 s) = snd (xs64 t)"
  shows "s = t"
  using assms unfolding xs64_def Let_def snd_conv
  by (rule xor_drop_inj [rotated, THEN xor_push_inj [rotated, THEN xor_drop_inj [rotated]]])
    simp_all

lemma xs64_nonzero: "s \<noteq> 0 \<Longrightarrow> snd (xs64 s) \<noteq> 0"
  using xs64_state_inj [of s 0] by (auto simp: xs64_def)

lemma lossy_send_rng:
  "ll_rng (env_link (snd (lossy_send env buf dest))) = snd (xs64 (ll_rng (env_link env)))"
  by (simp add: lossy_send_def sendto_def Let_def split: prod.split)

lemma lossy_init_rng: "ll_rng (lossy_init fd loss seed) \<noteq> 0"
  by (simp add: lossy_init_def Let_def)

section \<open>The loss rate\<close>

lemma lossy_init_loss:
  "ll_loss (lossy_init fd (Finite p) seed) = Finite (max 0 (min 1 p))"
  by (simp add: lossy_init_def Let_def max_def min_def)

lemma unit_interval_range: "0 \<le> unit_interval r \<and> unit_interval r < 1"
proof -
  have "unat r < 2 ^ 64" using unsigned_less [of r, where ?'a = nat] by simp
  then have "unat (drop_bit 11 r) < 2 ^ 53"
    by (simp only: unat_drop_bit_eq) (simp add: drop_bit_eq_div less_mult_imp_div_less)
  then have "(of_nat (unat (drop_bit 11 r)) :: rat) < of_nat (2 ^ 53)"
    by (simp only: of_nat_less_iff)
  moreover have "0 \<le> (of_nat (unat (drop_bit 11 r)) :: rat)" by (rule of_nat_0_le_iff)
  ultimately show ?thesis unfolding unit_interval_def
    by (simp only: zero_le_divide_iff divide_less_eq_1) simp
qed

lemma unit_interval_not_neg: "\<not> unit_interval r < 0" and unit_interval_less_1: "unit_interval r < 1"
  using unit_interval_range [of r] by auto

text \<open>A rate of at most 0 sends every datagram, one of at least 1 sends none.\<close>

lemma lossy_send_never_drops:
  assumes "ll_loss (env_link env) = Finite 0"
  shows "env_sent (snd (lossy_send env buf dest)) = env_sent env @ [(dest, buf)]"
  using assms
  by (simp add: lossy_send_def sendto_def Let_def unit_interval_not_neg split: prod.split)

lemma lossy_send_always_drops:
  assumes "ll_loss (env_link env) = Finite 1"
  shows "env_sent (snd (lossy_send env buf dest)) = env_sent env"
  using assms
  by (simp add: lossy_send_def sendto_def Let_def unit_interval_less_1 split: prod.split)

lemma lossy_send_loss [frame, simp]:
  "ll_loss (env_link (snd (lossy_send env buf dest))) = ll_loss (env_link env)"
  by (simp add: lossy_send_def sendto_def Let_def split: prod.split)

section \<open>Properties of the link\<close>

text \<open>
  C33. The random generator never gets stuck at zero: \<^verbatim>\<open>lossy_init\<close> replaces a zero seed,
  and the xorshift step is a bijection of the states that fixes zero, so each send leaves a
  non-zero state non-zero, and different states stay different.
\<close>

theorem generator_never_stuck:
  assumes "ll_rng (env_link env) \<noteq> 0" "ll_rng (env_link env) \<noteq> ll_rng (env_link env2)"
  shows "ll_rng (lossy_init fd loss seed) \<noteq> 0 \<and>
    ll_rng (env_link (snd (lossy_send env buf dest))) \<noteq> 0 \<and>
    ll_rng (env_link (snd (lossy_send env buf dest))) \<noteq> ll_rng (env_link (snd (lossy_send env2 buf2 dest2)))"
  using assms xs64_nonzero xs64_state_inj by (auto simp: lossy_send_rng lossy_init_rng)

definition fresh_env :: "lossy_link_t \<Rightarrow> udp_env" where
  "fresh_env link = \<lparr>env_order = Little, env_link = link, env_sent = [],
     env_stats = \<lparr>packets_sent = 0, packets_retransmitted = 0, acks_received = 0\<rparr>\<rparr>"

theorem generator_never_stuck_witness:
  "ll_rng (env_link (snd (lossy_send (fresh_env (lossy_init 3 (Finite (1/2)) 0)) [1] \<lparr>sin_port = 1, sin_addr = 2\<rparr>))) \<noteq> 0"
  using generator_never_stuck [of "fresh_env (lossy_init 3 (Finite (1/2)) 0)" "fresh_env (lossy_init 3 (Finite 0) 7)"]
  by (simp add: fresh_env_def lossy_init_def Let_def)

text \<open>
  C34. The loss rate at its ends. \<^verbatim>\<open>lossy_init\<close> clamps the rate to the unit interval; a
  link with a rate of at most 0 hands every datagram to the network, one with a rate of at
  least 1 hands over none. In every case the datagram, if sent, is sent unchanged to its
  destination and the counters are not touched.
\<close>

theorem loss_rate_ends:
  assumes "env_link env = lossy_init fd (Finite p) seed"
  shows "ll_loss (env_link env) = Finite (max 0 (min 1 p)) \<and>
    (p \<le> 0 \<longrightarrow> env_sent (snd (lossy_send env buf dest)) = env_sent env @ [(dest, buf)]) \<and>
    (1 \<le> p \<longrightarrow> env_sent (snd (lossy_send env buf dest)) = env_sent env) \<and>
    env_sent (snd (lossy_send env buf dest)) \<in> {env_sent env, env_sent env @ [(dest, buf)]} \<and>
    env_stats (snd (lossy_send env buf dest)) = env_stats env"
  using assms lossy_init_loss [of fd p seed] lossy_send_sent [of env buf dest]
    lossy_send_never_drops [of env buf dest] lossy_send_always_drops [of env buf dest]
  by (auto simp: max_def min_def)

theorem loss_rate_ends_witness:
  "env_sent (snd (lossy_send (fresh_env (lossy_init 3 (Finite 0) 7)) [1] \<lparr>sin_port = 1, sin_addr = 2\<rparr>)) =
    [(\<lparr>sin_port = 1, sin_addr = 2\<rparr>, [1])]"
  using loss_rate_ends [of "fresh_env (lossy_init 3 (Finite 0) 7)" 3 0 7] by (simp add: fresh_env_def)

end
