(* ===== verification/SR_Packets.thy ===== *)
theory SR_Packets
  imports Lossy_UDP "HOL-Library.Sublist"
begin

text \<open>
  The packets of the selective-repeat protocol (\<^verbatim>\<open>build_data_packet\<close> and
  \<^verbatim>\<open>build_ack_packet\<close> of \<^verbatim>\<open>selective_repeat.c\<close>) and the checksum test that their
  readers make: save the checksum field, zero it, recompute, compare.
\<close>

section \<open>Building packets\<close>

definition data_header :: "u32 \<Rightarrow> u16 \<Rightarrow> udp_header_t" where
  "data_header seq_num data_len =
     \<lparr>uh_msg_type = UDP_DATA, uh_flags = 0, uh_checksum = 0, uh_seq_num = seq_num,
      uh_ack_num = 0, uh_data_len = data_len, uh_window = WINDOW_SIZE\<rparr>"

text \<open>
  The callers' packet buffer has room for the header and \<^verbatim>\<open>CHUNK_SIZE\<close> bytes. The
  result is the part of the buffer that is then sent, header and \<open>data_len\<close> bytes.
\<close>

definition build_data_packet :: "byte_order \<Rightarrow> u32 \<Rightarrow> bytes \<Rightarrow> u16 \<Rightarrow> bytes c_result" where
  "build_data_packet ord seq_num data data_len =
     (let hdr = data_header seq_num data_len
      in case read_at data 0 (unat data_len) of
           Inl f \<Rightarrow> Inl f
         | Inr payload \<Rightarrow>
             if CHUNK_SIZE < unat data_len then Inl OutOfBounds
             else
               let checksum = calculate_checksum (enc_udp_header ord hdr @ payload)
               in Inr (enc_udp_header ord (hdr\<lparr>uh_checksum := checksum\<rparr>) @ payload))"

definition ack_header :: "u32 \<Rightarrow> udp_header_t" where
  "ack_header ack_num =
     \<lparr>uh_msg_type = UDP_ACK, uh_flags = 0, uh_checksum = 0, uh_seq_num = 0,
      uh_ack_num = ack_num, uh_data_len = 0, uh_window = WINDOW_SIZE\<rparr>"

definition build_ack_packet :: "byte_order \<Rightarrow> u32 \<Rightarrow> bytes" where
  "build_ack_packet ord ack_num =
     (let hdr = ack_header ack_num;
          checksum = calculate_checksum (enc_udp_header ord hdr)
      in enc_udp_header ord (hdr\<lparr>uh_checksum := checksum\<rparr>))"

section \<open>The checksum test\<close>

definition zero_checksum :: "bytes \<Rightarrow> bytes" where
  "zero_checksum packet = packet[2 := 0, 3 := 0]"

definition checksum_ok :: "byte_order \<Rightarrow> bytes \<Rightarrow> bool" where
  "checksum_ok ord packet =
     (uh_checksum (dec_udp_header ord packet) = calculate_checksum (zero_checksum packet))"

lemma zero_checksum_enc:
  "zero_checksum (enc_udp_header ord h @ rest) = enc_udp_header ord (h\<lparr>uh_checksum := 0\<rparr>) @ rest"
  by (cases ord) (simp_all add: zero_checksum_def enc_udp_header_def host16_def be16_def)

text \<open>A header sealed with its own checksum passes the test, whatever follows it.\<close>

lemma checksum_ok_sealed:
  assumes "uh_checksum h = 0"
  shows "checksum_ok ord
    (enc_udp_header ord (h\<lparr>uh_checksum := calculate_checksum (enc_udp_header ord h @ rest)\<rparr>) @ rest)"
proof -
  have "h\<lparr>uh_checksum := 0\<rparr> = h" using assms by simp
  then show ?thesis by (simp add: checksum_ok_def zero_checksum_enc udp_header.dec_enc)
qed

lemma build_data_packet_ok:
  assumes "length payload = unat data_len" "unat data_len \<le> CHUNK_SIZE"
  obtains packet where
    "build_data_packet ord seq_num (payload @ rest) data_len = Inr packet"
    "checksum_ok ord packet" "drop 16 packet = payload" "length packet = 16 + unat data_len"
    "\<exists>ck. dec_udp_header ord packet = (data_header seq_num data_len)\<lparr>uh_checksum := ck\<rparr>"
proof -
  let ?h = "data_header seq_num data_len"
  let ?ck = "calculate_checksum (enc_udp_header ord ?h @ payload)"
  let ?p = "enc_udp_header ord (?h\<lparr>uh_checksum := ?ck\<rparr>) @ payload"
  have "build_data_packet ord seq_num (payload @ rest) data_len = Inr ?p"
    using assms by (simp add: build_data_packet_def read_at_def Let_def)
  moreover have "checksum_ok ord ?p"
    by (rule checksum_ok_sealed) (simp add: data_header_def)
  moreover have "drop 16 ?p = payload" "length ?p = 16 + unat data_len"
    using assms by (simp_all add: udp_header.enc_length)
  moreover have "dec_udp_header ord ?p = ?h\<lparr>uh_checksum := ?ck\<rparr>"
    by (simp add: udp_header.dec_enc)
  ultimately show thesis using that by blast
qed

lemma build_ack_packet_ok:
  "checksum_ok ord (build_ack_packet ord a)"
  "length (build_ack_packet ord a) = 16"
  "uh_ack_num (dec_udp_header ord (build_ack_packet ord a)) = a"
  "uh_msg_type (dec_udp_header ord (build_ack_packet ord a)) = UDP_ACK"
proof -
  let ?h = "ack_header a"
  let ?ck = "calculate_checksum (enc_udp_header ord ?h)"
  have p: "build_ack_packet ord a = enc_udp_header ord (?h\<lparr>uh_checksum := ?ck\<rparr>) @ []"
    by (simp add: build_ack_packet_def Let_def)
  show "checksum_ok ord (build_ack_packet ord a)"
    unfolding p using checksum_ok_sealed [of ?h ord "[]"] by (simp add: ack_header_def)
  show "length (build_ack_packet ord a) = 16"
    "uh_ack_num (dec_udp_header ord (build_ack_packet ord a)) = a"
    "uh_msg_type (dec_udp_header ord (build_ack_packet ord a)) = UDP_ACK"
    unfolding p by (simp_all only: udp_header.dec_enc)
      (simp_all add: udp_header.enc_length ack_header_def)
qed

lemma ack_type_not_data: "uh_msg_type (dec_udp_header ord (build_ack_packet ord' a)) \<noteq> UDP_DATA"
  by (simp add: build_ack_packet_def dec_udp_header_def enc_udp_header_def ack_header_def Let_def)

section \<open>Corruption of one byte\<close>

lemma pack16_inj:
  fixes c c' d d' :: byte
  assumes "push_bit 8 (ucast c) OR ucast d = (push_bit 8 (ucast c') OR ucast d' :: u16)"
  shows "c = c' \<and> d = d'"
proof -
  have bits: "bit (push_bit 8 (ucast c) OR ucast d :: u16) n =
      bit (push_bit 8 (ucast c') OR ucast d' :: u16) n" for n
    using assms by simp
  have "bit c n = bit c' n" if "n < 8" for n
    using bits [of "n + 8"] that by (auto simp: bit_simps dest: bit_imp_le_length)
  moreover have "bit d n = bit d' n" if "n < 8" for n
    using bits [of n] that by (auto simp: bit_simps)
  ultimately show ?thesis by (auto intro!: bit_word_eqI)
qed

lemma of_host16_update:
  assumes "3 < length p" "i = 2 \<or> i = 3" "b \<noteq> p ! i"
  shows "of_host16 ord (drop 2 (p[i := b])) \<noteq> of_host16 ord (drop 2 p)"
proof -
  have "drop 2 (p[i := b]) ! 0 = p[i := b] ! 2" "drop 2 (p[i := b]) ! 1 = p[i := b] ! 3"
      "drop 2 p ! 0 = p ! 2" "drop 2 p ! 1 = p ! 3"
    using assms(1) by simp_all
  then show ?thesis using assms
    by (cases ord) (auto simp: of_host16_def of_be16_def nth_list_update dest: pack16_inj)
qed

lemma single_byte_corruption:
  assumes ok: "checksum_ok ord p" and len: "16 \<le> length p" "length p \<le> 2 ^ 24"
    and i: "i < length p" "b \<noteq> p ! i"
  shows "\<not> checksum_ok ord (p[i := b])"
proof (cases "i = 2 \<or> i = 3")
  case True
  then have "zero_checksum (p[i := b]) = zero_checksum p"
    by (auto simp: zero_checksum_def list_update_swap)
  moreover have "of_host16 ord (drop 2 (p[i := b])) \<noteq> of_host16 ord (drop 2 p)"
    using of_host16_update [of p i b ord] True i len by simp
  ultimately show ?thesis using ok by (simp add: checksum_ok_def dec_udp_header_def)
next
  case False
  then have "zero_checksum (p[i := b]) = (zero_checksum p)[i := b]"
    by (auto simp: zero_checksum_def list_update_swap)
  moreover have "zero_checksum p ! i = p ! i" using False by (auto simp: zero_checksum_def)
  ultimately have "calculate_checksum (zero_checksum (p[i := b])) \<noteq> calculate_checksum (zero_checksum p)"
    using checksum_detects_byte_change [of i "zero_checksum p" b] i len
    by (simp add: zero_checksum_def)
  moreover have "uh_checksum (dec_udp_header ord (p[i := b])) = uh_checksum (dec_udp_header ord p)"
    using False len by (cases ord) (auto simp: dec_udp_header_def of_host16_def of_be16_def nth_list_update)
  ultimately show ?thesis using ok by (simp add: checksum_ok_def)
qed

section \<open>Chunks of a file\<close>

text \<open>
  The abstract view of a transfer: the file is cut into \<^verbatim>\<open>CHUNK_SIZE\<close>-byte chunks, the
  last one shorter. Chunk numbers fit the \<^verbatim>\<open>uint32_t\<close> arithmetic of the code for files of
  up to \<^verbatim>\<open>UINT32_MAX - CHUNK_SIZE + 1\<close> bytes, \<open>max_file\<close>.
\<close>

definition chunk :: "bytes \<Rightarrow> nat \<Rightarrow> bytes" where
  "chunk F k = take CHUNK_SIZE (drop (k * CHUNK_SIZE) F)"

definition chunk_count :: "nat \<Rightarrow> nat" where
  "chunk_count n = (n + (CHUNK_SIZE - 1)) div CHUNK_SIZE"

definition max_file :: nat where
  "max_file = 2 ^ 32 - CHUNK_SIZE"

lemma chunk_count_less: "k < chunk_count n \<longleftrightarrow> k * CHUNK_SIZE < n"
  unfolding chunk_count_def by (simp add: less_eq_div_iff_mult_less_eq flip: Suc_le_eq)

lemma length_chunk: "length (chunk F k) = min CHUNK_SIZE (length F - k * CHUNK_SIZE)"
  by (simp add: chunk_def min.commute)

lemma length_chunk_le: "length (chunk F k) \<le> CHUNK_SIZE"
  by (simp add: length_chunk)

lemma take_chunk:
  "take (k * CHUNK_SIZE + length (chunk F k)) F = take (k * CHUNK_SIZE) F @ chunk F k"
  by (cases "CHUNK_SIZE \<le> length F - k * CHUNK_SIZE") (auto simp: take_add chunk_def)

lemma take_next_chunk: "take (Suc k * CHUNK_SIZE) F = take (k * CHUNK_SIZE) F @ chunk F k"
  by (simp add: chunk_def take_add [symmetric] add.commute)

lemma chunk_count_max:
  "n \<le> max_file \<Longrightarrow> chunk_count n < 2 ^ 22"
  by (simp add: chunk_count_def max_file_def)

text \<open>A packet that carries chunk \<open>k\<close> of the file \<open>F\<close>, as a reader sees it.\<close>

definition carries :: "byte_order \<Rightarrow> bytes \<Rightarrow> nat \<Rightarrow> bytes \<Rightarrow> bool" where
  "carries ord F k p \<longleftrightarrow>
     checksum_ok ord p \<and> length p = 16 + length (chunk F k) \<and>
     uh_msg_type (dec_udp_header ord p) = UDP_DATA \<and>
     unat (uh_seq_num (dec_udp_header ord p)) = k \<and>
     unat (uh_data_len (dec_udp_header ord p)) = length (chunk F k) \<and> drop 16 p = chunk F k"

lemma build_chunk_packet:
  assumes "unat seq = k" "unat len = length (chunk F k)" "take (unat len) data = chunk F k"
  obtains p where "build_data_packet ord seq data len = Inr p" "carries ord F k p"
proof -
  obtain rest where data: "data = chunk F k @ rest" using assms(3) by (metis append_take_drop_id)
  obtain p ck where p: "build_data_packet ord seq data len = Inr p"
    "checksum_ok ord p" "drop 16 p = chunk F k" "length p = 16 + unat len"
    "dec_udp_header ord p = (data_header seq len)\<lparr>uh_checksum := ck\<rparr>"
    using build_data_packet_ok [of "chunk F k" len ord seq rest] assms(2) length_chunk_le data
    by metis
  then have "carries ord F k p"
    using assms(1,2) by (simp add: carries_def data_header_def)
  with p(1) show thesis using that by blast
qed

section \<open>The network log\<close>

text \<open>
  What an operation may do to the environment: send more datagrams, each of a given
  kind, and count; the host order and the loss rate stay.
\<close>

definition sends :: "(sockaddr_in \<times> bytes \<Rightarrow> bool) \<Rightarrow> udp_env \<Rightarrow> udp_env \<Rightarrow> bool" where
  "sends P env env' \<longleftrightarrow>
     env_order env' = env_order env \<and> ll_loss (env_link env') = ll_loss (env_link env) \<and>
     (\<exists>ds. env_sent env' = env_sent env @ ds \<and> (\<forall>d \<in> set ds. P d))"

lemma sends_refl [simp, intro]: "sends P env env"
  by (simp add: sends_def)

lemma sends_nothing:
  assumes "sends (\<lambda>_. False) env env'"
  shows "env_sent env' = env_sent env"
proof -
  obtain ds where "env_sent env' = env_sent env @ ds" "\<forall>d \<in> set ds. False" using assms unfolding sends_def by blast
  then show ?thesis by (cases ds) auto
qed

lemma sends_trans: "sends P env env' \<Longrightarrow> sends P env' env'' \<Longrightarrow> sends P env env''"
  by (auto simp: sends_def)

lemma sends_order: "sends P env env' \<Longrightarrow> env_order env' = env_order env"
  by (simp add: sends_def)

lemma sends_set: "sends P env env' \<Longrightarrow> d \<in> set (env_sent env') \<Longrightarrow> d \<in> set (env_sent env) \<or> P d"
  by (auto simp: sends_def)

lemma sends_mono: "sends P env env' \<Longrightarrow> set (env_sent env) \<subseteq> set (env_sent env')"
  by (auto simp: sends_def)

lemma sends_lossy: "P (dest, p) \<Longrightarrow> sends P env (snd (lossy_send env p dest))"
  using lossy_send_sent [of env p dest] by (auto simp: sends_def)

lemma sends_sendto: "P (dest, p) \<Longrightarrow> sends P env (snd (sendto env p dest))"
  by (auto simp: sends_def sendto_sent)

lemma sends_loss: "sends P env env' \<Longrightarrow> ll_loss (env_link env') = ll_loss (env_link env)"
  by (simp add: sends_def)

text \<open>A loss rate of zero, and a chunk that has been handed to the network.\<close>

definition lossless :: "udp_env \<Rightarrow> bool" where
  "lossless env \<longleftrightarrow> ll_loss (env_link env) = Finite 0"

definition chunk_logged :: "udp_env \<Rightarrow> bytes \<Rightarrow> nat \<Rightarrow> bool" where
  "chunk_logged env F k \<longleftrightarrow> (\<exists>d \<in> set (env_sent env). carries (env_order env) F k (snd d))"

lemma lossless_sends: "sends P env env' \<Longrightarrow> lossless env' = lossless env"
  by (simp add: lossless_def sends_loss)

lemma chunk_logged_sends: "chunk_logged env F k \<Longrightarrow> sends P env env' \<Longrightarrow> chunk_logged env' F k"
  using sends_order [of P env env'] sends_mono [of P env env'] by (auto simp: chunk_logged_def)

lemma chunk_logged_lossy:
  "lossless env \<Longrightarrow> carries (env_order env) F k p \<Longrightarrow> chunk_logged (snd (lossy_send env p dest)) F k"
  by (simp add: lossless_def chunk_logged_def lossy_send_never_drops)

lemma chunk_logged_sendto:
  "carries (env_order env) F k p \<Longrightarrow> chunk_logged (snd (sendto env p dest)) F k"
  by (simp add: chunk_logged_def sendto_sent)

text \<open>
  The datagrams \<open>ds\<close> go to \<open>dest\<close> and carry the chunks \<open>ks\<close> of \<open>F\<close>, one each, in order; and an
  operation that hands exactly the chunks \<open>ks\<close> to the link, which may drop some of them unless
  its loss rate is zero.
\<close>

definition chunk_log :: "byte_order \<Rightarrow> bytes \<Rightarrow> sockaddr_in \<Rightarrow> nat list \<Rightarrow> (sockaddr_in \<times> bytes) list \<Rightarrow> bool" where
  "chunk_log ord F dest ks ds \<longleftrightarrow> list_all2 (\<lambda>k d. fst d = dest \<and> carries ord F k (snd d)) ks ds"

definition chunks_sent :: "bytes \<Rightarrow> sockaddr_in \<Rightarrow> nat list \<Rightarrow> udp_env \<Rightarrow> udp_env \<Rightarrow> bool" where
  "chunks_sent F dest ks env env' \<longleftrightarrow>
     (\<exists>js ds. subseq js ks \<and> (lossless env \<longrightarrow> js = ks) \<and> env_sent env' = env_sent env @ ds \<and>
        chunk_log (env_order env) F dest js ds)"

lemma chunks_sent_nil [simp]: "chunks_sent F dest [] env env"
  by (simp add: chunks_sent_def chunk_log_def)

lemma chunks_sent_append:
  assumes "chunks_sent F dest ks env env1" "sends P env env1" "chunks_sent F dest ks' env1 env2"
  shows "chunks_sent F dest (ks @ ks') env env2"
proof -
  obtain js ds where a: "subseq js ks" "lossless env \<longrightarrow> js = ks" "env_sent env1 = env_sent env @ ds"
    "chunk_log (env_order env) F dest js ds"
    using assms(1) unfolding chunks_sent_def by blast
  obtain js' ds' where b: "subseq js' ks'" "lossless env1 \<longrightarrow> js' = ks'" "env_sent env2 = env_sent env1 @ ds'"
    "chunk_log (env_order env1) F dest js' ds'"
    using assms(3) unfolding chunks_sent_def by blast
  have "chunk_log (env_order env) F dest (js @ js') (ds @ ds')"
    using a(4) b(4) sends_order [OF assms(2)] by (simp add: chunk_log_def list_all2_appendI)
  moreover have "lossless env \<longrightarrow> js @ js' = ks @ ks'" using a(2) b(2) lossless_sends [OF assms(2)] by simp
  moreover have "subseq (js @ js') (ks @ ks')" using a(1) b(1) by (rule list_emb_append_mono)
  ultimately show ?thesis using a(3) b(3) unfolding chunks_sent_def by (metis append_assoc)
qed

lemma chunks_sent_lossy:
  assumes "carries (env_order env) F k p"
  shows "chunks_sent F dest [k] env (snd (lossy_send env p dest))"
proof -
  have "chunk_log (env_order env) F dest [k] [(dest, p)]" "chunk_log (env_order env) F dest [] []"
    using assms by (simp_all add: chunk_log_def)
  moreover have "subseq [] [k]" "subseq [k] [k]" by simp_all
  ultimately show ?thesis
    using lossy_send_sent [of env p dest] lossy_send_never_drops [of env p dest]
    unfolding chunks_sent_def lossless_def by (metis append_Nil2)
qed

lemma chunks_sent_sendto:
  "carries (env_order env) F k p \<Longrightarrow> chunks_sent F dest [k] env (snd (sendto env p dest))"
  unfolding chunks_sent_def by (intro exI [of _ "[k]"] exI [of _ "[(dest, p)]"]) (simp add: chunk_log_def sendto_sent)

lemma chunks_sent_logged:
  assumes "chunks_sent F dest ks env env'" "env_order env' = env_order env" "lossless env" "k \<in> set ks"
  shows "chunk_logged env' F k"
proof -
  obtain ds where "env_sent env' = env_sent env @ ds" "chunk_log (env_order env) F dest ks ds"
    using assms(1,3) unfolding chunks_sent_def by blast
  moreover obtain i where "i < length ks" "ks ! i = k" using assms(4) by (auto simp: in_set_conv_nth)
  ultimately have "ds ! i \<in> set (env_sent env')" "carries (env_order env') F k (snd (ds ! i))"
    using assms(2) by (auto simp: chunk_log_def list_all2_conv_all_nth)
  then show ?thesis by (auto simp: chunk_logged_def)
qed

section \<open>The window index\<close>

abbreviation widx :: "u32 \<Rightarrow> nat" where
  "widx seq \<equiv> unat (seq mod WINDOW_SIZE)"

interpretation win: slot_window "64"
  by unfold_locales simp

lemma widx_mod [simp]: "widx seq = unat seq mod WINDOW_SIZE"
  by (simp add: unat_mod_distrib)

lemma base_plus_window:
  assumes "unat (b :: u32) \<le> n" "n < 2 ^ 22"
  shows "unat (b + WINDOW_SIZE) = unat b + WINDOW_SIZE"
  using assms by (simp add: unat_add_bounded)

section \<open>A sample file and network\<close>

text \<open>A file of three chunks and a fresh environment whose link loses nothing.\<close>

definition sample_file :: bytes where
  "sample_file = replicate 2500 7"

definition sample_addr :: sockaddr_in where
  "sample_addr = \<lparr>sin_port = 5001, sin_addr = 0x7F000001\<rparr>"

definition sample_env :: udp_env where
  "sample_env = \<lparr>env_order = Little, env_link = lossy_init 4 (Finite 0) 464, env_sent = [],
     env_stats = \<lparr>packets_sent = 0, packets_retransmitted = 0, acks_received = 0\<rparr>\<rparr>"

lemma sample_file_facts [simp]:
  "length sample_file = 2500" "chunk_count 2500 = 3" "2500 \<le> max_file"
  by (simp_all add: sample_file_def chunk_count_def max_file_def)

lemma sample_env_facts [simp]:
  "env_order sample_env = Little" "env_sent sample_env = []" "lossless sample_env"
  by (simp_all add: sample_env_def lossless_def lossy_init_loss)

end
