(* ===== verification/SR_Sender.thy ===== *)
theory SR_Sender
  imports SR_Packets
begin

text \<open>
  The selective-repeat sender (\<^verbatim>\<open>selective_repeat.c\<close>, first half): its window of
  \<^verbatim>\<open>WINDOW_SIZE\<close> entries, the operations that fill it, take acknowledgements and
  retransmit, and the invariant that every operation keeps.

  A pointer that the code tests against NULL is an option, or a flag where only the
  test matters. \<^verbatim>\<open>sender->file_data\<close> is the list of the bytes it points to. The loops are
  recursive functions on the \<^verbatim>\<open>uint32_t\<close> counters, with the distance to the bound as
  measure.
\<close>

section \<open>State\<close>

datatype packet_state_t = PKT_EMPTY | PKT_PENDING | PKT_ACKED

record send_window_entry_t =
  sw_state :: packet_state_t
  sw_seq_num :: u32
  sw_data :: bytes
  sw_data_len :: u16
  sw_send_time_ms :: u64
  sw_retries :: int

record sr_sender_t =
  s_udp_fd :: int
  s_peer_addr :: sockaddr_in
  s_base :: u32
  s_next_seq :: u32
  s_window :: "send_window_entry_t list"
  s_file_data :: bytes
  s_file_size :: u32
  s_num_chunks :: u32
  s_chunks_acked :: u32
  s_lossy_link :: bool

section \<open>Operations\<close>

definition empty_send_entry :: send_window_entry_t where
  "empty_send_entry =
     \<lparr>sw_state = PKT_EMPTY, sw_seq_num = 0, sw_data = replicate CHUNK_SIZE 0, sw_data_len = 0,
      sw_send_time_ms = 0, sw_retries = 0\<rparr>"

definition sr_sender_init ::
    "sr_sender_t option \<Rightarrow> int \<Rightarrow> sockaddr_in option \<Rightarrow> bytes option \<Rightarrow> u32 \<Rightarrow> bool
     \<Rightarrow> int \<times> sr_sender_t option" where
  "sr_sender_init sender udp_fd peer_addr file_data file_size lossy_link =
     (case (sender, peer_addr, file_data, lossy_link) of
        (Some _, Some addr, Some data, True) \<Rightarrow>
          (0, Some \<lparr>s_udp_fd = udp_fd, s_peer_addr = addr, s_base = 0, s_next_seq = 0,
                    s_window = replicate WINDOW_SIZE empty_send_entry,
                    s_file_data = data, s_file_size = file_size,
                    s_num_chunks = (file_size + CHUNK_SIZE - 1) div CHUNK_SIZE,
                    s_chunks_acked = 0, s_lossy_link = lossy_link\<rparr>)
      | _ \<Rightarrow> (-1, sender))"

definition count_sent :: "udp_env \<Rightarrow> udp_env" where
  "count_sent env = env\<lparr>env_stats := (env_stats env)\<lparr>packets_sent := packets_sent (env_stats env) + 1\<rparr>\<rparr>"

definition count_retransmitted :: "udp_env \<Rightarrow> udp_env" where
  "count_retransmitted env = env\<lparr>env_stats :=
     (env_stats env)\<lparr>packets_retransmitted := packets_retransmitted (env_stats env) + 1\<rparr>\<rparr>"

definition count_ack :: "udp_env \<Rightarrow> udp_env" where
  "count_ack env = env\<lparr>env_stats := (env_stats env)\<lparr>acks_received := acks_received (env_stats env) + 1\<rparr>\<rparr>"

text \<open>One pass of the loop of \<^verbatim>\<open>sr_sender_send_window\<close>, after its \<^verbatim>\<open>break\<close>.\<close>

definition chunk_len_of :: "sr_sender_t \<Rightarrow> u32 \<Rightarrow> u16" where
  "chunk_len_of s offset =
     (if offset + CHUNK_SIZE > s_file_size s then ucast (s_file_size s - offset) else CHUNK_SIZE)"

definition send_chunk :: "u64 \<Rightarrow> udp_env \<Rightarrow> sr_sender_t \<Rightarrow> (udp_env \<times> sr_sender_t) c_result" where
  "send_chunk now env s =
     (let idx = widx (s_next_seq s);
          offset = s_next_seq s * CHUNK_SIZE;
          chunk_len = chunk_len_of s offset;
          data = drop (unat offset) (s_file_data s)
      in case build_data_packet (env_order env) (s_next_seq s) data chunk_len of
           Inl f \<Rightarrow> Inl f
         | Inr packet \<Rightarrow>
             let env = (if s_lossy_link s
                        then snd (lossy_send (count_sent env) packet (s_peer_addr s))
                        else snd (sendto env packet (s_peer_addr s)))
             in case memcpy_at (sw_data (s_window s ! idx)) 0 (take (unat chunk_len) data) of
                  Inl f \<Rightarrow> Inl f
                | Inr stored \<Rightarrow>
                    Inr (env,
                         s\<lparr>s_window := (s_window s)[idx :=
                             \<lparr>sw_state = PKT_PENDING, sw_seq_num = s_next_seq s, sw_data = stored,
                              sw_data_len = chunk_len, sw_send_time_ms = now, sw_retries = 0\<rparr>],
                           s_next_seq := s_next_seq s + 1\<rparr>))"

lemma send_chunk_counters:
  "send_chunk now env s = Inr (env', s') \<Longrightarrow>
     s_next_seq s' = s_next_seq s + 1 \<and> s_num_chunks s' = s_num_chunks s"
  by (auto simp: send_chunk_def Let_def split: sum.splits)

function send_window_loop ::
    "u64 \<Rightarrow> udp_env \<Rightarrow> sr_sender_t \<Rightarrow> int \<Rightarrow> (int \<times> udp_env \<times> sr_sender_t) c_result" where
  "send_window_loop now env s packets =
     (if s_next_seq s < s_base s + WINDOW_SIZE \<and> s_next_seq s < s_num_chunks s
      then
        if sw_state (s_window s ! widx (s_next_seq s)) \<noteq> PKT_EMPTY then Inr (packets, env, s)
        else
          case send_chunk now env s of
            Inl f \<Rightarrow> Inl f
          | Inr (env', s') \<Rightarrow> send_window_loop now env' s' (packets + 1)
      else Inr (packets, env, s))"
  by pat_completeness auto
termination
  by (relation "measure (\<lambda>(now, env, s, packets). unat (s_num_chunks s) - unat (s_next_seq s))")
    (auto dest!: send_chunk_counters simp: unat_Suc_less word_less_nat_alt)

definition sr_sender_send_window ::
    "u64 \<Rightarrow> udp_env \<Rightarrow> sr_sender_t option \<Rightarrow> (int \<times> udp_env \<times> sr_sender_t option) c_result" where
  "sr_sender_send_window now env sender =
     (case sender of
        None \<Rightarrow> Inr (-1, env, None)
      | Some s \<Rightarrow>
          (case send_window_loop now env s 0 of
             Inl f \<Rightarrow> Inl f
           | Inr (packets, env, s) \<Rightarrow> Inr (packets, env, Some s)))"

function slide_send_window :: "sr_sender_t \<Rightarrow> sr_sender_t" where
  "slide_send_window s =
     (if s_base s < s_num_chunks s
      then
        let base_idx = widx (s_base s)
        in if sw_state (s_window s ! base_idx) \<noteq> PKT_ACKED then s
           else slide_send_window
             (s\<lparr>s_window := (s_window s)[base_idx := (s_window s ! base_idx)\<lparr>sw_state := PKT_EMPTY\<rparr>],
                s_base := s_base s + 1\<rparr>)
      else s)"
  by pat_completeness auto
termination
  by (relation "measure (\<lambda>s. unat (s_num_chunks s) - unat (s_base s))")
    (auto simp: unat_Suc_less word_less_nat_alt)

definition mark_acked :: "u32 \<Rightarrow> udp_env \<Rightarrow> sr_sender_t \<Rightarrow> udp_env \<times> sr_sender_t" where
  "mark_acked ack_num env s =
     (let idx = widx ack_num; e = s_window s ! idx
      in if sw_state e = PKT_PENDING \<and> sw_seq_num e = ack_num
         then (count_ack env,
               s\<lparr>s_window := (s_window s)[idx := e\<lparr>sw_state := PKT_ACKED\<rparr>],
                 s_chunks_acked := s_chunks_acked s + 1\<rparr>)
         else (env, s))"

definition sr_sender_handle_ack :: "udp_env \<Rightarrow> sr_sender_t \<Rightarrow> udp_header_t \<Rightarrow> int \<times> udp_env \<times> sr_sender_t" where
  "sr_sender_handle_ack env s hdr =
     (let ack_num = uh_ack_num hdr
      in if ack_num < s_base s then (0, env, s)
         else if uh_msg_type hdr \<noteq> UDP_ACK then (0, env, s)
         else if ack_num \<ge> s_base s + WINDOW_SIZE \<or> ack_num \<ge> s_num_chunks s then (0, env, s)
         else
           let (env, s) = mark_acked ack_num env s
           in (0, env, slide_send_window s))"

text \<open>
  One pass of the loop of \<^verbatim>\<open>sr_sender_check_timeouts\<close>. The first component is the
  number of packets retransmitted in the pass, or -1 when the entry has no retries left.
\<close>

definition check_timeout ::
    "u64 \<Rightarrow> u32 \<Rightarrow> udp_env \<Rightarrow> sr_sender_t \<Rightarrow> (int \<times> udp_env \<times> sr_sender_t) c_result" where
  "check_timeout now_ms seq env s =
     (let idx = widx seq; e = s_window s ! idx
      in if sw_state e \<noteq> PKT_PENDING then Inr (0, env, s)
         else if sw_seq_num e \<noteq> seq then Inr (0, env, s)
         else if now_ms - sw_send_time_ms e \<ge> TIMEOUT_MS then
           if sw_retries e \<ge> MAX_RETRIES then Inr (-1, env, s)
           else
             case build_data_packet (env_order env) (sw_seq_num e) (sw_data e) (sw_data_len e) of
               Inl f \<Rightarrow> Inl f
             | Inr packet \<Rightarrow>
                 let env = (if s_lossy_link s
                            then snd (lossy_send (count_retransmitted (count_sent env)) packet (s_peer_addr s))
                            else snd (sendto env packet (s_peer_addr s)))
                 in Inr (1, env,
                         s\<lparr>s_window := (s_window s)[idx :=
                             e\<lparr>sw_send_time_ms := now_ms, sw_retries := sw_retries e + 1\<rparr>]\<rparr>)
         else Inr (0, env, s))"

lemma check_timeout_counters:
  "check_timeout now seq env s = Inr (r, env', s') \<Longrightarrow> s_next_seq s' = s_next_seq s"
  by (auto simp: check_timeout_def Let_def split: sum.splits if_splits)

function check_timeouts_loop ::
    "u64 \<Rightarrow> u32 \<Rightarrow> int \<Rightarrow> udp_env \<Rightarrow> sr_sender_t \<Rightarrow> (int \<times> udp_env \<times> sr_sender_t) c_result" where
  "check_timeouts_loop now_ms seq retransmissions env s =
     (if seq < s_next_seq s
      then
        case check_timeout now_ms seq env s of
          Inl f \<Rightarrow> Inl f
        | Inr (r, env', s') \<Rightarrow>
            if r < 0 then Inr (-1, env', s')
            else check_timeouts_loop now_ms (seq + 1) (retransmissions + r) env' s'
      else Inr (retransmissions, env, s))"
  by pat_completeness auto
termination
  by (relation "measure (\<lambda>(now, seq, r, env, s). unat (s_next_seq s) - unat seq)")
    (auto dest!: check_timeout_counters simp: unat_Suc_less word_less_nat_alt)

definition sr_sender_check_timeouts ::
    "udp_env \<Rightarrow> sr_sender_t \<Rightarrow> u64 \<Rightarrow> (int \<times> udp_env \<times> sr_sender_t) c_result" where
  "sr_sender_check_timeouts env s now_ms = check_timeouts_loop now_ms (s_base s) 0 env s"

definition sr_sender_is_complete :: "sr_sender_t \<Rightarrow> bool" where
  "sr_sender_is_complete s \<longleftrightarrow> s_chunks_acked s \<ge> s_num_chunks s"

declare send_window_loop.simps [simp del]
declare slide_send_window.simps [simp del]
declare check_timeouts_loop.simps [simp del]

section \<open>The invariant\<close>

definition slot :: "sr_sender_t \<Rightarrow> nat \<Rightarrow> send_window_entry_t" where
  "slot s k = s_window s ! (k mod WINDOW_SIZE)"

definition holds_chunk :: "bytes \<Rightarrow> nat \<Rightarrow> send_window_entry_t \<Rightarrow> bool" where
  "holds_chunk F k e \<longleftrightarrow>
     sw_state e \<noteq> PKT_EMPTY \<and> unat (sw_seq_num e) = k \<and>
     unat (sw_data_len e) = length (chunk F k) \<and> take (unat (sw_data_len e)) (sw_data e) = chunk F k \<and>
     0 \<le> sw_retries e \<and> sw_retries e \<le> MAX_RETRIES"

text \<open>The part of the state that no operation after the initialisation writes.\<close>

definition sender_static :: "bytes \<Rightarrow> sr_sender_t \<Rightarrow> bool" where
  "sender_static F s \<longleftrightarrow>
     s_file_data s = F \<and> unat (s_file_size s) = length F \<and> length F \<le> max_file \<and>
     unat (s_num_chunks s) = chunk_count (length F)"

definition window_ok :: "sr_sender_t \<Rightarrow> bool" where
  "window_ok s \<longleftrightarrow> length (s_window s) = WINDOW_SIZE \<and>
     (\<forall>e \<in> set (s_window s). length (sw_data e) = CHUNK_SIZE)"

definition in_flight :: "sr_sender_t \<Rightarrow> nat set" where
  "in_flight s = {unat (s_base s) ..< unat (s_next_seq s)}"

definition acked :: "sr_sender_t \<Rightarrow> nat set" where
  "acked s = {..< unat (s_base s)} \<union> {k \<in> in_flight s. sw_state (slot s k) = PKT_ACKED}"

definition sender_inv :: "bytes \<Rightarrow> sr_sender_t \<Rightarrow> bool" where
  "sender_inv F s \<longleftrightarrow>
     sender_static F s \<and> window_ok s \<and>
     unat (s_base s) \<le> unat (s_next_seq s) \<and> unat (s_next_seq s) \<le> unat (s_num_chunks s) \<and>
     unat (s_next_seq s) \<le> unat (s_base s) + WINDOW_SIZE \<and>
     (\<forall>k \<in> in_flight s. holds_chunk F k (slot s k)) \<and>
     (\<forall>k \<in> {unat (s_next_seq s) ..< unat (s_base s) + WINDOW_SIZE}. sw_state (slot s k) = PKT_EMPTY) \<and>
     unat (s_chunks_acked s) = card (acked s)"

text \<open>After an acknowledgement has been handled, the packet at the base is not acknowledged.\<close>

definition window_slid :: "sr_sender_t \<Rightarrow> bool" where
  "window_slid s \<longleftrightarrow> s_base s < s_num_chunks s \<longrightarrow> sw_state (slot s (unat (s_base s))) \<noteq> PKT_ACKED"

lemma window_slid_acked:
  assumes "sender_inv F s"
  shows "window_slid s \<longleftrightarrow> (s_base s < s_num_chunks s \<longrightarrow> unat (s_base s) \<notin> acked s)"
proof -
  have "unat (s_base s) \<in> in_flight s" if "sw_state (slot s (unat (s_base s))) = PKT_ACKED"
  proof (rule ccontr)
    assume "unat (s_base s) \<notin> in_flight s"
    then have "unat (s_base s) \<in> {unat (s_next_seq s) ..< unat (s_base s) + WINDOW_SIZE}"
      by (simp add: in_flight_def)
    then have "sw_state (slot s (unat (s_base s))) = PKT_EMPTY"
      using assms unfolding sender_inv_def by blast
    with that show False by simp
  qed
  then show ?thesis by (auto simp: window_slid_def acked_def)
qed

lemma sender_static_small: "sender_static F s \<Longrightarrow> unat (s_num_chunks s) < 2 ^ 22"
  using chunk_count_max [of "length F"] by (simp add: sender_static_def)

lemma sender_inv_bounds:
  assumes "sender_inv F s"
  shows "unat (s_base s + WINDOW_SIZE) = unat (s_base s) + WINDOW_SIZE"
    "unat (s_base s) \<le> unat (s_next_seq s)" "unat (s_next_seq s) \<le> unat (s_num_chunks s)"
    "unat (s_next_seq s) \<le> unat (s_base s) + WINDOW_SIZE"
    "length (s_window s) = WINDOW_SIZE" "unat (s_num_chunks s) < 2 ^ 22"
proof -
  note inv = assms [unfolded sender_inv_def]
  show le: "unat (s_base s) \<le> unat (s_next_seq s)" "unat (s_next_seq s) \<le> unat (s_num_chunks s)"
    "unat (s_next_seq s) \<le> unat (s_base s) + WINDOW_SIZE"
    and "length (s_window s) = WINDOW_SIZE"
    using inv by (simp_all add: window_ok_def)
  show small: "unat (s_num_chunks s) < 2 ^ 22" using inv sender_static_small by blast
  show "unat (s_base s + WINDOW_SIZE) = unat (s_base s) + WINDOW_SIZE"
    by (rule base_plus_window [of _ "unat (s_num_chunks s)"]) (use le small in linarith)+
qed

lemma chunk_len_ok:
  assumes "sender_static F s" "unat q < unat (s_num_chunks s)"
  shows "unat (q * CHUNK_SIZE) = unat q * CHUNK_SIZE"
    "unat (chunk_len_of s (q * CHUNK_SIZE)) = length (chunk F (unat q))"
proof -
  have size: "unat (s_file_size s) = length F" and max: "length F \<le> max_file"
    using assms(1) by (simp_all add: sender_static_def)
  have lt: "unat q * CHUNK_SIZE < length F"
    using assms chunk_count_less [of "unat q" "length F"] by (simp add: sender_static_def)
  then have b: "unat q * CHUNK_SIZE + CHUNK_SIZE < 2 ^ 32"
    using max by (simp add: max_file_def)
  show off: "unat (q * CHUNK_SIZE) = unat q * CHUNK_SIZE"
    using b by (simp add: unat_word_ariths)
  have plus: "unat (q * CHUNK_SIZE + CHUNK_SIZE) = unat q * CHUNK_SIZE + CHUNK_SIZE"
    using b off by (simp add: unat_add_bounded)
  have diff: "unat (s_file_size s - q * CHUNK_SIZE) = length F - unat q * CHUNK_SIZE"
    using off lt size by (simp add: unat_diff_le word_le_nat_alt)
  show "unat (chunk_len_of s (q * CHUNK_SIZE)) = length (chunk F (unat q))"
  proof (cases "q * CHUNK_SIZE + CHUNK_SIZE > s_file_size s")
    case True
    then have "length F < unat q * CHUNK_SIZE + CHUNK_SIZE"
      using plus size by (simp add: word_less_nat_alt)
    then show ?thesis using True diff
      by (simp add: chunk_len_of_def unat_ucast_down length_chunk)
  next
    case False
    then have "unat q * CHUNK_SIZE + CHUNK_SIZE \<le> length F"
      using plus size by (simp add: word_less_nat_alt)
    then show ?thesis using False by (simp add: chunk_len_of_def length_chunk)
  qed
qed

subsection \<open>Initialisation\<close>

lemma num_chunks_word:
  assumes "unat (n :: u32) \<le> max_file"
  shows "unat ((n + CHUNK_SIZE - 1) div CHUNK_SIZE) = chunk_count (unat n)"
proof -
  have "unat (1023 + n) = unat n + 1023"
    using assms by (simp add: unat_add_bounded max_file_def)
  then show ?thesis by (simp add: unat_div_distrib chunk_count_def)
qed

lemma sr_sender_init_inv:
  assumes "length F \<le> max_file"
  obtains s where "sr_sender_init (Some s0) fd (Some addr) (Some F) (of_nat (length F)) True = (0, Some s)"
    "sender_inv F s" "window_slid s" "s_base s = 0" "s_next_seq s = 0" "s_chunks_acked s = 0"
    "s_peer_addr s = addr"
proof -
  define s where "s = \<lparr>s_udp_fd = fd, s_peer_addr = addr, s_base = 0, s_next_seq = 0,
    s_window = replicate WINDOW_SIZE empty_send_entry, s_file_data = F,
    s_file_size = of_nat (length F), s_num_chunks = (of_nat (length F) + CHUNK_SIZE - 1) div CHUNK_SIZE,
    s_chunks_acked = 0, s_lossy_link = True\<rparr>"
  have size: "unat (of_nat (length F) :: u32) = length F"
    using assms by (simp add: max_file_def unat_of_nat)
  have "sender_static F s"
    using size assms num_chunks_word [of "of_nat (length F)"] by (simp add: s_def sender_static_def)
  then have "sender_inv F s"
    by (simp add: s_def sender_inv_def window_ok_def in_flight_def acked_def slot_def empty_send_entry_def)
  moreover have "window_slid s"
    by (simp add: s_def window_slid_def slot_def empty_send_entry_def)
  moreover have "sr_sender_init (Some s0) fd (Some addr) (Some F) (of_nat (length F)) True = (0, Some s)"
    by (simp add: sr_sender_init_def s_def)
  ultimately show thesis using that by (simp add: s_def)
qed

subsection \<open>Filling the window\<close>

lemma sslot_update:
  assumes "length (s_window s) = WINDOW_SIZE" "b \<le> j" "j < b + WINDOW_SIZE" "b \<le> k" "k < b + WINDOW_SIZE"
  shows "(s_window s)[k mod WINDOW_SIZE := e] ! (j mod WINDOW_SIZE) = (if j = k then e else slot s j)"
  using win.slot_update [OF assms] by (simp add: slot_def)

lemma sends_count_lossy:
  "P (dest, p) \<Longrightarrow> sends P env (snd (lossy_send (count_sent env) p dest))"
  "P (dest, p) \<Longrightarrow> sends P env (snd (lossy_send (count_retransmitted (count_sent env)) p dest))"
  using sends_lossy [of P dest p "count_sent env"]
    sends_lossy [of P dest p "count_retransmitted (count_sent env)"]
  by (simp_all add: sends_def count_sent_def count_retransmitted_def)

lemma send_chunk_result:
  assumes inv: "sender_inv F s" and lt: "s_next_seq s < s_num_chunks s"
  obtains p stored env' where
    "send_chunk now env s = Inr (env', s\<lparr>s_window := (s_window s)[unat (s_next_seq s) mod WINDOW_SIZE :=
        \<lparr>sw_state = PKT_PENDING, sw_seq_num = s_next_seq s, sw_data = stored,
         sw_data_len = chunk_len_of s (s_next_seq s * CHUNK_SIZE), sw_send_time_ms = now, sw_retries = 0\<rparr>],
       s_next_seq := s_next_seq s + 1\<rparr>)"
    "env' = (if s_lossy_link s then snd (lossy_send (count_sent env) p (s_peer_addr s))
             else snd (sendto env p (s_peer_addr s)))"
    "carries (env_order env) F (unat (s_next_seq s)) p"
    "length stored = CHUNK_SIZE"
    "take (length (chunk F (unat (s_next_seq s)))) stored = chunk F (unat (s_next_seq s))"
proof -
  let ?k = "unat (s_next_seq s)" and ?len = "chunk_len_of s (s_next_seq s * CHUNK_SIZE)"
  let ?data = "drop (unat (s_next_seq s * CHUNK_SIZE)) (s_file_data s)"
  have static: "sender_static F s" and ok: "window_ok s" using inv by (simp_all add: sender_inv_def)
  have off: "unat (s_next_seq s * CHUNK_SIZE) = ?k * CHUNK_SIZE"
    and len: "unat ?len = length (chunk F ?k)"
    using chunk_len_ok [OF static] lt by (simp_all add: word_less_nat_alt)
  have data: "take (unat ?len) ?data = chunk F ?k"
    using static off len by (simp add: sender_static_def length_chunk) (simp add: chunk_def min_def)
  obtain p where p: "build_data_packet (env_order env) (s_next_seq s) ?data ?len = Inr p"
    "carries (env_order env) F ?k p"
    by (rule build_chunk_packet [OF refl len data])
  have "length (sw_data (s_window s ! (?k mod WINDOW_SIZE))) = CHUNK_SIZE"
    using ok by (simp add: window_ok_def)
  then obtain stored where st: "memcpy_at (sw_data (s_window s ! (?k mod WINDOW_SIZE))) 0 (chunk F ?k) = Inr stored"
    "length stored = CHUNK_SIZE" "take (length (chunk F ?k)) stored = chunk F ?k"
    using memcpy_at_0_ok [of "chunk F ?k" "sw_data (s_window s ! (?k mod WINDOW_SIZE))"] length_chunk_le
    by metis
  show thesis
    by (rule that [OF _ refl p(2) st(2,3)])
      (simp add: send_chunk_def Let_def p(1) data st(1))
qed

lemma send_chunk_inv:
  assumes inv: "sender_inv F s" and lt: "s_next_seq s < s_num_chunks s"
    and win: "s_next_seq s < s_base s + WINDOW_SIZE"
  obtains env' s' where "send_chunk now env s = Inr (env', s')" "sender_inv F s'"
    "acked s' = acked s" "s_base s' = s_base s" "s_num_chunks s' = s_num_chunks s"
    "s_peer_addr s' = s_peer_addr s" "s_lossy_link s' = s_lossy_link s"
    "s_next_seq s' = s_next_seq s + 1"
    "sends (\<lambda>d. fst d = s_peer_addr s \<and> carries (env_order env) F (unat (s_next_seq s)) (snd d)) env env'"
    "lossless env \<longrightarrow> chunk_logged env' F (unat (s_next_seq s))"
proof -
  let ?k = "unat (s_next_seq s)" and ?b = "unat (s_base s)"
  note bounds = sender_inv_bounds [OF inv]
  have kb: "?b \<le> ?k" "?k < ?b + WINDOW_SIZE" "?k < unat (s_num_chunks s)"
    using bounds lt win by (simp_all add: word_less_nat_alt)
  obtain p stored env' where r: "send_chunk now env s = Inr (env', s\<lparr>s_window := (s_window s)[?k mod WINDOW_SIZE :=
        \<lparr>sw_state = PKT_PENDING, sw_seq_num = s_next_seq s, sw_data = stored,
         sw_data_len = chunk_len_of s (s_next_seq s * CHUNK_SIZE), sw_send_time_ms = now, sw_retries = 0\<rparr>],
       s_next_seq := s_next_seq s + 1\<rparr>)"
    and env': "env' = (if s_lossy_link s then snd (lossy_send (count_sent env) p (s_peer_addr s))
             else snd (sendto env p (s_peer_addr s)))"
    and p: "carries (env_order env) F ?k p" and st: "length stored = CHUNK_SIZE"
      "take (length (chunk F ?k)) stored = chunk F ?k"
    by (rule send_chunk_result [OF inv lt])
  define e where "e = \<lparr>sw_state = PKT_PENDING, sw_seq_num = s_next_seq s, sw_data = stored,
    sw_data_len = chunk_len_of s (s_next_seq s * CHUNK_SIZE), sw_send_time_ms = now, sw_retries = 0\<rparr>"
  define s' where "s' = s\<lparr>s_window := (s_window s)[?k mod WINDOW_SIZE := e], s_next_seq := s_next_seq s + 1\<rparr>"
  have next': "unat (s_next_seq s') = Suc ?k" using lt by (simp add: s'_def unat_Suc_less)
  have slot': "slot s' j = (if j = ?k then e else slot s j)" if "?b \<le> j" "j < ?b + WINDOW_SIZE" for j
    using sslot_update [OF bounds(5) that kb(1,2), of e] by (simp add: slot_def s'_def)
  have holds: "holds_chunk F ?k e"
    using chunk_len_ok(2) [of F s "s_next_seq s"] inv kb(3) st
    by (simp add: e_def holds_chunk_def sender_inv_def)
  have flight: "in_flight s' = insert ?k (in_flight s)"
    using kb next' by (auto simp: in_flight_def s'_def)
  have acked: "acked s' = acked s"
  proof -
    have "{k \<in> in_flight s'. sw_state (slot s' k) = PKT_ACKED} = {k \<in> in_flight s. sw_state (slot s k) = PKT_ACKED}"
      using kb slot' unfolding flight by (auto simp: in_flight_def e_def)
    then show ?thesis by (simp add: acked_def s'_def)
  qed
  have "\<forall>j \<in> in_flight s'. holds_chunk F j (slot s' j)"
    using inv kb slot' holds unfolding flight by (auto simp: sender_inv_def in_flight_def)
  moreover have "\<forall>j \<in> {Suc ?k ..< ?b + WINDOW_SIZE}. sw_state (slot s' j) = PKT_EMPTY"
    using inv kb slot' by (auto simp: sender_inv_def)
  moreover have "window_ok s'"
    using inv st(1) set_update_subset_insert [of "s_window s" "?k mod WINDOW_SIZE" e]
    by (auto simp: sender_inv_def window_ok_def s'_def e_def)
  ultimately have "sender_inv F s'"
    using inv kb next' acked by (simp add: sender_inv_def sender_static_def s'_def)
  moreover have "sends (\<lambda>d. fst d = s_peer_addr s \<and> carries (env_order env) F ?k (snd d)) env env'"
    using p unfolding env' by (simp add: sends_sendto sends_count_lossy)
  moreover have "lossless env \<longrightarrow> chunk_logged env' F ?k"
    using p chunk_logged_lossy [of "count_sent env"] unfolding env'
    by (simp add: chunk_logged_sendto lossless_def count_sent_def)
  ultimately show thesis using that [of env' s'] acked r by (simp add: s'_def e_def)
qed

text \<open>
  The loop fills the window: it stops at the end of the window or of the file, never at
  an occupied entry, and every datagram it sends carries a chunk of the file.
\<close>

abbreviation data_datagram :: "udp_env \<Rightarrow> bytes \<Rightarrow> sr_sender_t \<Rightarrow> sockaddr_in \<times> bytes \<Rightarrow> bool" where
  "data_datagram env F s d \<equiv> fst d = s_peer_addr s \<and>
     (\<exists>k < chunk_count (length F). carries (env_order env) F k (snd d))"

lemma next_slot_empty:
  assumes "sender_inv F s" "s_next_seq s < s_base s + WINDOW_SIZE"
  shows "sw_state (s_window s ! widx (s_next_seq s)) = PKT_EMPTY"
  using assms sender_inv_bounds [OF assms(1)]
  by (simp add: sender_inv_def slot_def word_less_nat_alt)

text \<open>What every single send keeps, filling the window keeps.\<close>

lemma send_window_loop_keeps:
  assumes "\<And>env s env' s'. P s \<Longrightarrow> send_chunk now env s = Inr (env', s') \<Longrightarrow> P s'"
    and "P s" "send_window_loop now env s n = Inr (n', env', s')"
  shows "P s'"
  using assms
proof (induction now env s n arbitrary: n' env' s' rule: send_window_loop.induct [case_names loop])
  case (loop now' env s packets)
  show ?case
  proof (cases "(s_next_seq s < s_base s + WINDOW_SIZE \<and> s_next_seq s < s_num_chunks s) \<and>
      sw_state (s_window s ! widx (s_next_seq s)) = PKT_EMPTY")
    case True
    then obtain env1 s1 where c: "send_chunk now' env s = Inr (env1, s1)"
      "send_window_loop now' env1 s1 (packets + 1) = Inr (n', env', s')"
      using loop.prems by (auto simp: send_window_loop.simps [of now' env s] split: sum.splits)
    show ?thesis
      by (rule loop.IH [OF True [THEN conjunct1] _ c(1) refl loop.prems(1) loop.prems(1) [OF loop.prems(2) c(1)] c(2)])
        (use True in blast)+
  next
    case False
    then have "s' = s" using loop.prems(3) by (auto simp: send_window_loop.simps [of now' env s] split: if_splits)
    then show ?thesis using loop.prems(2) by simp
  qed
qed

definition window_filled ::
    "bytes \<Rightarrow> udp_env \<Rightarrow> sr_sender_t \<Rightarrow> int \<Rightarrow> udp_env \<Rightarrow> sr_sender_t \<Rightarrow> bool" where
  "window_filled F env s n env' s' \<longleftrightarrow>
     sender_inv F s' \<and> acked s' = acked s \<and> s_base s' = s_base s \<and>
     s_num_chunks s' = s_num_chunks s \<and> s_peer_addr s' = s_peer_addr s \<and>
     s_lossy_link s' = s_lossy_link s \<and>
     unat (s_next_seq s') = min (unat (s_base s) + WINDOW_SIZE) (unat (s_num_chunks s)) \<and>
     n = int (unat (s_next_seq s') - unat (s_next_seq s)) \<and>
     sends (data_datagram env F s) env env' \<and>
     (lossless env \<longrightarrow> (\<forall>k \<in> {unat (s_next_seq s) ..< unat (s_next_seq s')}. chunk_logged env' F k))"

lemma int_diff_Suc:
  "n = int (m - Suc k) \<Longrightarrow> Suc k \<le> m \<Longrightarrow> 1 + n = int (m - k)"
  by simp

lemma send_window_loop_inv:
  assumes "sender_inv F s"
  shows "\<exists>n env' s'. send_window_loop now env s packets = Inr (packets + n, env', s') \<and>
    window_filled F env s n env' s'"
  using assms
proof (induction now env s packets rule: send_window_loop.induct)
  case (1 now env s packets)
  note bounds = sender_inv_bounds [OF "1.prems"]
  show ?case
  proof (cases "s_next_seq s < s_base s + WINDOW_SIZE \<and> s_next_seq s < s_num_chunks s")
    case True
    then have empty: "sw_state (s_window s ! widx (s_next_seq s)) = PKT_EMPTY"
      using next_slot_empty [OF "1.prems"] by blast
    obtain env' s' where step: "send_chunk now env s = Inr (env', s')" "sender_inv F s'"
      "acked s' = acked s" "s_base s' = s_base s" "s_num_chunks s' = s_num_chunks s"
      "s_peer_addr s' = s_peer_addr s" "s_lossy_link s' = s_lossy_link s"
      "s_next_seq s' = s_next_seq s + 1"
      "sends (\<lambda>d. fst d = s_peer_addr s \<and> carries (env_order env) F (unat (s_next_seq s)) (snd d)) env env'"
      "lossless env \<longrightarrow> chunk_logged env' F (unat (s_next_seq s))"
      by (rule send_chunk_inv [OF "1.prems" True [THEN conjunct2] True [THEN conjunct1]])
    have next': "unat (s_next_seq s') = Suc (unat (s_next_seq s))"
      using unat_Suc_less [OF True [THEN conjunct2]] step(8) by simp
    have "unat (s_next_seq s) < chunk_count (length F)"
      using True "1.prems" by (simp add: sender_inv_def sender_static_def word_less_nat_alt)
    then have first: "sends (data_datagram env F s) env env'"
      using step(9) by (auto simp: sends_def)
    obtain n env'' s'' where rest:
      "send_window_loop now env' s' (packets + 1) = Inr (packets + 1 + n, env'', s'')"
      "window_filled F env' s' n env'' s''"
      using "1.IH" [OF True _ step(1) refl] empty step(2) by blast
    have "sends (data_datagram env F s) env env''"
      using rest(2) sends_trans [OF first] step(6) sends_order [OF first]
      by (simp add: window_filled_def)
    moreover have "1 + n = int (unat (s_next_seq s'') - unat (s_next_seq s))"
      using rest(2) next' sender_inv_bounds(3,4) [OF step(2)]
      unfolding window_filled_def by (intro int_diff_Suc) simp_all
    moreover have "\<forall>k \<in> {unat (s_next_seq s) ..< unat (s_next_seq s'')}. chunk_logged env'' F k"
      if "lossless env"
    proof
      fix k
      assume k: "k \<in> {unat (s_next_seq s) ..< unat (s_next_seq s'')}"
      have more: "sends (data_datagram env' F s') env' env''"
        and tail: "lossless env' \<longrightarrow> (\<forall>k \<in> {unat (s_next_seq s') ..< unat (s_next_seq s'')}. chunk_logged env'' F k)"
        using rest(2) unfolding window_filled_def by blast+
      show "chunk_logged env'' F k"
      proof (cases "k = unat (s_next_seq s)")
        case True
        then show ?thesis using chunk_logged_sends [OF _ more] step(10) that by blast
      next
        case False
        then show ?thesis using k tail lossless_sends [OF first] that next' by auto
      qed
    qed
    ultimately have "window_filled F env s (1 + n) env'' s''"
      using rest(2) step by (simp add: window_filled_def)
    moreover have "send_window_loop now env s packets = Inr (packets + (1 + n), env'', s'')"
      using True empty step(1) rest(1) by (simp add: send_window_loop.simps [of now env s])
    ultimately show ?thesis by blast
  next
    case False
    then have "unat (s_next_seq s) = min (unat (s_base s) + WINDOW_SIZE) (unat (s_num_chunks s))"
      using bounds by (auto simp: word_less_nat_alt)
    then have "window_filled F env s 0 env s" using "1.prems" by (simp add: window_filled_def)
    with False show ?thesis by (auto simp: send_window_loop.simps [of now env s])
  qed
qed

lemma sr_sender_send_window_inv:
  assumes "sender_inv F s"
  obtains n env' s' where "sr_sender_send_window now env (Some s) = Inr (n, env', Some s')"
    "window_filled F env s n env' s'"
  using send_window_loop_inv [OF assms, of now env 0]
  by (auto simp: sr_sender_send_window_def)

subsection \<open>Taking an acknowledgement\<close>

lemma acked_finite [simp]: "finite (acked s)"
  by (simp add: acked_def in_flight_def)

lemma acked_less: "sender_inv F s \<Longrightarrow> acked s \<subseteq> {..< unat (s_next_seq s)}"
  by (auto simp: acked_def in_flight_def sender_inv_def)

lemma window_ok_state_update:
  assumes "window_ok s" "i < WINDOW_SIZE" "length (sw_data e) = CHUNK_SIZE"
  shows "window_ok (s\<lparr>s_window := (s_window s)[i := e]\<rparr>)"
  using assms set_update_subset_insert [of "s_window s" i e] by (auto simp: window_ok_def)

lemma slot_data_length: "window_ok s \<Longrightarrow> length (sw_data (slot s k)) = CHUNK_SIZE"
  by (simp add: window_ok_def slot_def)

lemma slide_step_inv:
  assumes inv: "sender_inv F s" and lt: "s_base s < s_num_chunks s"
    and ack: "sw_state (slot s (unat (s_base s))) = PKT_ACKED"
  defines "s' \<equiv> s\<lparr>s_window := (s_window s)[unat (s_base s) mod WINDOW_SIZE :=
      (slot s (unat (s_base s)))\<lparr>sw_state := PKT_EMPTY\<rparr>], s_base := s_base s + 1\<rparr>"
  shows "sender_inv F s'" "acked s' = acked s"
proof -
  let ?b = "unat (s_base s)" and ?n = "unat (s_next_seq s)"
  let ?e = "(slot s ?b)\<lparr>sw_state := PKT_EMPTY\<rparr>"
  note bounds = sender_inv_bounds [OF inv]
  have base': "unat (s_base s') = Suc ?b" using lt by (simp add: s'_def unat_Suc_less)
  have bn: "?b < ?n"
  proof (rule ccontr)
    assume "\<not> ?b < ?n"
    then have "?b \<in> {?n ..< ?b + WINDOW_SIZE}" using bounds(2) by simp
    then have "sw_state (slot s ?b) = PKT_EMPTY" using inv by (simp add: sender_inv_def)
    with ack show False by simp
  qed
  have slot': "slot s' j = (if j = ?b then ?e else slot s j)" if "?b \<le> j" "j < ?b + WINDOW_SIZE" for j
    using sslot_update [OF bounds(5) that, of ?b ?e] by (simp add: slot_def s'_def)
  have last: "slot s' (?b + WINDOW_SIZE) = ?e"
    using slot' [of ?b] by (simp add: slot_def)
  have flight: "in_flight s' = in_flight s - {?b}"
    using base' bn by (auto simp: in_flight_def s'_def)
  have same: "slot s' j = slot s j" if "j \<in> in_flight s'" for j
    using that slot' [of j] bounds(4) unfolding flight by (auto simp: in_flight_def)
  show acked: "acked s' = acked s"
    using same ack bn base' unfolding acked_def flight by (auto simp: in_flight_def less_Suc_eq)
  have "\<forall>j \<in> in_flight s'. holds_chunk F j (slot s' j)"
    using inv same unfolding flight by (auto simp: sender_inv_def)
  moreover have "\<forall>j \<in> {?n ..< Suc ?b + WINDOW_SIZE}. sw_state (slot s' j) = PKT_EMPTY"
  proof
    fix j assume j: "j \<in> {?n ..< Suc ?b + WINDOW_SIZE}"
    show "sw_state (slot s' j) = PKT_EMPTY"
    proof (cases "j = ?b + WINDOW_SIZE")
      case True
      then show ?thesis using last by simp
    next
      case False
      then show ?thesis using j bn slot' [of j] inv by (auto simp: sender_inv_def)
    qed
  qed
  moreover have "window_ok s'"
    using inv window_ok_state_update [of s "?b mod WINDOW_SIZE" ?e] slot_data_length [of s ?b]
    by (simp add: sender_inv_def window_ok_def s'_def)
  ultimately show "sender_inv F s'"
    using inv acked base' bn bounds(4)
    by (simp add: sender_inv_def sender_static_def s'_def)
qed

definition ack_taken :: "bytes \<Rightarrow> sr_sender_t \<Rightarrow> nat set \<Rightarrow> sr_sender_t \<Rightarrow> bool" where
  "ack_taken F s new s' \<longleftrightarrow>
     sender_inv F s' \<and> acked s' = acked s \<union> new \<and> s_next_seq s' = s_next_seq s \<and>
     s_num_chunks s' = s_num_chunks s \<and> s_peer_addr s' = s_peer_addr s \<and>
     s_lossy_link s' = s_lossy_link s"

lemma slide_send_window_inv:
  assumes "sender_inv F s"
  shows "ack_taken F s {} (slide_send_window s) \<and> window_slid (slide_send_window s)"
  using assms
proof (induction s rule: slide_send_window.induct)
  case (1 s)
  show ?case
  proof (cases "s_base s < s_num_chunks s \<and> sw_state (slot s (unat (s_base s))) = PKT_ACKED")
    case True
    then have st: "sw_state (s_window s ! widx (s_base s)) = PKT_ACKED" by (simp add: slot_def)
    let ?s' = "s\<lparr>s_window := (s_window s)[widx (s_base s) :=
      (s_window s ! widx (s_base s))\<lparr>sw_state := PKT_EMPTY\<rparr>], s_base := s_base s + 1\<rparr>"
    have step: "sender_inv F ?s'" "acked ?s' = acked s"
      using slide_step_inv [OF "1.prems"] True by (simp_all add: slot_def)
    have "ack_taken F ?s' {} (slide_send_window ?s') \<and> window_slid (slide_send_window ?s')"
      using "1.IH" [OF _ refl _ step(1)] True st by simp
    moreover have "slide_send_window s = slide_send_window ?s'"
      using True st by (simp add: slide_send_window.simps [of s] Let_def)
    ultimately show ?thesis using step by (simp add: ack_taken_def)
  next
    case False
    then have "slide_send_window s = s"
      by (auto simp: slide_send_window.simps [of s] slot_def Let_def)
    then show ?thesis using False "1.prems" by (auto simp: ack_taken_def window_slid_def)
  qed
qed

lemma mark_acked_inv:
  assumes inv: "sender_inv F s" and k: "s_base s \<le> a" "a < s_base s + WINDOW_SIZE"
  shows "ack_taken F s ({unat a} \<inter> in_flight s) (snd (mark_acked a env s))"
proof -
  let ?k = "unat a" and ?e = "slot s (unat a)"
  note bounds = sender_inv_bounds [OF inv]
  have kb: "unat (s_base s) \<le> ?k" "?k < unat (s_base s) + WINDOW_SIZE"
    using k bounds(1) by (simp_all add: word_le_nat_alt word_less_nat_alt)
  show ?thesis
  proof (cases "sw_state ?e = PKT_PENDING \<and> sw_seq_num ?e = a")
    case True
    let ?e' = "?e\<lparr>sw_state := PKT_ACKED\<rparr>"
    define s' where "s' = s\<lparr>s_window := (s_window s)[?k mod WINDOW_SIZE := ?e'],
      s_chunks_acked := s_chunks_acked s + 1\<rparr>"
    have res: "snd (mark_acked a env s) = s'"
      using True by (simp add: mark_acked_def slot_def s'_def Let_def)
    have kf: "?k \<in> in_flight s"
    proof (rule ccontr)
      assume "?k \<notin> in_flight s"
      then have "sw_state ?e = PKT_EMPTY" using inv kb by (simp add: sender_inv_def in_flight_def)
      with True show False by simp
    qed
    have slot': "slot s' j = (if j = ?k then ?e' else slot s j)"
      if "unat (s_base s) \<le> j" "j < unat (s_base s) + WINDOW_SIZE" for j
      using sslot_update [OF bounds(5) that kb, of ?e'] by (simp add: slot_def s'_def)
    have flight: "in_flight s' = in_flight s" by (simp add: in_flight_def s'_def)
    have acked: "acked s' = insert ?k (acked s)"
      using slot' kf bounds(4) unfolding acked_def flight
      by (auto simp: in_flight_def s'_def)
    have new: "?k \<notin> acked s" using True kf by (auto simp: acked_def in_flight_def)
    have "card (acked s) \<le> unat (s_num_chunks s)"
      using card_mono [OF _ acked_less [OF inv]] bounds(3) by simp
    then have "unat (s_chunks_acked s') = card (acked s')"
      using inv new acked bounds(6)
      by (simp add: sender_inv_def s'_def unat_add_bounded)
    moreover have "\<forall>j \<in> in_flight s'. holds_chunk F j (slot s' j)"
      using inv slot' bounds(4) unfolding flight
      by (auto simp: sender_inv_def in_flight_def holds_chunk_def)
    moreover have "\<forall>j \<in> {unat (s_next_seq s) ..< unat (s_base s) + WINDOW_SIZE}.
        sw_state (slot s' j) = PKT_EMPTY"
      using inv slot' kf bounds(2) by (auto simp: sender_inv_def in_flight_def)
    moreover have "window_ok s'"
      using inv window_ok_state_update [of s "?k mod WINDOW_SIZE" ?e'] slot_data_length [of s ?k]
      by (simp add: sender_inv_def window_ok_def s'_def)
    ultimately have "sender_inv F s'"
      using inv by (simp add: sender_inv_def sender_static_def s'_def)
    then show ?thesis using acked kf unfolding res by (simp add: ack_taken_def s'_def)
  next
    case False
    then have res: "snd (mark_acked a env s) = s" by (auto simp: mark_acked_def slot_def Let_def)
    have "{?k} \<inter> in_flight s \<subseteq> acked s"
    proof
      fix j assume j: "j \<in> {?k} \<inter> in_flight s"
      then have "holds_chunk F ?k ?e" using inv by (auto simp: sender_inv_def)
      then have "sw_state ?e = PKT_ACKED"
        using False by (cases "sw_state ?e") (auto simp: holds_chunk_def word_unat_eq_iff)
      then show "j \<in> acked s" using j by (auto simp: acked_def)
    qed
    then show ?thesis using inv unfolding res by (auto simp: ack_taken_def)
  qed
qed

lemma sr_sender_handle_ack_inv:
  assumes inv: "sender_inv F s"
  obtains env' s' where "sr_sender_handle_ack env s hdr = (0, env', s')"
    "ack_taken F s (if uh_msg_type hdr = UDP_ACK then {unat (uh_ack_num hdr)} \<inter> in_flight s else {}) s'"
    "window_slid s \<longrightarrow> window_slid s'" "sends P env env'"
proof -
  let ?a = "uh_ack_num hdr"
  note bounds = sender_inv_bounds [OF inv]
  have none: "{unat ?a} \<inter> in_flight s = {}"
    if "?a < s_base s \<or> ?a \<ge> s_base s + WINDOW_SIZE \<or> ?a \<ge> s_num_chunks s"
    using that bounds by (auto simp: in_flight_def word_less_nat_alt word_le_nat_alt)
  show thesis
  proof (cases "?a < s_base s \<or> uh_msg_type hdr \<noteq> UDP_ACK \<or> ?a \<ge> s_base s + WINDOW_SIZE \<or> ?a \<ge> s_num_chunks s")
    case True
    then have "sr_sender_handle_ack env s hdr = (0, env, s)"
      by (auto simp: sr_sender_handle_ack_def Let_def)
    then show ?thesis using that [of env s] True inv none by (auto simp: ack_taken_def)
  next
    case False
    then have k: "s_base s \<le> ?a" "?a < s_base s + WINDOW_SIZE" by auto
    obtain env' m where m: "mark_acked ?a env s = (env', m)" by fastforce
    have res: "sr_sender_handle_ack env s hdr = (0, env', slide_send_window m)"
      using False m by (auto simp: sr_sender_handle_ack_def Let_def)
    have taken: "ack_taken F s ({unat ?a} \<inter> in_flight s) m"
      using mark_acked_inv [OF inv k, of env] m by simp
    then have "ack_taken F m {} (slide_send_window m)" "window_slid (slide_send_window m)"
      using slide_send_window_inv [of F m] by (auto simp: ack_taken_def)
    moreover have "sends P env env'"
      using m by (auto simp: mark_acked_def Let_def sends_def count_ack_def split: if_splits)
    ultimately show ?thesis using that [OF res] taken False by (auto simp: ack_taken_def)
  qed
qed

subsection \<open>Timeouts\<close>

definition due :: "u64 \<Rightarrow> sr_sender_t \<Rightarrow> nat set" where
  "due now s = {k \<in> in_flight s. sw_state (slot s k) = PKT_PENDING \<and>
     now - sw_send_time_ms (slot s k) \<ge> TIMEOUT_MS}"

definition resent :: "u64 \<Rightarrow> send_window_entry_t \<Rightarrow> send_window_entry_t" where
  "resent now e = e\<lparr>sw_send_time_ms := now, sw_retries := sw_retries e + 1\<rparr>"

text \<open>What a pass of the timeout scan may change: entries are only retimed.\<close>

definition retimed :: "bytes \<Rightarrow> udp_env \<Rightarrow> sr_sender_t \<Rightarrow> udp_env \<Rightarrow> sr_sender_t \<Rightarrow> bool" where
  "retimed F env s env' s' \<longleftrightarrow>
     sender_inv F s' \<and> acked s' = acked s \<and> s_base s' = s_base s \<and> s_next_seq s' = s_next_seq s \<and>
     s_num_chunks s' = s_num_chunks s \<and> s_peer_addr s' = s_peer_addr s \<and>
     s_lossy_link s' = s_lossy_link s \<and> (window_slid s \<longrightarrow> window_slid s') \<and>
     sends (data_datagram env F s) env env'"

lemma retimed_refl: "sender_inv F s \<Longrightarrow> retimed F env s env s"
  by (simp add: retimed_def)

lemma retimed_trans:
  assumes "retimed F env s env' s'" "retimed F env' s' env'' s''"
  shows "retimed F env s env'' s''"
proof -
  have "env_order env' = env_order env" using assms(1) sends_order by (auto simp: retimed_def)
  then show ?thesis
    using assms sends_trans [of "data_datagram env F s" env env' env''] by (simp add: retimed_def)
qed

lemma retime_slot_inv:
  fixes now :: u64
  assumes inv: "sender_inv F s" and k: "k \<in> in_flight s" and r: "sw_retries (slot s k) < MAX_RETRIES"
  defines "s' \<equiv> s\<lparr>s_window := (s_window s)[k mod WINDOW_SIZE := resent now (slot s k)]\<rparr>"
  shows "sender_inv F s'" "acked s' = acked s" "window_slid s \<Longrightarrow> window_slid s'"
    "\<And>j. j \<in> in_flight s \<Longrightarrow> slot s' j = (if j = k then resent now (slot s k) else slot s j)"
proof -
  note bounds = sender_inv_bounds [OF inv]
  have kb: "unat (s_base s) \<le> k" "k < unat (s_base s) + WINDOW_SIZE"
    using k bounds(4) by (auto simp: in_flight_def)
  have slot': "slot s' j = (if j = k then resent now (slot s k) else slot s j)"
    if "unat (s_base s) \<le> j" "j < unat (s_base s) + WINDOW_SIZE" for j
    using sslot_update [OF bounds(5) that kb, of "resent now (slot s k)"] by (simp add: slot_def s'_def)
  have flight: "in_flight s' = in_flight s" by (simp add: in_flight_def s'_def)
  show in_slot: "\<And>j. j \<in> in_flight s \<Longrightarrow> slot s' j = (if j = k then resent now (slot s k) else slot s j)"
    using slot' bounds(4) by (simp add: in_flight_def)
  have state: "sw_state (resent now e) = sw_state e" for e by (simp add: resent_def)
  have "{j \<in> in_flight s. sw_state (slot s' j) = PKT_ACKED} = {j \<in> in_flight s. sw_state (slot s j) = PKT_ACKED}"
    using in_slot by (auto simp: state split: if_splits)
  moreover have "s_base s' = s_base s" by (simp add: s'_def)
  ultimately show acked: "acked s' = acked s" unfolding acked_def flight by simp
  show "window_slid s \<Longrightarrow> window_slid s'"
    using slot' [of "unat (s_base s)"] by (auto simp: window_slid_def s'_def resent_def)
  have "\<forall>j \<in> in_flight s'. holds_chunk F j (slot s' j)"
    using inv in_slot r unfolding flight by (auto simp: sender_inv_def holds_chunk_def resent_def)
  moreover have "\<forall>j \<in> {unat (s_next_seq s) ..< unat (s_base s) + WINDOW_SIZE}. sw_state (slot s' j) = PKT_EMPTY"
    using inv slot' k bounds(2) by (auto simp: sender_inv_def in_flight_def)
  moreover have "window_ok s'"
    using inv window_ok_state_update [of s "k mod WINDOW_SIZE" "resent now (slot s k)"]
      slot_data_length [of s k]
    by (simp add: sender_inv_def s'_def resent_def)
  ultimately show "sender_inv F s'"
    using inv acked by (simp add: sender_inv_def sender_static_def s'_def)
qed

lemma chunks_sent_counted:
  assumes "carries (env_order env) F k p"
  shows "chunks_sent F dest [k] env (snd (lossy_send (count_retransmitted (count_sent env)) p dest))"
  using chunks_sent_lossy [of "count_retransmitted (count_sent env)" F k p dest] assms
  by (simp add: chunks_sent_def lossless_def count_sent_def count_retransmitted_def)

lemma check_timeout_inv:
  assumes inv: "sender_inv F s" and k: "unat seq \<in> in_flight s"
  shows "\<exists>r env' s'. check_timeout now seq env s = Inr (r, env', s') \<and> retimed F env s env' s' \<and>
    chunks_sent F (s_peer_addr s) (if unat seq \<in> due now s \<and> sw_retries (slot s (unat seq)) < MAX_RETRIES
      then [unat seq] else []) env env' \<and>
    (if unat seq \<in> due now s
     then if sw_retries (slot s (unat seq)) \<ge> MAX_RETRIES then r = -1 \<and> s' = s
          else r = 1 \<and> slot s' (unat seq) = resent now (slot s (unat seq))
     else r = 0 \<and> s' = s) \<and>
    (\<forall>j \<in> in_flight s. j \<noteq> unat seq \<longrightarrow> slot s' j = slot s j)"
proof -
  let ?k = "unat seq" and ?e = "slot s (unat seq)"
  have holds: "holds_chunk F ?k ?e" using inv k by (simp add: sender_inv_def)
  have seq: "sw_seq_num ?e = seq" using holds by (simp add: holds_chunk_def word_unat_eq_iff)
  consider "?k \<notin> due now s" | "?k \<in> due now s" "sw_retries ?e \<ge> MAX_RETRIES"
    | "?k \<in> due now s" "sw_retries ?e < MAX_RETRIES" by linarith
  then show ?thesis
  proof cases
    case 1
    then have "check_timeout now seq env s = Inr (0, env, s)"
      using k seq by (auto simp: check_timeout_def Let_def due_def slot_def)
    then show ?thesis using 1 inv retimed_refl by auto
  next
    case 2
    then have "check_timeout now seq env s = Inr (-1, env, s)"
      using k seq by (auto simp: check_timeout_def Let_def due_def slot_def)
    then show ?thesis using 2 inv retimed_refl by auto
  next
    case 3
    obtain p where p: "build_data_packet (env_order env) (sw_seq_num ?e) (sw_data ?e) (sw_data_len ?e) = Inr p"
      "carries (env_order env) F ?k p"
      by (rule build_chunk_packet [of "sw_seq_num ?e" ?k "sw_data_len ?e" F "sw_data ?e"])
        (use holds in \<open>auto simp: holds_chunk_def\<close>)
    define env' where "env' = (if s_lossy_link s
        then snd (lossy_send (count_retransmitted (count_sent env)) p (s_peer_addr s))
        else snd (sendto env p (s_peer_addr s)))"
    define s' where "s' = s\<lparr>s_window := (s_window s)[?k mod WINDOW_SIZE := resent now ?e]\<rparr>"
    have res: "check_timeout now seq env s = Inr (1, env', s')"
      using 3 k seq p(1)
      by (auto simp: check_timeout_def Let_def due_def slot_def env'_def s'_def resent_def)
    have "?k < chunk_count (length F)"
      using inv k by (auto simp: in_flight_def sender_inv_def sender_static_def)
    then have d: "data_datagram env F s (s_peer_addr s, p)" using p(2) by auto
    have "sends (data_datagram env F s) env env'"
      using sends_count_lossy(2) [of "data_datagram env F s", OF d]
        sends_sendto [of "data_datagram env F s", OF d]
      by (simp add: env'_def)
    then have "retimed F env s env' s'"
      using retime_slot_inv [OF inv k 3(2), where now = now] by (simp add: retimed_def s'_def)
    moreover have "chunks_sent F (s_peer_addr s) [?k] env env'"
      using chunks_sent_counted [of env F ?k p] chunks_sent_sendto [of env F ?k p] p(2) by (simp add: env'_def)
    ultimately show ?thesis using res 3 k retime_slot_inv(4) [OF inv k 3(2), where now = now] by (auto simp: s'_def)
  qed
qed

text \<open>
  The scan fails exactly when some packet that is due has used up its retries; otherwise
  it resends exactly the packets that are due and leaves every other entry alone.
\<close>

definition scan_result :: "u64 \<Rightarrow> nat \<Rightarrow> sr_sender_t \<Rightarrow> int \<Rightarrow> sr_sender_t \<Rightarrow> bool" where
  "scan_result now from s r s' \<longleftrightarrow>
     (let D = due now s \<inter> {from ..}
      in if \<exists>k \<in> D. sw_retries (slot s k) \<ge> MAX_RETRIES then r = -1
         else r = int (card D) \<and>
           (\<forall>k \<in> in_flight s. slot s' k = (if k \<in> D then resent now (slot s k) else slot s k)))"

lemma due_finite [simp]: "finite (due now s)"
  by (simp add: due_def in_flight_def)

lemma due_step:
  assumes "retimed F env s env' s'" "\<forall>j \<in> in_flight s. j \<noteq> k \<longrightarrow> slot s' j = slot s j"
  shows "due now s' \<inter> {Suc k ..} = due now s \<inter> {k ..} - {k}"
  using assms by (auto simp: due_def retimed_def in_flight_def Suc_le_eq)

lemma scan_result_step:
  assumes step: "retimed F env s env1 s1" and others: "\<forall>j \<in> in_flight s. j \<noteq> k \<longrightarrow> slot s1 j = slot s j"
    and k: "k \<in> in_flight s" and rest: "scan_result now (Suc k) s1 r2 s2"
    and r1: "if k \<in> due now s
        then if sw_retries (slot s k) \<ge> MAX_RETRIES then r1 = -1 \<and> s1 = s
             else r1 = 1 \<and> slot s1 k = resent now (slot s k)
        else r1 = 0 \<and> s1 = s" and pos: "\<not> r1 < 0"
  shows "scan_result now k s (if r2 < 0 then r2 else r1 + r2) s2"
proof -
  define D where "D = due now s \<inter> {k ..} - {k}"
  have D1: "due now s1 \<inter> {Suc k ..} = D" unfolding D_def by (rule due_step [OF step others])
  have Dk: "k \<notin> D" "D \<subseteq> in_flight s" "finite D" by (auto simp: D_def) (auto simp: due_def)
  have flight: "in_flight s1 = in_flight s" using step by (simp add: retimed_def in_flight_def)
  have exh: "(\<exists>j \<in> D. sw_retries (slot s1 j) \<ge> MAX_RETRIES) \<longleftrightarrow> (\<exists>j \<in> D. sw_retries (slot s j) \<ge> MAX_RETRIES)"
    using others Dk by (metis subsetD)
  show ?thesis
  proof (cases "k \<in> due now s")
    case True
    then have D0: "due now s \<inter> {k ..} = insert k D" by (auto simp: D_def)
    have kk: "r1 = 1" "slot s1 k = resent now (slot s k)" "sw_retries (slot s k) < MAX_RETRIES"
      using r1 True pos by (auto split: if_splits)
    show ?thesis
    proof (cases "\<exists>j \<in> D. sw_retries (slot s j) \<ge> MAX_RETRIES")
      case True
      then show ?thesis using rest exh by (auto simp: scan_result_def Let_def D0 D1)
    next
      case False
      then show ?thesis using rest exh kk Dk others
        by (auto simp: scan_result_def Let_def D0 D1 flight)
    qed
  next
    case False
    then have "due now s \<inter> {k ..} = D" "s1 = s" "r1 = 0" using r1 by (auto simp: D_def)
    then show ?thesis using rest D1 by (auto simp: scan_result_def Let_def)
  qed
qed

text \<open>
  The chunks that the scan resends, in order: those that are due, up to the first one that has no
  retry left.
\<close>

definition resend_list :: "u64 \<Rightarrow> nat \<Rightarrow> sr_sender_t \<Rightarrow> nat list" where
  "resend_list now from s =
     takeWhile (\<lambda>k. sw_retries (slot s k) < MAX_RETRIES)
       (filter (\<lambda>k. k \<in> due now s) [from ..< unat (s_next_seq s)])"

lemma resend_list_done: "unat (s_next_seq s) \<le> k \<Longrightarrow> resend_list now k s = []"
  by (simp add: resend_list_def)

lemma resend_list_step:
  assumes step: "retimed F env s env1 s1" and others: "\<forall>j \<in> in_flight s. j \<noteq> k \<longrightarrow> slot s1 j = slot s j"
    and k: "k \<in> in_flight s"
  shows "resend_list now k s =
    (if k \<in> due now s then if sw_retries (slot s k) < MAX_RETRIES then k # resend_list now (Suc k) s1 else []
     else resend_list now (Suc k) s1)"
proof -
  have next1: "s_next_seq s1 = s_next_seq s" using step by (simp add: retimed_def)
  have "j \<in> due now s1 \<longleftrightarrow> j \<in> due now s" if "Suc k \<le> j" for j
  proof -
    have "j \<in> due now s1 \<inter> {Suc k ..} \<longleftrightarrow> j \<in> due now s \<inter> {k ..} - {k}"
      unfolding due_step [OF step others] ..
    then show ?thesis using that by simp
  qed
  then have f: "filter (\<lambda>j. j \<in> due now s1) [Suc k ..< unat (s_next_seq s)] =
      filter (\<lambda>j. j \<in> due now s) [Suc k ..< unat (s_next_seq s)]"
    by (intro filter_cong) simp_all
  have "takeWhile (\<lambda>j. sw_retries (slot s1 j) < MAX_RETRIES) (filter (\<lambda>j. j \<in> due now s) [Suc k ..< unat (s_next_seq s)]) =
      takeWhile (\<lambda>j. sw_retries (slot s j) < MAX_RETRIES) (filter (\<lambda>j. j \<in> due now s) [Suc k ..< unat (s_next_seq s)])"
    by (rule takeWhile_cong) (use others in \<open>auto simp: due_def\<close>)
  moreover have "[k ..< unat (s_next_seq s)] = k # [Suc k ..< unat (s_next_seq s)]"
    using k by (simp add: in_flight_def upt_conv_Cons)
  ultimately show ?thesis by (simp add: resend_list_def next1 f)
qed

lemma check_timeouts_loop_inv:
  assumes "sender_inv F s" "unat (s_base s) \<le> unat seq" "unat seq \<le> unat (s_next_seq s)"
  shows "\<exists>r env' s'. check_timeouts_loop now seq r0 env s = Inr (if r < 0 then r else r0 + r, env', s') \<and>
    retimed F env s env' s' \<and> scan_result now (unat seq) s r s' \<and>
    chunks_sent F (s_peer_addr s) (resend_list now (unat seq) s) env env'"
  using assms
proof (induction now seq r0 env s rule: check_timeouts_loop.induct)
  case (1 now seq r0 env s)
  let ?k = "unat seq"
  show ?case
  proof (cases "seq < s_next_seq s")
    case True
    then have k: "?k \<in> in_flight s" using "1.prems" by (simp add: in_flight_def word_less_nat_alt)
    obtain r1 env1 s1 where step: "check_timeout now seq env s = Inr (r1, env1, s1)"
      "retimed F env s env1 s1"
      and sent1: "chunks_sent F (s_peer_addr s) (if ?k \<in> due now s \<and> sw_retries (slot s ?k) < MAX_RETRIES
        then [?k] else []) env env1"
      and r1: "if ?k \<in> due now s
        then if sw_retries (slot s ?k) \<ge> MAX_RETRIES then r1 = -1 \<and> s1 = s
             else r1 = 1 \<and> slot s1 ?k = resent now (slot s ?k)
        else r1 = 0 \<and> s1 = s"
      and others: "\<forall>j \<in> in_flight s. j \<noteq> ?k \<longrightarrow> slot s1 j = slot s j"
      using check_timeout_inv [OF "1.prems"(1) k] by blast
    show ?thesis
    proof (cases "r1 < 0")
      case neg: True
      then have "?k \<in> due now s" "sw_retries (slot s ?k) \<ge> MAX_RETRIES" using r1 by (auto split: if_splits)
      then have "scan_result now ?k s (-1) s1" "resend_list now ?k s = []"
        using resend_list_step [OF step(2) others k] by (auto simp: scan_result_def)
      then show ?thesis using True step neg sent1 \<open>sw_retries (slot s ?k) \<ge> MAX_RETRIES\<close>
        by (intro exI [of _ "-1"] exI [of _ env1] exI [of _ s1])
          (simp add: check_timeouts_loop.simps [of now seq r0 env s])
    next
      case pos: False
      have same: "s_base s1 = s_base s" "s_next_seq s1 = s_next_seq s" "sender_inv F s1"
        using step(2) by (simp_all add: retimed_def)
      have seq': "unat (seq + 1) = Suc ?k" using True by (simp add: unat_Suc_less)
      obtain r2 env2 s2 where rest:
        "check_timeouts_loop now (seq + 1) (r0 + r1) env1 s1 = Inr (if r2 < 0 then r2 else r0 + r1 + r2, env2, s2)"
        "retimed F env1 s1 env2 s2" "scan_result now (Suc ?k) s1 r2 s2"
        "chunks_sent F (s_peer_addr s1) (resend_list now (Suc ?k) s1) env1 env2"
        using "1.IH" [OF True step(1) refl refl pos] same "1.prems" seq' True
        by (auto simp: word_less_nat_alt Suc_le_eq)
      define r where "r = (if r2 < 0 then r2 else r1 + r2)"
      have "check_timeouts_loop now seq r0 env s = Inr (if r < 0 then r else r0 + r, env2, s2)"
        using True step(1) rest(1) pos by (auto simp: check_timeouts_loop.simps [of now seq r0 env s] r_def)
      moreover have "retimed F env s env2 s2" by (rule retimed_trans [OF step(2) rest(2)])
      moreover have "scan_result now ?k s r s2"
        unfolding r_def by (rule scan_result_step [OF step(2) others k rest(3) r1 pos])
      moreover have "chunks_sent F (s_peer_addr s) (resend_list now ?k s) env env2"
      proof -
        have sends: "sends (data_datagram env F s) env env1" and peer: "s_peer_addr s1 = s_peer_addr s"
          using step(2) by (simp_all add: retimed_def)
        have "resend_list now ?k s = (if ?k \<in> due now s \<and> sw_retries (slot s ?k) < MAX_RETRIES then [?k] else []) @
            resend_list now (Suc ?k) s1"
          using resend_list_step [OF step(2) others k, of now] r1 pos by auto
        then show ?thesis using chunks_sent_append [OF sent1 sends] rest(4) peer by simp
      qed
      ultimately show ?thesis by blast
    qed
  next
    case False
    then have "due now s \<inter> {?k ..} = {}"
      by (auto simp: due_def in_flight_def word_less_nat_alt)
    then have "scan_result now ?k s 0 s" by (simp add: scan_result_def)
    moreover have "resend_list now ?k s = []" using False by (intro resend_list_done) (simp add: word_less_nat_alt)
    ultimately show ?thesis using False "1.prems"(1) retimed_refl
      by (intro exI [of _ 0] exI [of _ env] exI [of _ s])
        (simp add: check_timeouts_loop.simps [of now seq r0 env s])
  qed
qed

lemma sr_sender_check_timeouts_inv:
  assumes "sender_inv F s"
  obtains r env' s' where "sr_sender_check_timeouts env s now = Inr (r, env', s')"
    "retimed F env s env' s'" "scan_result now 0 s r s'"
    "chunks_sent F (s_peer_addr s) (resend_list now (unat (s_base s)) s) env env'"
proof -
  obtain r env' s' where r: "check_timeouts_loop now (s_base s) 0 env s = Inr (if r < 0 then r else 0 + r, env', s')"
    "retimed F env s env' s'" "scan_result now (unat (s_base s)) s r s'"
    "chunks_sent F (s_peer_addr s) (resend_list now (unat (s_base s)) s) env env'"
    using check_timeouts_loop_inv [OF assms order_refl sender_inv_bounds(2) [OF assms], of now 0 env] by blast
  have "due now s \<inter> {unat (s_base s) ..} = due now s \<inter> {0 ..}" by (auto simp: due_def in_flight_def)
  then have "scan_result now 0 s r s'" using r(3) by (simp add: scan_result_def)
  then show thesis using that r by (simp add: sr_sender_check_timeouts_def)
qed

subsection \<open>Completion\<close>

lemma sender_complete_acked:
  assumes inv: "sender_inv F s" and "sr_sender_is_complete s"
  shows "acked s = {..< chunk_count (length F)}"
proof (rule card_subset_eq)
  note bounds = sender_inv_bounds [OF inv]
  have num: "unat (s_num_chunks s) = chunk_count (length F)"
    using inv by (simp add: sender_inv_def sender_static_def)
  show sub: "acked s \<subseteq> {..< chunk_count (length F)}"
    using acked_less [OF inv] bounds(3) num by auto
  have "chunk_count (length F) \<le> card (acked s)"
    using assms num by (simp add: sr_sender_is_complete_def sender_inv_def word_le_nat_alt)
  then show "card (acked s) = card {..< chunk_count (length F)}"
    using card_mono [OF _ sub] by simp
qed simp

section \<open>Properties of the sender\<close>

definition sample_sender :: sr_sender_t where
  "sample_sender = \<lparr>s_udp_fd = 4, s_peer_addr = sample_addr, s_base = 0, s_next_seq = 0,
     s_window = replicate WINDOW_SIZE empty_send_entry, s_file_data = sample_file, s_file_size = 2500,
     s_num_chunks = 3, s_chunks_acked = 0, s_lossy_link = True\<rparr>"

lemma sample_sender_init:
  "sr_sender_init (Some s0) 4 (Some sample_addr) (Some sample_file) 2500 True = (0, Some sample_sender)"
  by (simp add: sr_sender_init_def sample_sender_def)

lemma sample_sender_inv: "sender_inv sample_file sample_sender" "window_slid sample_sender"
proof -
  obtain s where "sr_sender_init (Some sample_sender) 4 (Some sample_addr) (Some sample_file)
      (of_nat (length sample_file)) True = (0, Some s)" "sender_inv sample_file s" "window_slid s"
    by (rule sr_sender_init_inv [of sample_file]) simp_all
  then show "sender_inv sample_file sample_sender" "window_slid sample_sender"
    using sample_sender_init [of sample_sender] by simp_all
qed

text \<open>The same sender after it sent its three chunks, the second one 800 ms later.\<close>

definition sample_entry :: "u32 \<Rightarrow> u16 \<Rightarrow> u64 \<Rightarrow> send_window_entry_t" where
  "sample_entry seq len time = \<lparr>sw_state = PKT_PENDING, sw_seq_num = seq,
     sw_data = replicate (unat len) 7 @ replicate (CHUNK_SIZE - unat len) 0,
     sw_data_len = len, sw_send_time_ms = time, sw_retries = 0\<rparr>"

definition sample_busy :: sr_sender_t where
  "sample_busy = sample_sender\<lparr>s_next_seq := 3,
     s_window := [sample_entry 0 1024 4000, sample_entry 1 1024 4800, sample_entry 2 452 4000]
       @ replicate 61 empty_send_entry\<rparr>"

lemma sample_slots:
  "slot sample_busy 0 = sample_entry 0 1024 4000" "slot sample_busy 1 = sample_entry 1 1024 4800"
  "slot sample_busy (Suc 0) = sample_entry 1 1024 4800" "slot sample_busy 2 = sample_entry 2 452 4000"
  by (simp_all add: slot_def sample_busy_def)

lemma sample_busy_inv:
  "sender_inv sample_file sample_busy" "window_slid sample_busy"
  "in_flight sample_busy = {0, 1, 2}" "acked sample_busy = {}"
proof -
  show flight: "in_flight sample_busy = {0, 1, 2}"
    by (auto simp: in_flight_def sample_busy_def sample_sender_def)
  show acked: "acked sample_busy = {}"
  proof -
    have "sw_state (slot sample_busy k) \<noteq> PKT_ACKED" if "k \<in> {0, 1, 2}" for k
      using that by (auto simp: sample_slots sample_entry_def)
    then have no_ack: "{k \<in> {0, 1, 2}. sw_state (slot sample_busy k) = PKT_ACKED} = {}" by blast
    show ?thesis unfolding acked_def flight no_ack
      by (simp add: sample_busy_def sample_sender_def)
  qed
  show "window_slid sample_busy"
    by (simp add: window_slid_def sample_busy_def sample_sender_def slot_def sample_entry_def)
  have "\<forall>k \<in> in_flight sample_busy. holds_chunk sample_file k (slot sample_busy k)"
    unfolding flight by (simp add: sample_slots holds_chunk_def sample_entry_def chunk_def sample_file_def)
  moreover have "\<forall>k \<in> {3 ..< 64}. sw_state (slot sample_busy k) = PKT_EMPTY"
    by (auto simp: slot_def sample_busy_def nth_append nth_Cons' empty_send_entry_def)
  moreover have "window_ok sample_busy"
    by (auto simp: window_ok_def sample_busy_def sample_entry_def empty_send_entry_def)
  moreover have "sender_static sample_file sample_busy"
    using sample_sender_inv(1) by (simp add: sender_inv_def sender_static_def sample_busy_def)
  ultimately show "sender_inv sample_file sample_busy"
    using acked by (simp add: sender_inv_def) (simp add: sample_busy_def sample_sender_def)
qed

text \<open>
  C11. Filling the window. For a sender that satisfies the invariant,
  \<^verbatim>\<open>sr_sender_send_window\<close> makes no access outside an array, keeps the invariant, and
  stops exactly at the end of the window or of the file; it returns the number of packets
  it sent, every datagram goes to the peer and carries a chunk of the file, and without
  loss every chunk between the old and the new \<^verbatim>\<open>next_seq\<close> is on its way.
\<close>

theorem send_window_fills:
  assumes "sender_inv F s"
  shows "\<exists>n env' s'. sr_sender_send_window now env (Some s) = Inr (n, env', Some s') \<and>
    window_filled F env s n env' s'"
  by (rule sr_sender_send_window_inv [OF assms, of now env]) blast

theorem send_window_fills_witness:
  "\<exists>env' s'. sr_sender_send_window 1000 sample_env (Some sample_sender) = Inr (3, env', Some s') \<and>
    unat (s_next_seq s') = 3 \<and> chunk_logged env' sample_file 2"
proof -
  obtain n env' s' where r: "sr_sender_send_window 1000 sample_env (Some sample_sender) = Inr (n, env', Some s')"
    "window_filled sample_file sample_env sample_sender n env' s'"
    using send_window_fills [OF sample_sender_inv(1)] by blast
  have q: "s_base sample_sender = 0" "s_next_seq sample_sender = 0" "s_num_chunks sample_sender = 3"
    by (simp_all add: sample_sender_def)
  have k: "unat (s_next_seq s') = 3" using r(2) unfolding window_filled_def q by simp
  moreover have "n = 3" using r(2) unfolding window_filled_def q k by simp
  moreover have "chunk_logged env' sample_file 2" using r(2) unfolding window_filled_def q k by simp
  ultimately show ?thesis using r(1) by blast
qed

text \<open>
  C12. Acknowledgements. \<^verbatim>\<open>sr_sender_handle_ack\<close> adds to the set of acknowledged chunks
  exactly the chunk that the packet names, and only if the packet is an acknowledgement
  and the chunk is in flight; every other packet changes nothing in that set. The counter
  \<^verbatim>\<open>chunks_acked\<close> stays the size of the set (part of the invariant), and afterwards the
  packet at the base is not an acknowledged one: the window has slid as far as it can.
\<close>

theorem handle_ack_marks:
  assumes "sender_inv F s" "window_slid s"
  shows "\<exists>env' s'. sr_sender_handle_ack env s hdr = (0, env', s') \<and>
    ack_taken F s (if uh_msg_type hdr = UDP_ACK then {unat (uh_ack_num hdr)} \<inter> in_flight s else {}) s' \<and>
    window_slid s' \<and> env_sent env' = env_sent env"
proof -
  obtain env' s' where r: "sr_sender_handle_ack env s hdr = (0, env', s')"
    "ack_taken F s (if uh_msg_type hdr = UDP_ACK then {unat (uh_ack_num hdr)} \<inter> in_flight s else {}) s'"
    "window_slid s \<longrightarrow> window_slid s'" "sends (\<lambda>_. False) env env'"
    by (rule sr_sender_handle_ack_inv [OF assms(1), of env hdr "\<lambda>_. False"])
  then show ?thesis using assms(2) sends_nothing by blast
qed

theorem handle_ack_marks_witness:
  "\<exists>env' s'. sr_sender_handle_ack sample_env sample_busy (ack_header 1) = (0, env', s') \<and> acked s' = {1}"
proof -
  obtain env' s' where r: "sr_sender_handle_ack sample_env sample_busy (ack_header 1) = (0, env', s')"
    "ack_taken sample_file sample_busy
       (if uh_msg_type (ack_header 1) = UDP_ACK then {unat (uh_ack_num (ack_header 1))} \<inter> in_flight sample_busy else {}) s'"
    using handle_ack_marks [OF sample_busy_inv(1,2)] by blast
  have "acked s' = {1}" using r(2) sample_busy_inv(3,4) by (simp add: ack_taken_def ack_header_def)
  then show ?thesis using r(1) by blast
qed



text \<open>
  Initialisation. \<^verbatim>\<open>sr_sender_init\<close> refuses a NULL argument and leaves the sender
  as it was; otherwise, for a file of at most \<open>max_file\<close> bytes, it returns 0 with a sender
  that satisfies the invariant for that file, whatever the structure held before.
\<close>

lemma sender_init_establishes:
  assumes "length F \<le> max_file"
  shows "(\<exists>s. sr_sender_init (Some s0) fd (Some addr) (Some F) (of_nat (length F)) True = (0, Some s) \<and>
      sender_inv F s \<and> window_slid s \<and> in_flight s = {} \<and> s_peer_addr s = addr) \<and>
    sr_sender_init (Some s0) fd None (Some F) n l = (-1, Some s0) \<and>
    sr_sender_init (Some s0) fd (Some addr) None n l = (-1, Some s0) \<and>
    sr_sender_init (Some s0) fd (Some addr) (Some F) n False = (-1, Some s0)"
proof -
  obtain s where "sr_sender_init (Some s0) fd (Some addr) (Some F) (of_nat (length F)) True = (0, Some s)"
    "sender_inv F s" "window_slid s" "s_base s = 0" "s_next_seq s = 0" "s_chunks_acked s = 0" "s_peer_addr s = addr"
    by (rule sr_sender_init_inv [OF assms])
  moreover from this have "in_flight s = {}" by (simp add: in_flight_def)
  ultimately show ?thesis by (auto simp: sr_sender_init_def split: option.splits bool.splits)
qed

text \<open>
  C35. The chunk count wraps. A file of more than \<open>max_file\<close> bytes (at least
  \<^verbatim>\<open>2^32 - 1023\<close>) makes \<^verbatim>\<open>file_size + CHUNK_SIZE - 1\<close> wrap around: the sender starts with
  no chunk to send and reports the transfer complete before it has sent anything.
\<close>

theorem sender_num_chunks_wraps:
  assumes "max_file < unat file_size"
  shows "\<exists>s. sr_sender_init (Some s0) fd (Some addr) (Some F) file_size True = (0, Some s) \<and>
    s_num_chunks s = 0 \<and> sr_sender_is_complete s"
proof -
  have "file_size + CHUNK_SIZE - 1 = file_size + 1023" by simp
  then have "unat (file_size + CHUNK_SIZE - 1) = (unat file_size + 1023) mod 4294967296"
    by (simp only: unat_word_ariths) simp
  also have "\<dots> < 1024" using assms unat_u32_less [of file_size]
    by (simp add: max_file_def le_mod_geq)
  finally have "unat ((file_size + CHUNK_SIZE - 1) div CHUNK_SIZE) = 0"
    by (simp add: unat_div_distrib)
  then have "(file_size + CHUNK_SIZE - 1) div CHUNK_SIZE = 0" by (simp add: unat_eq_zero)
  then show ?thesis by (simp add: sr_sender_init_def sr_sender_is_complete_def)
qed

theorem sender_num_chunks_wraps_witness:
  "\<exists>s. sr_sender_init (Some sample_sender) 4 (Some sample_addr) (Some []) 4294967295 True = (0, Some s) \<and>
    s_num_chunks s = 0 \<and> sr_sender_is_complete s"
  by (rule sender_num_chunks_wraps) (simp add: max_file_def)

end
