(* ===== verification/SR_Receiver.thy ===== *)
theory SR_Receiver
  imports SR_Packets
begin

text \<open>
  The selective-repeat receiver (\<^verbatim>\<open>selective_repeat.c\<close>, second half): it checks a data
  packet, buffers it in its window, acknowledges it, and copies consecutive chunks into
  the file buffer. The buffer that \<^verbatim>\<open>malloc\<close> returns is a parameter of the
  initialisation (\<open>None\<close> for NULL), because its bytes are indeterminate; a copy outside
  it is a fault.
\<close>

section \<open>State\<close>

record recv_window_entry_t =
  rw_received :: bool
  rw_seq_num :: u32
  rw_data :: bytes
  rw_data_len :: u16

record sr_receiver_t =
  r_udp_fd :: int
  r_peer_addr :: sockaddr_in
  r_base :: u32
  r_window :: "recv_window_entry_t list"
  r_file_buffer :: "bytes option"
  r_file_size :: u32
  r_num_chunks :: u32
  r_chunks_received :: u32
  r_lossy_link :: bool

section \<open>Operations\<close>

definition empty_recv_entry :: recv_window_entry_t where
  "empty_recv_entry =
     \<lparr>rw_received = False, rw_seq_num = 0, rw_data = replicate CHUNK_SIZE 0, rw_data_len = 0\<rparr>"

definition sr_receiver_init ::
    "sr_receiver_t option \<Rightarrow> int \<Rightarrow> sockaddr_in option \<Rightarrow> u32 \<Rightarrow> u32 \<Rightarrow> bool \<Rightarrow> bytes option
     \<Rightarrow> int \<times> sr_receiver_t option" where
  "sr_receiver_init receiver udp_fd peer_addr file_size num_chunks lossy_link malloc_result =
     (case (receiver, peer_addr, lossy_link) of
        (Some _, Some addr, True) \<Rightarrow>
          (let r = \<lparr>r_udp_fd = udp_fd, r_peer_addr = addr, r_base = 0,
                    r_window = replicate WINDOW_SIZE empty_recv_entry,
                    r_file_buffer = malloc_result, r_file_size = file_size,
                    r_num_chunks = num_chunks, r_chunks_received = 0, r_lossy_link = lossy_link\<rparr>
           in (if malloc_result = None then -1 else 0, Some r))
      | _ \<Rightarrow> (-1, receiver))"

definition sr_receiver_send_ack :: "udp_env \<Rightarrow> sr_receiver_t \<Rightarrow> u32 \<Rightarrow> int \<times> udp_env" where
  "sr_receiver_send_ack env r seq_num =
     (let packet = build_ack_packet (env_order env) seq_num
      in (0, if r_lossy_link r then snd (lossy_send env packet (r_peer_addr r))
             else snd (sendto env packet (r_peer_addr r))))"

text \<open>One pass of the delivery loop, for a base entry that has been received.\<close>

definition deliver_chunk :: "sr_receiver_t \<Rightarrow> sr_receiver_t c_result" where
  "deliver_chunk r =
     (let base_idx = widx (r_base r);
          base_slot = r_window r ! base_idx;
          offset = r_base r * CHUNK_SIZE
      in case r_file_buffer r of
           None \<Rightarrow> Inl NullPointer
         | Some buffer \<Rightarrow>
             case read_at (rw_data base_slot) 0 (unat (rw_data_len base_slot)) of
               Inl f \<Rightarrow> Inl f
             | Inr data \<Rightarrow>
                 case memcpy_at buffer (unat offset) data of
                   Inl f \<Rightarrow> Inl f
                 | Inr buffer' \<Rightarrow>
                     Inr (r\<lparr>r_file_buffer := Some buffer',
                            r_window := (r_window r)[base_idx := base_slot\<lparr>rw_received := False\<rparr>],
                            r_base := r_base r + 1\<rparr>))"

lemma deliver_chunk_counters:
  "deliver_chunk r = Inr r' \<Longrightarrow> r_base r' = r_base r + 1 \<and> r_num_chunks r' = r_num_chunks r"
  by (auto simp: deliver_chunk_def Let_def split: option.splits sum.splits)

function deliver_loop :: "sr_receiver_t \<Rightarrow> sr_receiver_t c_result" where
  "deliver_loop r =
     (if r_base r < r_num_chunks r
      then
        if \<not> rw_received (r_window r ! widx (r_base r)) then Inr r
        else case deliver_chunk r of Inl f \<Rightarrow> Inl f | Inr r' \<Rightarrow> deliver_loop r'
      else Inr r)"
  by pat_completeness auto
termination
  by (relation "measure (\<lambda>r. unat (r_num_chunks r) - unat (r_base r))")
    (auto dest!: deliver_chunk_counters simp: unat_Suc_less word_less_nat_alt)

definition buffer_packet :: "sr_receiver_t \<Rightarrow> u32 \<Rightarrow> u16 \<Rightarrow> bytes \<Rightarrow> sr_receiver_t c_result" where
  "buffer_packet r seq_num data_len payload =
     (let index = widx seq_num; entry = r_window r ! index
      in if \<not> rw_received entry then
           case read_at payload 0 (unat data_len) of
             Inl f \<Rightarrow> Inl f
           | Inr data \<Rightarrow>
               case memcpy_at (rw_data entry) 0 data of
                 Inl f \<Rightarrow> Inl f
               | Inr stored \<Rightarrow>
                   Inr (r\<lparr>r_window := (r_window r)[index :=
                            \<lparr>rw_received = True, rw_seq_num = seq_num, rw_data = stored,
                             rw_data_len = data_len\<rparr>],
                          r_chunks_received := r_chunks_received r + 1\<rparr>)
         else Inr r)"

definition sr_receiver_handle_data ::
    "udp_env \<Rightarrow> sr_receiver_t \<Rightarrow> bytes \<Rightarrow> (int \<times> udp_env \<times> sr_receiver_t) c_result" where
  "sr_receiver_handle_data env r packet =
     (if length packet < 16 then Inr (0, env, r)
      else
        let hdr = dec_udp_header (env_order env) packet;
            computed_checksum = calculate_checksum (zero_checksum packet)
        in if uh_checksum hdr \<noteq> computed_checksum then Inr (0, env, r)
           else if uh_msg_type hdr \<noteq> UDP_DATA then Inr (0, env, r)
           else
             let seq_num = uh_seq_num hdr; data_len = uh_data_len hdr
             in if length packet < 16 + unat data_len then Inr (0, env, r)
                else if seq_num \<ge> r_num_chunks r then Inr (0, env, r)
                else if seq_num < r_base r
                  then Inr (0, snd (sr_receiver_send_ack env r seq_num), r)
                else if seq_num \<ge> r_base r + WINDOW_SIZE then Inr (0, env, r)
                else
                  case buffer_packet r seq_num data_len (drop 16 packet) of
                    Inl f \<Rightarrow> Inl f
                  | Inr r1 \<Rightarrow>
                      let env' = snd (sr_receiver_send_ack env r1 seq_num)
                      in case deliver_loop r1 of
                           Inl f \<Rightarrow> Inl f
                         | Inr r2 \<Rightarrow> Inr (0, env', r2))"

definition sr_receiver_is_complete :: "sr_receiver_t \<Rightarrow> bool" where
  "sr_receiver_is_complete r \<longleftrightarrow> r_base r \<ge> r_num_chunks r"

definition sr_receiver_get_file :: "sr_receiver_t \<Rightarrow> bytes option \<times> u32" where
  "sr_receiver_get_file r = (r_file_buffer r, r_file_size r)"

definition sr_receiver_cleanup :: "sr_receiver_t \<Rightarrow> sr_receiver_t" where
  "sr_receiver_cleanup r =
     (case r_file_buffer r of Some _ \<Rightarrow> r\<lparr>r_file_buffer := None\<rparr> | None \<Rightarrow> r)"

declare deliver_loop.simps [simp del]

section \<open>The invariant\<close>

definition rslot :: "sr_receiver_t \<Rightarrow> nat \<Rightarrow> recv_window_entry_t" where
  "rslot r k = r_window r ! (k mod WINDOW_SIZE)"

definition buffers_chunk :: "bytes \<Rightarrow> nat \<Rightarrow> recv_window_entry_t \<Rightarrow> bool" where
  "buffers_chunk F k e \<longleftrightarrow>
     k < chunk_count (length F) \<and> unat (rw_data_len e) = length (chunk F k) \<and>
     take (unat (rw_data_len e)) (rw_data e) = chunk F k"

definition recv_static :: "bytes \<Rightarrow> sr_receiver_t \<Rightarrow> bool" where
  "recv_static F r \<longleftrightarrow> unat (r_file_size r) = length F \<and> length F \<le> max_file \<and>
     unat (r_num_chunks r) = chunk_count (length F)"

definition rwindow_ok :: "sr_receiver_t \<Rightarrow> bool" where
  "rwindow_ok r \<longleftrightarrow> length (r_window r) = WINDOW_SIZE \<and>
     (\<forall>e \<in> set (r_window r). length (rw_data e) = CHUNK_SIZE)"

definition rwindow :: "sr_receiver_t \<Rightarrow> nat set" where
  "rwindow r = {unat (r_base r) ..< unat (r_base r) + WINDOW_SIZE}"

definition got :: "sr_receiver_t \<Rightarrow> nat set" where
  "got r = {..< unat (r_base r)} \<union> {k \<in> rwindow r. rw_received (rslot r k)}"

definition prefix_delivered :: "bytes \<Rightarrow> sr_receiver_t \<Rightarrow> bool" where
  "prefix_delivered F r \<longleftrightarrow>
     (\<exists>buf. r_file_buffer r = Some buf \<and> length buf = length F \<and>
       take (unat (r_base r) * CHUNK_SIZE) buf = take (unat (r_base r) * CHUNK_SIZE) F)"

definition recv_inv :: "bytes \<Rightarrow> sr_receiver_t \<Rightarrow> bool" where
  "recv_inv F r \<longleftrightarrow>
     recv_static F r \<and> rwindow_ok r \<and> unat (r_base r) \<le> unat (r_num_chunks r) \<and>
     prefix_delivered F r \<and>
     (\<forall>k \<in> rwindow r. rw_received (rslot r k) \<longrightarrow> buffers_chunk F k (rslot r k)) \<and>
     unat (r_chunks_received r) = card (got r)"

definition recv_slid :: "sr_receiver_t \<Rightarrow> bool" where
  "recv_slid r \<longleftrightarrow> r_base r < r_num_chunks r \<longrightarrow> \<not> rw_received (rslot r (unat (r_base r)))"

lemma recv_inv_bounds:
  assumes "recv_inv F r"
  shows "unat (r_base r + WINDOW_SIZE) = unat (r_base r) + WINDOW_SIZE"
    "unat (r_base r) \<le> unat (r_num_chunks r)" "unat (r_num_chunks r) = chunk_count (length F)"
    "unat (r_num_chunks r) < 2 ^ 22" "length (r_window r) = WINDOW_SIZE"
proof -
  show le: "unat (r_base r) \<le> unat (r_num_chunks r)"
    and num: "unat (r_num_chunks r) = chunk_count (length F)"
    and "length (r_window r) = WINDOW_SIZE"
    using assms by (simp_all add: recv_inv_def recv_static_def rwindow_ok_def)
  show small: "unat (r_num_chunks r) < 2 ^ 22"
    using assms chunk_count_max [of "length F"] by (simp add: recv_inv_def recv_static_def)
  show "unat (r_base r + WINDOW_SIZE) = unat (r_base r) + WINDOW_SIZE"
    by (rule base_plus_window [OF le small])
qed

lemma got_finite [simp]: "finite (got r)"
  by (simp add: got_def rwindow_def)

lemma got_less:
  assumes "recv_inv F r"
  shows "got r \<subseteq> {..< chunk_count (length F)}"
proof -
  have "unat (r_base r) \<le> chunk_count (length F)"
    using recv_inv_bounds(2) [OF assms] by (simp only: recv_inv_bounds(3) [OF assms])
  moreover have "k < chunk_count (length F)" if "k \<in> rwindow r" "rw_received (rslot r k)" for k
    using assms that by (simp add: recv_inv_def buffers_chunk_def)
  ultimately show ?thesis by (auto simp: got_def)
qed

lemma rwindow_ok_update:
  assumes "rwindow_ok r" "length (rw_data e) = CHUNK_SIZE"
  shows "rwindow_ok (r\<lparr>r_window := (r_window r)[i := e]\<rparr>)"
  using assms set_update_subset_insert [of "r_window r" i e] by (auto simp: rwindow_ok_def)

lemma rslot_data_length: "rwindow_ok r \<Longrightarrow> length (rw_data (rslot r k)) = CHUNK_SIZE"
  by (simp add: rwindow_ok_def rslot_def)

lemma rslot_update:
  assumes "length (r_window r) = WINDOW_SIZE" "j \<in> rwindow r" "k \<in> rwindow r"
  shows "(r_window r)[k mod WINDOW_SIZE := e] ! (j mod WINDOW_SIZE) = (if j = k then e else rslot r j)"
  using win.slot_update [of "r_window r" "unat (r_base r)" j k e] assms
  by (simp add: rslot_def rwindow_def)

subsection \<open>Initialisation\<close>

lemma sr_receiver_init_inv:
  assumes "length F \<le> max_file" "length buf = length F"
  obtains r where
    "sr_receiver_init (Some r0) fd (Some addr) (of_nat (length F)) (of_nat (chunk_count (length F))) True (Some buf)
       = (0, Some r)"
    "recv_inv F r" "recv_slid r" "got r = {}" "r_base r = 0" "r_peer_addr r = addr"
proof -
  define r where "r = \<lparr>r_udp_fd = fd, r_peer_addr = addr, r_base = 0,
    r_window = replicate WINDOW_SIZE empty_recv_entry, r_file_buffer = Some buf,
    r_file_size = of_nat (length F), r_num_chunks = of_nat (chunk_count (length F)),
    r_chunks_received = 0, r_lossy_link = True\<rparr>"
  have size: "unat (of_nat (length F) :: u32) = length F"
    using assms(1) by (simp add: max_file_def unat_of_nat)
  have "unat (of_nat (chunk_count (length F)) :: u32) = chunk_count (length F)"
    using chunk_count_max [OF assms(1)] by (simp add: unat_of_nat)
  then have "recv_static F r" using size assms(1) by (simp add: recv_static_def r_def)
  moreover have got: "got r = {}" by (simp add: got_def r_def rslot_def empty_recv_entry_def)
  ultimately have "recv_inv F r"
    using assms(2)
    by (simp add: recv_inv_def rwindow_ok_def prefix_delivered_def)
      (simp add: r_def rslot_def empty_recv_entry_def)
  moreover have "recv_slid r" by (simp add: recv_slid_def r_def rslot_def empty_recv_entry_def)
  moreover have "sr_receiver_init (Some r0) fd (Some addr) (of_nat (length F))
      (of_nat (chunk_count (length F))) True (Some buf) = (0, Some r)"
    by (simp add: sr_receiver_init_def r_def)
  ultimately show thesis using that got by (simp add: r_def)
qed

subsection \<open>Delivery\<close>

lemma prefix_extend:
  assumes buf: "length buf = length F" "take (k * CHUNK_SIZE) buf = take (k * CHUNK_SIZE) F"
    and k: "k < chunk_count (length F)"
  obtains buf' where "memcpy_at buf (k * CHUNK_SIZE) (chunk F k) = Inr buf'" "length buf' = length F"
    "take (Suc k * CHUNK_SIZE) buf' = take (Suc k * CHUNK_SIZE) F"
proof -
  have "k * CHUNK_SIZE < length F" using k by (simp add: chunk_count_less)
  then have "k * CHUNK_SIZE + length (chunk F k) \<le> length buf" using buf(1) by (simp add: length_chunk)
  then obtain buf' where copy: "memcpy_at buf (k * CHUNK_SIZE) (chunk F k) = Inr buf'"
    by (simp add: memcpy_at_def)
  have len: "length buf' = length F" using memcpy_at_length [OF copy] buf(1) by simp
  have pre: "take (k * CHUNK_SIZE + length (chunk F k)) buf' = take (k * CHUNK_SIZE + length (chunk F k)) F"
    using memcpy_at_extend [OF copy] buf(2) by (simp add: take_chunk)
  have "take (Suc k * CHUNK_SIZE) buf' = take (Suc k * CHUNK_SIZE) F"
  proof (cases "length (chunk F k) = CHUNK_SIZE")
    case True
    then show ?thesis using pre by (simp add: add.commute)
  next
    case False
    then have "k * CHUNK_SIZE + length (chunk F k) = length F" "length F \<le> Suc k * CHUNK_SIZE"
      using \<open>k * CHUNK_SIZE < length F\<close> by (auto simp: length_chunk min_def split: if_splits)
    then have "buf' = F" using pre len by simp
    then show ?thesis by simp
  qed
  then show thesis using that copy len by blast
qed

lemma deliver_chunk_inv:
  assumes inv: "recv_inv F r" and lt: "r_base r < r_num_chunks r"
    and rec: "rw_received (rslot r (unat (r_base r)))"
  obtains r' where "deliver_chunk r = Inr r'" "recv_inv F r'" "got r' = got r"
    "r_peer_addr r' = r_peer_addr r" "r_lossy_link r' = r_lossy_link r" "r_num_chunks r' = r_num_chunks r"
proof -
  let ?b = "unat (r_base r)" and ?e = "rslot r (unat (r_base r))"
  note bounds = recv_inv_bounds [OF inv]
  have bw: "?b \<in> rwindow r" by (simp add: rwindow_def)
  then have holds: "buffers_chunk F ?b ?e" using inv rec by (simp add: recv_inv_def)
  have ok: "rwindow_ok r" using inv by (simp add: recv_inv_def)
  obtain buf where buf: "r_file_buffer r = Some buf" "length buf = length F"
    "take (?b * CHUNK_SIZE) buf = take (?b * CHUNK_SIZE) F"
    using inv by (auto simp: recv_inv_def prefix_delivered_def)
  obtain buf' where buf': "memcpy_at buf (?b * CHUNK_SIZE) (chunk F ?b) = Inr buf'"
    "length buf' = length F" "take (Suc ?b * CHUNK_SIZE) buf' = take (Suc ?b * CHUNK_SIZE) F"
    using prefix_extend [OF buf(2,3)] holds unfolding buffers_chunk_def by blast
  have read: "read_at (rw_data ?e) 0 (unat (rw_data_len ?e)) = Inr (chunk F ?b)"
    using holds rslot_data_length [OF ok, of ?b] length_chunk_le [of F ?b]
    by (auto simp: read_at_def buffers_chunk_def)
  have "?b < 2 ^ 22" using bounds(2,4) by linarith
  then have off: "unat (r_base r * CHUNK_SIZE) = ?b * CHUNK_SIZE" by (simp add: unat_word_ariths)
  let ?e' = "?e\<lparr>rw_received := False\<rparr>"
  define r' where "r' = r\<lparr>r_file_buffer := Some buf',
    r_window := (r_window r)[?b mod WINDOW_SIZE := ?e'], r_base := r_base r + 1\<rparr>"
  have res: "deliver_chunk r = Inr r'"
    using buf(1) buf'(1) read off by (simp add: deliver_chunk_def Let_def rslot_def r'_def)
  have base': "unat (r_base r') = Suc ?b" using lt by (simp add: r'_def unat_Suc_less)
  have slot': "rslot r' j = (if j = ?b then ?e' else rslot r j)" if "j \<in> rwindow r" for j
    using rslot_update [OF bounds(5) that bw, of ?e'] by (simp add: rslot_def r'_def)
  have last: "rslot r' (?b + WINDOW_SIZE) = ?e'" using slot' [OF bw] by (simp add: rslot_def)
  have win': "rwindow r' = insert (?b + WINDOW_SIZE) (rwindow r - {?b})"
    using base' by (auto simp: rwindow_def)
  have got: "got r' = got r"
    using slot' last rec base' bw unfolding got_def win' by (auto simp: less_Suc_eq)
  have "\<forall>k \<in> rwindow r'. rw_received (rslot r' k) \<longrightarrow> buffers_chunk F k (rslot r' k)"
    using inv slot' last unfolding win' by (auto simp: recv_inv_def)
  moreover have "rwindow_ok r'"
    using rwindow_ok_update [OF ok, of ?e' "?b mod WINDOW_SIZE"] rslot_data_length [OF ok, of ?b]
    by (simp add: rwindow_ok_def r'_def)
  moreover have "prefix_delivered F r'"
    unfolding prefix_delivered_def base' using buf'(2,3) by (simp add: r'_def)
  moreover have "Suc ?b \<le> unat (r_num_chunks r)" using lt by (simp add: word_less_nat_alt)
  ultimately have "recv_inv F r'"
    using inv got base' by (simp add: recv_inv_def recv_static_def r'_def)
  then show thesis using that [OF res] got by (simp add: r'_def)
qed

definition delivered_on :: "bytes \<Rightarrow> sr_receiver_t \<Rightarrow> sr_receiver_t \<Rightarrow> bool" where
  "delivered_on F r r' \<longleftrightarrow> recv_inv F r' \<and> got r' = got r \<and> r_peer_addr r' = r_peer_addr r \<and>
     r_lossy_link r' = r_lossy_link r \<and> r_num_chunks r' = r_num_chunks r"

lemma deliver_loop_inv:
  assumes "recv_inv F r"
  shows "\<exists>r'. deliver_loop r = Inr r' \<and> delivered_on F r r' \<and> recv_slid r'"
  using assms
proof (induction r rule: deliver_loop.induct)
  case (1 r)
  show ?case
  proof (cases "r_base r < r_num_chunks r \<and> rw_received (rslot r (unat (r_base r)))")
    case True
    then have rec: "rw_received (r_window r ! widx (r_base r))" by (simp add: rslot_def)
    obtain r1 where step: "deliver_chunk r = Inr r1" "recv_inv F r1" "got r1 = got r"
      "r_peer_addr r1 = r_peer_addr r" "r_lossy_link r1 = r_lossy_link r" "r_num_chunks r1 = r_num_chunks r"
      by (rule deliver_chunk_inv [OF "1.prems" True [THEN conjunct1] True [THEN conjunct2]])
    obtain r' where rest: "deliver_loop r1 = Inr r'" "delivered_on F r1 r'" "recv_slid r'"
      using "1.IH" [OF _ _ step(1,2)] True rec by blast
    then show ?thesis using True rec step
      by (auto simp: deliver_loop.simps [of r] delivered_on_def)
  next
    case False
    then have "deliver_loop r = Inr r" by (auto simp: deliver_loop.simps [of r] rslot_def)
    then show ?thesis using False "1.prems" by (auto simp: delivered_on_def recv_slid_def)
  qed
qed

subsection \<open>Buffering a packet\<close>

lemma buffer_packet_inv:
  assumes inv: "recv_inv F r" and k: "unat seq_num \<in> rwindow r" "unat seq_num < chunk_count (length F)"
    and len: "unat data_len = length (chunk F (unat seq_num))" and payload: "payload = chunk F (unat seq_num)"
  obtains r' where "buffer_packet r seq_num data_len payload = Inr r'" "recv_inv F r'"
    "got r' = insert (unat seq_num) (got r)" "r_base r' = r_base r" "r_peer_addr r' = r_peer_addr r"
    "r_lossy_link r' = r_lossy_link r" "r_num_chunks r' = r_num_chunks r"
proof (cases "rw_received (rslot r (unat seq_num))")
  case True
  then have "buffer_packet r seq_num data_len payload = Inr r"
    by (simp add: buffer_packet_def Let_def rslot_def)
  moreover have "insert (unat seq_num) (got r) = got r" using True k(1) by (auto simp: got_def)
  ultimately show thesis using that inv by simp
next
  case False
  let ?k = "unat seq_num" and ?e = "rslot r (unat seq_num)"
  note bounds = recv_inv_bounds [OF inv]
  have ok: "rwindow_ok r" using inv by (simp add: recv_inv_def)
  obtain stored where st: "memcpy_at (rw_data ?e) 0 (chunk F ?k) = Inr stored"
    "length stored = CHUNK_SIZE" "take (length (chunk F ?k)) stored = chunk F ?k"
    using memcpy_at_0_ok [of "chunk F ?k" "rw_data ?e"] length_chunk_le rslot_data_length [OF ok]
    by metis
  define e where "e = \<lparr>rw_received = True, rw_seq_num = seq_num, rw_data = stored, rw_data_len = data_len\<rparr>"
  define r' where "r' = r\<lparr>r_window := (r_window r)[?k mod WINDOW_SIZE := e],
    r_chunks_received := r_chunks_received r + 1\<rparr>"
  have res: "buffer_packet r seq_num data_len payload = Inr r'"
    using False st(1) len payload
    by (simp add: buffer_packet_def Let_def rslot_def read_at_def r'_def e_def)
  have win': "rwindow r' = rwindow r" by (simp add: rwindow_def r'_def)
  have slot': "rslot r' j = (if j = ?k then e else rslot r j)" if "j \<in> rwindow r" for j
    using rslot_update [OF bounds(5) that k(1), of e] by (simp add: rslot_def r'_def)
  have base': "r_base r' = r_base r" by (simp add: r'_def)
  have got: "got r' = insert ?k (got r)"
    using slot' k(1) unfolding got_def win' base' by (auto simp: e_def)
  have new: "?k \<notin> got r" using False k(1) by (auto simp: got_def rwindow_def)
  have "card (got r) \<le> chunk_count (length F)"
    using card_mono [OF _ got_less [OF inv]] by simp
  then have "unat (r_chunks_received r') = card (got r')"
    using inv new got bounds(3,4) by (simp add: recv_inv_def r'_def unat_add_bounded)
  moreover have "buffers_chunk F ?k e"
    using k(2) len st(3) by (simp add: buffers_chunk_def e_def)
  then have "\<forall>j \<in> rwindow r'. rw_received (rslot r' j) \<longrightarrow> buffers_chunk F j (rslot r' j)"
    using inv slot' unfolding win' by (auto simp: recv_inv_def)
  moreover have "rwindow_ok r'"
    using rwindow_ok_update [OF ok, of e "?k mod WINDOW_SIZE"] st(2)
    by (simp add: rwindow_ok_def r'_def e_def)
  ultimately have "recv_inv F r'"
    using inv by (simp add: recv_inv_def recv_static_def prefix_delivered_def r'_def)
  then show thesis using that [OF res] got by (simp add: r'_def)
qed

subsection \<open>Handling a data packet\<close>

abbreviation ack_datagram :: "udp_env \<Rightarrow> sr_receiver_t \<Rightarrow> nat set \<Rightarrow> sockaddr_in \<times> bytes \<Rightarrow> bool" where
  "ack_datagram env r K d \<equiv> fst d = r_peer_addr r \<and>
     (\<exists>a. snd d = build_ack_packet (env_order env) a \<and> unat a \<in> K)"

lemma send_ack_sends:
  assumes "unat a \<in> K"
  shows "sends (ack_datagram env r K) env (snd (sr_receiver_send_ack env r a))"
proof -
  have d: "ack_datagram env r K (r_peer_addr r, build_ack_packet (env_order env) a)"
    using assms by auto
  show ?thesis
    using sends_lossy [of "ack_datagram env r K", OF d] sends_sendto [of "ack_datagram env r K", OF d]
    by (simp add: sr_receiver_send_ack_def Let_def)
qed

definition data_taken :: "bytes \<Rightarrow> udp_env \<Rightarrow> sr_receiver_t \<Rightarrow> nat set \<Rightarrow> udp_env \<Rightarrow> sr_receiver_t \<Rightarrow> bool" where
  "data_taken F env r new env' r' \<longleftrightarrow>
     recv_inv F r' \<and> recv_slid r' \<and> got r' = got r \<union> new \<and> r_peer_addr r' = r_peer_addr r \<and>
     r_lossy_link r' = r_lossy_link r \<and> r_num_chunks r' = r_num_chunks r \<and>
     sends (ack_datagram env r (got r')) env env'"

text \<open>Packets that the checks refuse change nothing and are not acknowledged.\<close>

lemma handle_data_refused:
  assumes "length p < 16 \<or> \<not> checksum_ok (env_order env) p \<or>
    uh_msg_type (dec_udp_header (env_order env) p) \<noteq> UDP_DATA"
  shows "sr_receiver_handle_data env r p = Inr (0, env, r)"
  using assms by (auto simp: sr_receiver_handle_data_def Let_def checksum_ok_def)

lemma handle_data_inv:
  assumes inv: "recv_inv F r" and slid: "recv_slid r"
    and p: "carries (env_order env) F k p" and k: "k < chunk_count (length F)"
  obtains env' r' where "sr_receiver_handle_data env r p = Inr (0, env', r')"
    "data_taken F env r (if k < unat (r_base r) + WINDOW_SIZE then {k} else {}) env' r'"
proof -
  let ?seq = "uh_seq_num (dec_udp_header (env_order env) p)"
  let ?len = "uh_data_len (dec_udp_header (env_order env) p)"
  note bounds = recv_inv_bounds [OF inv]
  have facts: "16 \<le> length p" "uh_checksum (dec_udp_header (env_order env) p) = calculate_checksum (zero_checksum p)"
    "uh_msg_type (dec_udp_header (env_order env) p) = UDP_DATA" "unat ?seq = k"
    "unat ?len = length (chunk F k)" "length p = 16 + unat ?len" "drop 16 p = chunk F k"
    using p by (simp_all add: carries_def checksum_ok_def)
  have num: "\<not> ?seq \<ge> r_num_chunks r" using facts(4) k bounds(3) by (simp add: word_le_nat_alt)
  consider "k < unat (r_base r)" | "k \<ge> unat (r_base r) + WINDOW_SIZE"
    | "unat (r_base r) \<le> k" "k < unat (r_base r) + WINDOW_SIZE" by linarith
  then show thesis
  proof cases
    case 1
    then have "?seq < r_base r" using facts(4) by (simp add: word_less_nat_alt)
    then have "sr_receiver_handle_data env r p = Inr (0, snd (sr_receiver_send_ack env r ?seq), r)"
      using facts num by (simp add: sr_receiver_handle_data_def Let_def)
    moreover have "k \<in> got r" using 1 by (simp add: got_def)
    ultimately show thesis
      using that 1 inv slid facts(4) send_ack_sends [where a = ?seq and K = "got r" and env = env and r = r]
      by (auto simp: data_taken_def)
  next
    case 2
    then have "\<not> ?seq < r_base r" "?seq \<ge> r_base r + WINDOW_SIZE"
      using facts(4) bounds(1) by (simp_all add: word_less_nat_alt word_le_nat_alt)
    then have "sr_receiver_handle_data env r p = Inr (0, env, r)"
      using facts num by (simp add: sr_receiver_handle_data_def Let_def)
    then show thesis using that 2 inv slid by (simp add: data_taken_def)
  next
    case 3
    then have range: "\<not> ?seq < r_base r" "\<not> ?seq \<ge> r_base r + WINDOW_SIZE"
      using facts(4) bounds(1) by (simp_all add: word_less_nat_alt word_le_nat_alt)
    have kw: "unat ?seq \<in> rwindow r" using 3 facts(4) by (simp add: rwindow_def)
    obtain r1 where r1: "buffer_packet r ?seq ?len (drop 16 p) = Inr r1" "recv_inv F r1"
      "got r1 = insert k (got r)" "r_peer_addr r1 = r_peer_addr r"
      "r_lossy_link r1 = r_lossy_link r" "r_num_chunks r1 = r_num_chunks r"
      using buffer_packet_inv [OF inv kw, of ?len "drop 16 p"] facts k by auto
    obtain r2 where r2: "deliver_loop r1 = Inr r2" "delivered_on F r1 r2" "recv_slid r2"
      using deliver_loop_inv [OF r1(2)] by blast
    have "sr_receiver_handle_data env r p = Inr (0, snd (sr_receiver_send_ack env r1 ?seq), r2)"
      using facts num range r1(1) r2(1) by (simp add: sr_receiver_handle_data_def Let_def)
    moreover have "sends (ack_datagram env r (got r2)) env (snd (sr_receiver_send_ack env r1 ?seq))"
      using send_ack_sends [where a = ?seq and K = "got r2" and env = env and r = r1] facts(4) r1 r2(2) by (auto simp: delivered_on_def)
    ultimately show thesis
      using that 3 r1 r2 by (simp add: data_taken_def delivered_on_def)
  qed
qed

text \<open>On a link without loss, a packet of the window or behind it is acknowledged.\<close>

lemma buffer_packet_frame:
  "buffer_packet r seq len payload = Inr r' \<Longrightarrow> r_peer_addr r' = r_peer_addr r \<and> r_lossy_link r' = r_lossy_link r"
  by (auto simp: buffer_packet_def Let_def split: sum.splits if_splits)

lemma send_ack_logged:
  "lossless env \<Longrightarrow> env_sent (snd (sr_receiver_send_ack env r a)) =
     env_sent env @ [(r_peer_addr r, build_ack_packet (env_order env) a)]"
  by (simp add: sr_receiver_send_ack_def Let_def lossless_def lossy_send_never_drops sendto_sent)

lemma handle_data_acks:
  assumes inv: "recv_inv F r" and p: "carries (env_order env) F k p" "k < chunk_count (length F)"
    and k: "k < unat (r_base r) + WINDOW_SIZE" and loss: "lossless env"
    and res: "sr_receiver_handle_data env r p = Inr (n, env', r')"
  shows "\<exists>a. unat a = k \<and> env_sent env' = env_sent env @ [(r_peer_addr r, build_ack_packet (env_order env) a)]"
proof -
  let ?seq = "uh_seq_num (dec_udp_header (env_order env) p)"
  note bounds = recv_inv_bounds [OF inv]
  have seq: "unat ?seq = k" using p(1) by (simp add: carries_def)
  have "\<not> ?seq \<ge> r_num_chunks r" "\<not> ?seq \<ge> r_base r + WINDOW_SIZE"
    using seq p(2) k bounds(1,3) by (simp_all add: word_le_nat_alt)
  then obtain r1 where "env' = snd (sr_receiver_send_ack env r1 ?seq)" "r_peer_addr r1 = r_peer_addr r"
    using res p(1) buffer_packet_frame
    by (auto simp: sr_receiver_handle_data_def Let_def carries_def checksum_ok_def split: if_splits sum.splits)
  then show ?thesis using seq send_ack_logged [OF loss] by metis
qed

subsection \<open>Completion\<close>

lemma receiver_complete_file:
  assumes inv: "recv_inv F r" and complete: "sr_receiver_is_complete r"
  shows "sr_receiver_get_file r = (Some F, of_nat (length F))"
proof -
  obtain buf where buf: "r_file_buffer r = Some buf" "length buf = length F"
    "take (unat (r_base r) * CHUNK_SIZE) buf = take (unat (r_base r) * CHUNK_SIZE) F"
    using inv by (auto simp: recv_inv_def prefix_delivered_def)
  have "chunk_count (length F) \<le> unat (r_base r)"
    using complete recv_inv_bounds(3) [OF inv] by (simp add: sr_receiver_is_complete_def word_le_nat_alt)
  then have "length F \<le> unat (r_base r) * CHUNK_SIZE"
    using chunk_count_less [of "unat (r_base r)" "length F"] by linarith
  then have "buf = F" using buf by simp
  moreover have "r_file_size r = of_nat (length F)"
    using inv by (auto simp: recv_inv_def recv_static_def word_unat_eq_iff unat_of_nat max_file_def)
  ultimately show ?thesis using buf(1) by (simp add: sr_receiver_get_file_def)
qed

lemma receiver_all_got_complete:
  assumes inv: "recv_inv F r" and slid: "recv_slid r" and all: "{..< chunk_count (length F)} \<subseteq> got r"
  shows "sr_receiver_is_complete r"
proof (rule ccontr)
  assume "\<not> sr_receiver_is_complete r"
  then have lt: "r_base r < r_num_chunks r" by (simp add: sr_receiver_is_complete_def)
  then have "unat (r_base r) \<in> got r"
    using all recv_inv_bounds(3) [OF inv] by (auto simp: word_less_nat_alt)
  then have "rw_received (rslot r (unat (r_base r)))" by (simp add: got_def)
  with slid lt show False by (simp add: recv_slid_def)
qed

section \<open>Properties of the receiver\<close>

definition sample_receiver :: sr_receiver_t where
  "sample_receiver = \<lparr>r_udp_fd = 5, r_peer_addr = sample_addr, r_base = 0,
     r_window = replicate WINDOW_SIZE empty_recv_entry, r_file_buffer = Some (replicate 2500 0),
     r_file_size = 2500, r_num_chunks = 3, r_chunks_received = 0, r_lossy_link = True\<rparr>"

lemma sample_receiver_init:
  "sr_receiver_init (Some r0) 5 (Some sample_addr) 2500 3 True (Some (replicate 2500 0)) = (0, Some sample_receiver)"
  by (simp add: sr_receiver_init_def sample_receiver_def)

lemma sample_receiver_inv:
  "recv_inv sample_file sample_receiver" "recv_slid sample_receiver" "got sample_receiver = {}"
proof -
  obtain r where "sr_receiver_init (Some sample_receiver) 5 (Some sample_addr) (of_nat (length sample_file))
      (of_nat (chunk_count (length sample_file))) True (Some (replicate 2500 0)) = (0, Some r)"
    "recv_inv sample_file r" "recv_slid r" "got r = {}"
    by (rule sr_receiver_init_inv [of sample_file "replicate 2500 0"]) (simp_all only: sample_file_facts length_replicate)
  then show "recv_inv sample_file sample_receiver" "recv_slid sample_receiver" "got sample_receiver = {}"
    using sample_receiver_init [of sample_receiver] by simp_all
qed

lemma sample_packet:
  obtains p where "build_data_packet Little 2 (drop 2048 sample_file) 452 = Inr p" "carries Little sample_file 2 p"
  by (rule build_chunk_packet [of 2 2 452 sample_file "drop 2048 sample_file" Little])
    (simp_all add: chunk_def sample_file_def)

text \<open>
  C14. Taking a chunk. For a receiver that satisfies the invariant, a packet that carries
  a chunk of the file is handled without an access outside an array. A chunk below the end
  of the window is added to the set of chunks the receiver has (again, if it is a
  duplicate) and acknowledged to its peer with exactly one datagram; one beyond it is dropped. The consecutive chunks at the base
  are in the file buffer afterwards, and every acknowledgement sent names a chunk that the
  receiver has.
\<close>

theorem receiver_takes_chunk:
  assumes "recv_inv F r" "recv_slid r" "carries (env_order env) F k p" "k < chunk_count (length F)"
  shows "\<exists>env' r'. sr_receiver_handle_data env r p = Inr (0, env', r') \<and>
    data_taken F env r (if k < unat (r_base r) + WINDOW_SIZE then {k} else {}) env' r' \<and>
    (k < unat (r_base r) + WINDOW_SIZE \<longrightarrow> lossless env \<longrightarrow>
       (\<exists>a. unat a = k \<and> env_sent env' = env_sent env @ [(r_peer_addr r, build_ack_packet (env_order env) a)]))"
proof -
  obtain env' r' where "sr_receiver_handle_data env r p = Inr (0, env', r')"
    "data_taken F env r (if k < unat (r_base r) + WINDOW_SIZE then {k} else {}) env' r'"
    by (rule handle_data_inv [OF assms])
  then show ?thesis using handle_data_acks [OF assms(1,3,4)] by blast
qed

theorem receiver_takes_chunk_witness:
  "\<exists>p env' r'. build_data_packet Little 2 (drop 2048 sample_file) 452 = Inr p \<and>
    sr_receiver_handle_data sample_env sample_receiver p = Inr (0, env', r') \<and> got r' = {2}"
proof -
  obtain p where p: "build_data_packet Little 2 (drop 2048 sample_file) 452 = Inr p" "carries Little sample_file 2 p"
    by (rule sample_packet)
  then obtain env' r' where r: "sr_receiver_handle_data sample_env sample_receiver p = Inr (0, env', r')"
    "data_taken sample_file sample_env sample_receiver
       (if 2 < unat (r_base sample_receiver) + WINDOW_SIZE then {2} else {}) env' r'"
    using receiver_takes_chunk [OF sample_receiver_inv(1,2), of sample_env 2 p] by auto
  have "got r' = {2}" using r(2) sample_receiver_inv(3) by (simp add: data_taken_def sample_receiver_def)
  then show ?thesis using p(1) r(1) by blast
qed

text \<open>
  C15. Damage of one byte. If a packet passes the checksum test, the same packet with any
  one byte changed, in the header, in the checksum field or in the payload, is refused: the
  receiver does not buffer it, does not acknowledge it and changes no state.
\<close>

theorem damaged_packet_refused:
  assumes "checksum_ok (env_order env) p" "16 \<le> length p" "length p \<le> 2 ^ 24" "i < length p" "b \<noteq> p ! i"
  shows "sr_receiver_handle_data env r (p[i := b]) = Inr (0, env, r)"
  using handle_data_refused [of "p[i := b]" env r] single_byte_corruption [OF assms] by blast

theorem damaged_packet_refused_witness:
  "sr_receiver_handle_data sample_env sample_receiver ((build_ack_packet Little 0)[0 := UDP_DATA])
    = Inr (0, sample_env, sample_receiver)"
  by (rule damaged_packet_refused)
    (simp_all add: build_ack_packet_ok, simp add: build_ack_packet_def ack_header_def enc_udp_header_def Let_def)

text \<open>
  C36. A length the receiver does not check. The payload length is compared with the
  datagram and not with the buffers: after \<^verbatim>\<open>sr_receiver_init\<close> with a file size below
  \<^verbatim>\<open>CHUNK_SIZE\<close>, a well-formed data packet for chunk 0 whose payload is longer than the file
  makes the copy into \<^verbatim>\<open>file_buffer\<close> run over its end.
\<close>

theorem receiver_overrun:
  assumes init: "sr_receiver_init (Some r0) fd (Some addr) file_size num_chunks True (Some buf) = (0, Some r)"
    and "length buf = unat file_size" "0 < num_chunks"
    and "unat file_size < unat len" "unat len \<le> CHUNK_SIZE" "length payload = unat len"
  shows "\<exists>p. build_data_packet (env_order env) 0 payload len = Inr p \<and>
    sr_receiver_handle_data env r p = Inl OutOfBounds"
proof -
  obtain p ck where p: "build_data_packet (env_order env) 0 payload len = Inr p"
    "checksum_ok (env_order env) p" "drop 16 p = payload" "length p = 16 + unat len"
    "dec_udp_header (env_order env) p = (data_header 0 len)\<lparr>uh_checksum := ck\<rparr>"
    by (rule build_data_packet_ok [of payload len "env_order env" 0 "[]"]) (use assms(5,6) in auto)
  have r: "r_base r = 0" "r_num_chunks r = num_chunks" "r_file_buffer r = Some buf"
    "r_window r = replicate WINDOW_SIZE empty_recv_entry"
    using init by (auto simp: sr_receiver_init_def)
  define e where "e = \<lparr>rw_received = True, rw_seq_num = 0,
    rw_data = payload @ drop (unat len) (replicate CHUNK_SIZE 0), rw_data_len = len\<rparr>"
  define r1 where "r1 = r\<lparr>r_window := (r_window r)[0 := e], r_chunks_received := r_chunks_received r + 1\<rparr>"
  have "buffer_packet r 0 len payload = Inr r1"
    using r assms(5,6)
    by (simp add: buffer_packet_def Let_def read_at_def memcpy_at_def empty_recv_entry_def r1_def e_def)
  moreover have "deliver_chunk r1 = Inl OutOfBounds"
    using r assms(2,4,5,6)
    by (simp add: deliver_chunk_def Let_def read_at_def memcpy_at_def r1_def e_def)
  then have "deliver_loop r1 = Inl OutOfBounds"
    using r assms(3) by (simp add: deliver_loop.simps [of r1]) (simp add: r1_def e_def)
  ultimately have "sr_receiver_handle_data env r p = Inl OutOfBounds"
    using p r assms(3) by (simp add: sr_receiver_handle_data_def Let_def checksum_ok_def data_header_def)
  with p(1) show ?thesis by blast
qed

theorem receiver_overrun_witness:
  "\<exists>r p. sr_receiver_init (Some sample_receiver) 5 (Some sample_addr) 1 1 True (Some [0]) = (0, Some r) \<and>
    build_data_packet Little 0 [1, 2] 2 = Inr p \<and> sr_receiver_handle_data sample_env r p = Inl OutOfBounds"
proof -
  define r where "r = snd (sr_receiver_init (Some sample_receiver) 5 (Some sample_addr) 1 1 True (Some [0]))"
  have "sr_receiver_init (Some sample_receiver) 5 (Some sample_addr) 1 1 True (Some [0]) = (0, Some (the r))"
    by (simp add: r_def sr_receiver_init_def)
  then show ?thesis
    using receiver_overrun [of sample_receiver 5 sample_addr 1 1 "[0]" "the r" 2 "[1, 2]" sample_env] by auto
qed

end
