(* ===== verification/SR_Transfer.thy ===== *)
theory SR_Transfer
  imports SR_Sender SR_Receiver
begin

text \<open>
  A whole transfer: one sender, one receiver and the network between them. The network
  may lose, delay, duplicate and reorder datagrams without bound: a datagram that was
  handed to \<^verbatim>\<open>sendto\<close> stays in the sender's log and may arrive at any later time, any
  number of times, until the network loses it. A data packet may also arrive damaged, as long as its
  checksum shows it. The owner checks neither the checksum nor the source of acknowledgements, so
  any header may arrive there too: damaged, left over from another transfer, or made up. The flag
  \<open>t_forged\<close> records that this has happened. The steps are the operations of the code, at
  arbitrary times; the owner makes them as long as \<open>t_active\<close> (its \<^verbatim>\<open>transfer_active\<close>) is
  set, and gives the transfer up when \<^verbatim>\<open>sr_sender_check_timeouts\<close> returns -1.
\<close>

section \<open>Steps\<close>

record transfer =
  t_senv :: udp_env
  t_sender :: sr_sender_t
  t_renv :: udp_env
  t_recv :: sr_receiver_t
  t_active :: bool
  t_forged :: bool

inductive transfer_step :: "transfer \<Rightarrow> transfer \<Rightarrow> bool" where
  send_window:
    "t_active t \<Longrightarrow>
     sr_sender_send_window now (t_senv t) (Some (t_sender t)) = Inr (n, env', Some s') \<Longrightarrow>
     transfer_step t (t\<lparr>t_senv := env', t_sender := s'\<rparr>)"
| check_timeouts:
    "t_active t \<Longrightarrow>
     sr_sender_check_timeouts (t_senv t) (t_sender t) now = Inr (n, env', s') \<Longrightarrow>
     transfer_step t (t\<lparr>t_senv := env', t_sender := s', t_active := (0 \<le> n)\<rparr>)"
| data_arrives:
    "d \<in> set (env_sent (t_senv t)) \<Longrightarrow>
     sr_receiver_handle_data (t_renv t) (t_recv t) (snd d) = Inr (n, env', r') \<Longrightarrow>
     transfer_step t (t\<lparr>t_renv := env', t_recv := r'\<rparr>)"
| damaged_data_arrives:
    "\<not> checksum_ok (env_order (t_renv t)) p \<Longrightarrow>
     sr_receiver_handle_data (t_renv t) (t_recv t) p = Inr (n, env', r') \<Longrightarrow>
     transfer_step t (t\<lparr>t_renv := env', t_recv := r'\<rparr>)"
| ack_arrives:
    "t_active t \<Longrightarrow> d \<in> set (env_sent (t_renv t)) \<Longrightarrow>
     sr_sender_handle_ack (t_senv t) (t_sender t) (dec_udp_header (env_order (t_senv t)) (snd d)) = (n, env', s') \<Longrightarrow>
     transfer_step t (t\<lparr>t_senv := env', t_sender := s'\<rparr>)"
| forged_ack_arrives:
    "t_active t \<Longrightarrow> sr_sender_handle_ack (t_senv t) (t_sender t) hdr = (n, env', s') \<Longrightarrow>
     transfer_step t (t\<lparr>t_senv := env', t_sender := s', t_forged := True\<rparr>)"
| network_loses:
    "set ds \<subseteq> set (env_sent (t_senv t)) \<Longrightarrow> set as \<subseteq> set (env_sent (t_renv t)) \<Longrightarrow>
     transfer_step t (t\<lparr>t_senv := (t_senv t)\<lparr>env_sent := ds\<rparr>, t_renv := (t_renv t)\<lparr>env_sent := as\<rparr>\<rparr>)"

text \<open>
  The start: the owner initialises the sender with the file and the requester initialises
  the receiver with the size and the chunk count of \<^verbatim>\<open>UDP_FILE_START\<close>; both hosts lay out
  the checksum in the same byte order, no datagram is under way and no foreign acknowledgement has come.
\<close>

definition init_transfer :: "bytes \<Rightarrow> transfer \<Rightarrow> bool" where
  "init_transfer F t \<longleftrightarrow>
     length F \<le> max_file \<and> env_order (t_renv t) = env_order (t_senv t) \<and> t_active t \<and> \<not> t_forged t \<and>
     env_sent (t_senv t) = [] \<and> env_sent (t_renv t) = [] \<and>
     (\<exists>s0 fd addr. sr_sender_init (Some s0) fd (Some addr) (Some F) (of_nat (length F)) True
        = (0, Some (t_sender t))) \<and>
     (\<exists>r0 fd addr buf. length buf = length F \<and>
        sr_receiver_init (Some r0) fd (Some addr) (of_nat (length F))
          (of_nat (chunk_count (length F))) True (Some buf) = (0, Some (t_recv t)))"

section \<open>The invariant\<close>

text \<open>What the two logs hold: data packets of the file, acknowledgements of chunks in \<open>K\<close>.\<close>

definition data_log :: "byte_order \<Rightarrow> bytes \<Rightarrow> (sockaddr_in \<times> bytes) set \<Rightarrow> bool" where
  "data_log ord F D \<longleftrightarrow> (\<forall>d \<in> D. \<exists>k < chunk_count (length F). carries ord F k (snd d))"

definition ack_log :: "byte_order \<Rightarrow> nat set \<Rightarrow> (sockaddr_in \<times> bytes) set \<Rightarrow> bool" where
  "ack_log ord K D \<longleftrightarrow> (\<forall>d \<in> D. \<exists>a. snd d = build_ack_packet ord a \<and> unat a \<in> K)"

lemma data_log_sends:
  assumes log: "data_log ord F (set (env_sent env))" and ord: "ord = env_order env"
    and sends: "sends (data_datagram env F s) env env'"
  shows "data_log ord F (set (env_sent env'))"
proof -
  obtain ds where ds: "env_sent env' = env_sent env @ ds" "\<forall>d \<in> set ds. data_datagram env F s d"
    using sends unfolding sends_def by blast
  from ds(2) have "data_log ord F (set ds)" unfolding data_log_def ord by blast
  with log show ?thesis unfolding ds(1) data_log_def set_append by blast
qed

lemma ack_log_sends:
  assumes log: "ack_log ord K (set (env_sent env))" and more: "K \<subseteq> K'" and ord: "ord = env_order env"
    and sends: "sends (ack_datagram env r K') env env'"
  shows "ack_log ord K' (set (env_sent env'))"
proof -
  obtain ds where ds: "env_sent env' = env_sent env @ ds" "\<forall>d \<in> set ds. ack_datagram env r K' d"
    using sends unfolding sends_def by blast
  from ds(2) have "ack_log ord K' (set ds)" unfolding ack_log_def ord by blast
  moreover have "ack_log ord K' (set (env_sent env))" using log more unfolding ack_log_def by blast
  ultimately show ?thesis unfolding ds(1) ack_log_def set_append by blast
qed

definition transfer_inv :: "bytes \<Rightarrow> transfer \<Rightarrow> bool" where
  "transfer_inv F t \<longleftrightarrow>
     env_order (t_renv t) = env_order (t_senv t) \<and>
     sender_inv F (t_sender t) \<and> window_slid (t_sender t) \<and>
     recv_inv F (t_recv t) \<and> recv_slid (t_recv t) \<and>
     data_log (env_order (t_senv t)) F (set (env_sent (t_senv t))) \<and>
     ack_log (env_order (t_senv t)) (got (t_recv t)) (set (env_sent (t_renv t))) \<and>
     (\<not> t_forged t \<longrightarrow> acked (t_sender t) \<subseteq> got (t_recv t))"

lemma init_transfer_inv:
  assumes init: "init_transfer F t"
  shows "transfer_inv F t" "acked (t_sender t) = {}" "got (t_recv t) = {}"
proof -
  have len: "length F \<le> max_file" using init by (simp add: init_transfer_def)
  obtain s0 fd addr where s: "sr_sender_init (Some s0) fd (Some addr) (Some F) (of_nat (length F)) True
      = (0, Some (t_sender t))"
    using init unfolding init_transfer_def by blast
  obtain r0 fd' addr' buf where r: "length buf = length F"
    "sr_receiver_init (Some r0) fd' (Some addr') (of_nat (length F))
       (of_nat (chunk_count (length F))) True (Some buf) = (0, Some (t_recv t))"
    using init unfolding init_transfer_def by blast
  obtain s' where s': "sr_sender_init (Some s0) fd (Some addr) (Some F) (of_nat (length F)) True = (0, Some s')"
    "sender_inv F s'" "window_slid s'" "s_base s' = 0" "s_next_seq s' = 0"
    by (rule sr_sender_init_inv [OF len])
  have st: "t_sender t = s'" using s s'(1) by simp
  show a: "acked (t_sender t) = {}" unfolding st using s'(4,5) by (simp add: acked_def in_flight_def)
  obtain r' where r': "sr_receiver_init (Some r0) fd' (Some addr') (of_nat (length F))
       (of_nat (chunk_count (length F))) True (Some buf) = (0, Some r')"
    "recv_inv F r'" "recv_slid r'" "got r' = {}"
    by (rule sr_receiver_init_inv [OF len r(1)])
  have rt: "t_recv t = r'" using r(2) r'(1) by simp
  show "got (t_recv t) = {}" unfolding rt by (rule r'(4))
  show "transfer_inv F t"
    using init s'(2,3,5) r'(2,3) a
    by (simp add: transfer_inv_def init_transfer_def data_log_def ack_log_def st rt)
qed

subsection \<open>Every operation keeps it\<close>

lemma send_window_keeps:
  assumes inv: "transfer_inv F t"
    and step: "sr_sender_send_window now (t_senv t) (Some (t_sender t)) = Inr (n, env', Some s')"
  shows "transfer_inv F (t\<lparr>t_senv := env', t_sender := s'\<rparr>)"
    "acked s' = acked (t_sender t)" "lossless env' = lossless (t_senv t)"
proof -
  have s: "sender_inv F (t_sender t)" using inv by (simp add: transfer_inv_def)
  obtain n1 env1 s1 where r: "sr_sender_send_window now (t_senv t) (Some (t_sender t)) = Inr (n1, env1, Some s1)"
    "window_filled F (t_senv t) (t_sender t) n1 env1 s1"
    by (rule sr_sender_send_window_inv [OF s])
  have filled: "window_filled F (t_senv t) (t_sender t) n env' s'" using r step by simp
  have sends: "sends (data_datagram (t_senv t) F (t_sender t)) (t_senv t) env'"
    and s': "sender_inv F s'" and a: "acked s' = acked (t_sender t)"
    using filled unfolding window_filled_def by blast+
  show "acked s' = acked (t_sender t)" by (rule a)
  show "lossless env' = lossless (t_senv t)" by (rule lossless_sends [OF sends])
  have "window_slid s'"
    using inv filled a window_slid_acked [OF s] window_slid_acked [OF s']
    by (simp add: transfer_inv_def window_filled_def)
  then show "transfer_inv F (t\<lparr>t_senv := env', t_sender := s'\<rparr>)"
    using inv s' a data_log_sends [OF _ refl sends] sends_order [OF sends]
    by (simp add: transfer_inv_def)
qed

lemma check_timeouts_keeps:
  assumes inv: "transfer_inv F t"
    and step: "sr_sender_check_timeouts (t_senv t) (t_sender t) now = Inr (n, env', s')"
  shows "transfer_inv F (t\<lparr>t_senv := env', t_sender := s', t_active := x\<rparr>)"
    "acked s' = acked (t_sender t)" "lossless env' = lossless (t_senv t)"
proof -
  have s: "sender_inv F (t_sender t)" using inv by (simp add: transfer_inv_def)
  obtain n1 env1 s1 where r: "sr_sender_check_timeouts (t_senv t) (t_sender t) now = Inr (n1, env1, s1)"
    "retimed F (t_senv t) (t_sender t) env1 s1"
    by (rule sr_sender_check_timeouts_inv [OF s])
  have retimed: "retimed F (t_senv t) (t_sender t) env' s'" using r step by simp
  have sends: "sends (data_datagram (t_senv t) F (t_sender t)) (t_senv t) env'"
    and s': "sender_inv F s'" "window_slid (t_sender t) \<longrightarrow> window_slid s'" and a: "acked s' = acked (t_sender t)"
    using retimed unfolding retimed_def by blast+
  show "acked s' = acked (t_sender t)" by (rule a)
  show "lossless env' = lossless (t_senv t)" by (rule lossless_sends [OF sends])
  show "transfer_inv F (t\<lparr>t_senv := env', t_sender := s', t_active := x\<rparr>)"
    using inv s' a data_log_sends [OF _ refl sends] sends_order [OF sends]
    by (simp add: transfer_inv_def)
qed

lemma data_arrives_keeps:
  assumes inv: "transfer_inv F t" and d: "d \<in> set (env_sent (t_senv t))"
  obtains env' r' k where "sr_receiver_handle_data (t_renv t) (t_recv t) (snd d) = Inr (0, env', r')"
    "transfer_inv F (t\<lparr>t_renv := env', t_recv := r'\<rparr>)" "k < chunk_count (length F)"
    "got r' = got (t_recv t) \<or> got r' = insert k (got (t_recv t))" "lossless env' = lossless (t_renv t)"
proof -
  have order: "env_order (t_renv t) = env_order (t_senv t)" using inv by (simp add: transfer_inv_def)
  obtain k where k: "k < chunk_count (length F)" "carries (env_order (t_renv t)) F k (snd d)"
    using inv d unfolding transfer_inv_def data_log_def by metis
  have r: "recv_inv F (t_recv t)" "recv_slid (t_recv t)" using inv by (simp_all add: transfer_inv_def)
  obtain env' r' where res: "sr_receiver_handle_data (t_renv t) (t_recv t) (snd d) = Inr (0, env', r')"
    and taken: "data_taken F (t_renv t) (t_recv t)
      (if k < unat (r_base (t_recv t)) + WINDOW_SIZE then {k} else {}) env' r'"
    by (rule handle_data_inv [OF r k(2,1)])
  have sends: "sends (ack_datagram (t_renv t) (t_recv t) (got r')) (t_renv t) env'"
    and r': "recv_inv F r'" "recv_slid r'"
    and g: "got r' = got (t_recv t) \<union> (if k < unat (r_base (t_recv t)) + WINDOW_SIZE then {k} else {})"
    using taken unfolding data_taken_def by blast+
  have more: "got (t_recv t) \<subseteq> got r'" using g by simp
  have "ack_log (env_order (t_senv t)) (got r') (set (env_sent env'))"
    by (rule ack_log_sends [OF _ more order [symmetric] sends]) (use inv in \<open>simp add: transfer_inv_def\<close>)
  moreover have "\<not> t_forged t \<longrightarrow> acked (t_sender t) \<subseteq> got r'" using inv more by (auto simp: transfer_inv_def)
  ultimately have "transfer_inv F (t\<lparr>t_renv := env', t_recv := r'\<rparr>)"
    using inv r' sends_order [OF sends] by (simp add: transfer_inv_def)
  moreover have "got r' = got (t_recv t) \<or> got r' = insert k (got (t_recv t))"
    using g by (simp split: if_splits)
  ultimately show thesis using that [OF res _ k(1)] lossless_sends [OF sends] by blast
qed

text \<open>Any header at all: the sender's invariant stays, and at most one chunk is taken for acknowledged.\<close>

lemma any_ack_keeps:
  assumes inv: "transfer_inv F t" and res: "sr_sender_handle_ack (t_senv t) (t_sender t) hdr = (n, env', s')"
  shows "transfer_inv F (t\<lparr>t_senv := env', t_sender := s', t_forged := True\<rparr>)"
    "acked s' = acked (t_sender t) \<union>
       (if uh_msg_type hdr = UDP_ACK then {unat (uh_ack_num hdr)} \<inter> in_flight (t_sender t) else {})"
    "lossless env' = lossless (t_senv t)" "n = 0" "s_next_seq s' = s_next_seq (t_sender t)"
    "env_sent env' = env_sent (t_senv t)" "env_order env' = env_order (t_senv t)"
proof -
  have s: "sender_inv F (t_sender t)" using inv by (simp add: transfer_inv_def)
  obtain env1 s1 where r: "sr_sender_handle_ack (t_senv t) (t_sender t) hdr = (0, env1, s1)"
    "ack_taken F (t_sender t) (if uh_msg_type hdr = UDP_ACK
       then {unat (uh_ack_num hdr)} \<inter> in_flight (t_sender t) else {}) s1"
    "window_slid (t_sender t) \<longrightarrow> window_slid s1" "sends (\<lambda>_. False) (t_senv t) env1"
    by (rule sr_sender_handle_ack_inv [OF s])
  have eq: "env1 = env'" "s1 = s'" "n = 0" using r(1) res by simp_all
  show "n = 0" by (rule eq(3))
  note sends = r(4) [unfolded eq]
  show log: "env_sent env' = env_sent (t_senv t)" by (rule sends_nothing [OF sends])
  show ord: "env_order env' = env_order (t_senv t)" by (rule sends_order [OF sends])
  show "lossless env' = lossless (t_senv t)" by (rule lossless_sends [OF sends])
  show "s_next_seq s' = s_next_seq (t_sender t)" "acked s' = acked (t_sender t) \<union>
       (if uh_msg_type hdr = UDP_ACK then {unat (uh_ack_num hdr)} \<inter> in_flight (t_sender t) else {})"
    using r(2) eq by (simp_all add: ack_taken_def)
  show "transfer_inv F (t\<lparr>t_senv := env', t_sender := s', t_forged := True\<rparr>)"
    using inv r(2,3) eq log ord by (simp add: transfer_inv_def ack_taken_def)
qed

lemma ack_arrives_keeps:
  assumes inv: "transfer_inv F t" and d: "d \<in> set (env_sent (t_renv t))"
    and res: "sr_sender_handle_ack (t_senv t) (t_sender t) (dec_udp_header (env_order (t_senv t)) (snd d)) = (n, env', s')"
  shows "transfer_inv F (t\<lparr>t_senv := env', t_sender := s'\<rparr>)"
    "\<exists>k \<in> got (t_recv t). acked s' = acked (t_sender t) \<or> acked s' = insert k (acked (t_sender t))"
proof -
  obtain a where a: "snd d = build_ack_packet (env_order (t_senv t)) a" "unat a \<in> got (t_recv t)"
    using inv d unfolding transfer_inv_def ack_log_def by metis
  note keep = any_ack_keeps [OF inv res]
  have acked: "acked s' = acked (t_sender t) \<union> ({unat a} \<inter> in_flight (t_sender t))"
    using keep(2) unfolding a(1) by (simp add: build_ack_packet_ok)
  then show "\<exists>k \<in> got (t_recv t). acked s' = acked (t_sender t) \<or> acked s' = insert k (acked (t_sender t))"
    using a(2) by auto
  have "acked s' \<subseteq> got (t_recv t)" if "acked (t_sender t) \<subseteq> got (t_recv t)" using acked a(2) that by auto
  then show "transfer_inv F (t\<lparr>t_senv := env', t_sender := s'\<rparr>)"
    using inv keep(1) by (simp add: transfer_inv_def)
qed

lemma losing_keeps:
  assumes "transfer_inv F t" "set ds \<subseteq> set (env_sent (t_senv t))" "set as \<subseteq> set (env_sent (t_renv t))"
  shows "transfer_inv F (t\<lparr>t_senv := (t_senv t)\<lparr>env_sent := ds\<rparr>, t_renv := (t_renv t)\<lparr>env_sent := as\<rparr>\<rparr>)"
  using assms by (auto simp: transfer_inv_def data_log_def ack_log_def)

section \<open>Reachable transfers\<close>

lemma transfer_step_inv:
  assumes inv: "transfer_inv F t" and step: "transfer_step t t'"
  shows "transfer_inv F t'"
  using step
proof (cases rule: transfer_step.cases)
  case (send_window now n env' s')
  then show ?thesis using send_window_keeps(1) [OF inv] by simp
next
  case (check_timeouts now n env' s')
  then show ?thesis using check_timeouts_keeps(1) [OF inv] by simp
next
  case (data_arrives d n env' r')
  show ?thesis by (rule data_arrives_keeps [OF inv data_arrives(2)]) (use data_arrives(1,3) in simp)
next
  case (damaged_data_arrives p n env' r')
  then show ?thesis using inv by (cases t) (simp add: handle_data_refused)
next
  case (ack_arrives d n env' s')
  then show ?thesis using ack_arrives_keeps(1) [OF inv] by simp
next
  case (forged_ack_arrives hdr n env' s')
  then show ?thesis using any_ack_keeps(1) [OF inv] by simp
next
  case (network_loses ds as)
  then show ?thesis using losing_keeps [OF inv] by simp
qed

lemma transfer_step_lossless:
  assumes inv: "transfer_inv F t" and step: "transfer_step t t'"
  shows "lossless (t_senv t') = lossless (t_senv t) \<and> lossless (t_renv t') = lossless (t_renv t)"
  using step
proof (cases rule: transfer_step.cases)
  case (send_window now n env' s')
  then show ?thesis using send_window_keeps(3) [OF inv] by simp
next
  case (check_timeouts now n env' s')
  then show ?thesis using check_timeouts_keeps(3) [OF inv] by simp
next
  case (data_arrives d n env' r')
  show ?thesis by (rule data_arrives_keeps [OF inv data_arrives(2)]) (use data_arrives(1,3) in simp)
next
  case (damaged_data_arrives p n env' r')
  then show ?thesis by (auto simp: handle_data_refused)
qed (use any_ack_keeps(3) [OF inv] in \<open>simp_all add: lossless_def\<close>)

interpretation xfer: transition_invariant "init_transfer F" transfer_step "transfer_inv F" for F
  by unfold_locales (blast intro: init_transfer_inv(1) transfer_step_inv)+

lemma reachable_transfer_inv: "init_transfer F t0 \<Longrightarrow> transfer_step\<^sup>*\<^sup>* t0 t \<Longrightarrow> transfer_inv F t"
  by (rule xfer.reachable_inv)

section \<open>Specification\<close>

text \<open>
  What the transfer promises, without windows, packets or buffers: the chunks that the
  receiver has and the chunks that the sender takes to be there. A chunk may arrive, and
  a chunk that has arrived may be confirmed; a foreign acknowledgement may confirm anything,
  and it leaves its mark.
\<close>

record arq =
  arq_got :: "nat set"
  arq_acked :: "nat set"
  arq_forged :: bool

inductive arq_step :: "nat \<Rightarrow> arq \<Rightarrow> arq \<Rightarrow> bool" for N where
  stutter: "arq_step N a a"
| receive: "k < N \<Longrightarrow> arq_step N a (a\<lparr>arq_got := insert k (arq_got a)\<rparr>)"
| confirm: "k \<in> arq_got a \<Longrightarrow> arq_step N a (a\<lparr>arq_acked := insert k (arq_acked a)\<rparr>)"
| forge: "K \<subseteq> {..< N} \<Longrightarrow> arq_step N a (a\<lparr>arq_acked := arq_acked a \<union> K, arq_forged := True\<rparr>)"

definition arq_of :: "transfer \<Rightarrow> arq" where
  "arq_of t = \<lparr>arq_got = got (t_recv t), arq_acked = acked (t_sender t), arq_forged = t_forged t\<rparr>"

lemma in_flight_chunks:
  "sender_inv F s \<Longrightarrow> in_flight s \<subseteq> {..< chunk_count (length F)}"
  by (auto simp: in_flight_def sender_inv_def sender_static_def)

lemma arq_simulates:
  assumes inv: "transfer_inv F t" and step: "transfer_step t t'"
  shows "arq_step (chunk_count (length F)) (arq_of t) (arq_of t')"
  using step
proof (cases rule: transfer_step.cases)
  case (send_window now n env' s')
  then have "arq_of t' = arq_of t" using send_window_keeps(2) [OF inv] by (simp add: arq_of_def)
  then show ?thesis by (simp add: arq_step.stutter)
next
  case (check_timeouts now n env' s')
  then have "arq_of t' = arq_of t" using check_timeouts_keeps(2) [OF inv] by (simp add: arq_of_def)
  then show ?thesis by (simp add: arq_step.stutter)
next
  case (data_arrives d n env' r')
  obtain k where "k < chunk_count (length F)" "got r' = got (t_recv t) \<or> got r' = insert k (got (t_recv t))"
    by (rule data_arrives_keeps [OF inv data_arrives(2)]) (use data_arrives(3) in simp)
  then show ?thesis
    using data_arrives(1) arq_step.stutter arq_step.receive [of k _ "arq_of t"] by (auto simp: arq_of_def)
next
  case (damaged_data_arrives p n env' r')
  then have "arq_of t' = arq_of t" by (auto simp: handle_data_refused arq_of_def)
  then show ?thesis by (simp add: arq_step.stutter)
next
  case (ack_arrives d n env' s')
  obtain k where "k \<in> got (t_recv t)" "acked s' = acked (t_sender t) \<or> acked s' = insert k (acked (t_sender t))"
    using ack_arrives_keeps(2) [OF inv ack_arrives(3,4)] by blast
  then show ?thesis
    using ack_arrives(1) arq_step.stutter arq_step.confirm [of k "arq_of t"] by (auto simp: arq_of_def)
next
  case (forged_ack_arrives hdr n env' s')
  let ?K = "if uh_msg_type hdr = UDP_ACK then {unat (uh_ack_num hdr)} \<inter> in_flight (t_sender t) else {}"
  have "?K \<subseteq> {..< chunk_count (length F)}"
    using in_flight_chunks [of F "t_sender t"] inv by (auto simp: transfer_inv_def)
  then show ?thesis
    using arq_step.forge [of ?K _ "arq_of t"] any_ack_keeps(2) [OF inv forged_ack_arrives(3)] forged_ack_arrives(1)
    by (simp add: arq_of_def)
next
  case (network_loses ds as)
  then have "arq_of t' = arq_of t" by (simp add: arq_of_def)
  then show ?thesis by (simp add: arq_step.stutter)
qed

end
