(* ===== verification/SR_Progress.thy ===== *)
theory SR_Progress
  imports SR_Transfer
begin

text \<open>
  Progress of a transfer. Whatever the network has lost so far, as long as the owner has not given
  the transfer up and every packet that waits for its acknowledgement has a retry left, the
  operations of the code can still complete it: at some time all of these packets are due and
  are sent again; then fill the window, deliver the packet at the sender's base, deliver its
  acknowledgement, and so on. The links have loss rate zero; losing is the network's part.
\<close>

section \<open>Sending again\<close>

definition lossless_links :: "transfer \<Rightarrow> bool" where
  "lossless_links t \<longleftrightarrow> lossless (t_senv t) \<and> lossless (t_renv t)"

text \<open>The owner is still sending, and every acknowledgement that arrived was the receiver's.\<close>

definition in_progress :: "bytes \<Rightarrow> transfer \<Rightarrow> bool" where
  "in_progress F t \<longleftrightarrow> transfer_inv F t \<and> lossless_links t \<and> t_active t \<and> \<not> t_forged t"

definition retries_left :: "sr_sender_t \<Rightarrow> bool" where
  "retries_left s \<longleftrightarrow> (\<forall>e \<in> set (s_window s). sw_state e = PKT_PENDING \<longrightarrow> sw_retries e < MAX_RETRIES)"

lemma send_window_retries:
  assumes "sr_sender_send_window now env (Some s) = Inr (n, env', Some s')" "retries_left s"
  shows "retries_left s'"
proof -
  have loop: "send_window_loop now env s 0 = Inr (n, env', s')"
    using assms(1) by (auto simp: sr_sender_send_window_def split: sum.splits)
  have "retries_left s2" if left: "retries_left s1" and sent: "send_chunk now env1 s1 = Inr (env2, s2)" for env1 s1 env2 s2
  proof -
    obtain i e where "s_window s2 = (s_window s1)[i := e]" "sw_retries e = 0"
      using sent by (auto simp: send_chunk_def Let_def split: sum.splits)
    then show ?thesis
      using left set_update_subset_insert [of "s_window s1" i e] by (auto simp: retries_left_def)
  qed
  then show ?thesis by (rule send_window_loop_keeps [where P = retries_left, OF _ assms(2) loop])
qed

text \<open>Every chunk that was sent and is not acknowledged is under way.\<close>

definition under_way :: "bytes \<Rightarrow> transfer \<Rightarrow> bool" where
  "under_way F t \<longleftrightarrow> (\<forall>k < unat (s_next_seq (t_sender t)). k \<notin> acked (t_sender t) \<longrightarrow> chunk_logged (t_senv t) F k)"

text \<open>The window has 64 entries and each is early for 500 of the 2^64 times, so at some time all are late.\<close>

lemma all_late:
  fixes w :: "send_window_entry_t list"
  assumes "length w = WINDOW_SIZE"
  shows "\<exists>now :: u64. \<forall>e \<in> set w. TIMEOUT_MS \<le> now - sw_send_time_ms e"
proof -
  let ?early = "(\<lambda>(e, i :: nat). sw_send_time_ms e + of_nat i) ` (set w \<times> {..< 500})"
  have "card ?early \<le> card (set w \<times> {..< 500 :: nat})" by (rule card_image_le) simp
  also have "\<dots> \<le> 64 * 500" using card_length [of w] assms by (simp add: card_cartesian_product)
  also have "\<dots> < card (UNIV :: u64 set)" by (simp add: card_word)
  finally have "?early \<noteq> UNIV" by auto
  then obtain now where now: "now \<notin> ?early" by blast
  have "TIMEOUT_MS \<le> now - sw_send_time_ms e" if e: "e \<in> set w" for e
  proof (rule ccontr)
    assume "\<not> TIMEOUT_MS \<le> now - sw_send_time_ms e"
    then have "unat (now - sw_send_time_ms e) < 500" by (simp add: word_le_nat_alt)
    moreover have "now = sw_send_time_ms e + of_nat (unat (now - sw_send_time_ms e))" by simp
    ultimately have "now \<in> ?early" using e by (intro image_eqI [of _ _ "(e, unat (now - sw_send_time_ms e))"]) auto
    then show False using now by blast
  qed
  then show ?thesis by blast
qed

lemma pending_unacked:
  assumes "sender_inv F s" "k < unat (s_next_seq s)" "k \<notin> acked s"
  shows "k \<in> in_flight s" "sw_state (slot s k) = PKT_PENDING"
proof -
  have "unat (s_base s) \<le> k" using assms(3) by (auto simp: acked_def)
  then show f: "k \<in> in_flight s" using assms(2) by (simp add: in_flight_def)
  then have "sw_state (slot s k) \<noteq> PKT_EMPTY" "sw_state (slot s k) \<noteq> PKT_ACKED"
    using assms(1,3) by (auto simp: sender_inv_def holds_chunk_def acked_def)
  then show "sw_state (slot s k) = PKT_PENDING" by (cases "sw_state (slot s k)") simp_all
qed

lemma resend_all:
  assumes run: "in_progress F t" and left: "retries_left (t_sender t)"
  obtains t' where "transfer_step t t'" "in_progress F t'" "under_way F t'"
proof -
  let ?s = "t_sender t"
  have inv: "transfer_inv F t" and ll: "lossless (t_senv t)" and act: "t_active t"
    using run by (simp_all add: in_progress_def lossless_links_def)
  have s: "sender_inv F ?s" using inv by (simp add: transfer_inv_def)
  obtain now where now: "\<forall>e \<in> set (s_window ?s). TIMEOUT_MS \<le> now - sw_send_time_ms e"
    using all_late [of "s_window ?s"] s by (auto simp: sender_inv_def window_ok_def)
  have late: "TIMEOUT_MS \<le> now - sw_send_time_ms (slot ?s k)" for k
    using now s by (auto simp: slot_def sender_inv_def window_ok_def)
  obtain r env' s' where c: "sr_sender_check_timeouts (t_senv t) ?s now = Inr (r, env', s')" "retimed F (t_senv t) ?s env' s'"
    "scan_result now 0 ?s r s'" "chunks_sent F (s_peer_addr ?s) (resend_list now (unat (s_base ?s)) ?s) (t_senv t) env'"
    by (rule sr_sender_check_timeouts_inv [OF s])
  have due: "k \<in> due now ?s \<longleftrightarrow> k \<in> in_flight ?s \<and> sw_state (slot ?s k) = PKT_PENDING" for k
    using late by (simp add: due_def)
  have "slot ?s k \<in> set (s_window ?s)" for k using s by (auto simp: slot_def sender_inv_def window_ok_def)
  then have few: "\<forall>k \<in> due now ?s. sw_retries (slot ?s k) < MAX_RETRIES"
    using left due unfolding retries_left_def by blast
  then have r: "0 \<le> r" using c(3) unfolding scan_result_def Let_def by (auto split: if_splits)
  have ord: "env_order env' = env_order (t_senv t)" using c(2) sends_order by (auto simp: retimed_def)
  have "chunk_logged env' F k" if "k < unat (s_next_seq ?s)" "k \<notin> acked ?s" for k
  proof -
    note p = pending_unacked [OF s that]
    have "resend_list now (unat (s_base ?s)) ?s = filter (\<lambda>k. k \<in> due now ?s) [unat (s_base ?s) ..< unat (s_next_seq ?s)]"
      unfolding resend_list_def using few by (simp add: takeWhile_eq_all_conv)
    moreover have "k \<in> due now ?s" "unat (s_base ?s) \<le> k" using p due by (simp_all add: in_flight_def)
    ultimately have "k \<in> set (resend_list now (unat (s_base ?s)) ?s)" using that(1) by simp
    then show ?thesis by (rule chunks_sent_logged [OF c(4) ord ll])
  qed
  then have "under_way F (t\<lparr>t_senv := env', t_sender := s', t_active := True\<rparr>)"
    using c(2) by (simp add: under_way_def retimed_def)
  moreover have "transfer_step t (t\<lparr>t_senv := env', t_sender := s', t_active := True\<rparr>)"
    using transfer_step.check_timeouts [OF act c(1)] r by simp
  moreover have "in_progress F (t\<lparr>t_senv := env', t_sender := s', t_active := True\<rparr>)"
    using check_timeouts_keeps(1,3) [OF inv c(1)] run by (simp add: in_progress_def lossless_links_def)
  ultimately show thesis using that by blast
qed

section \<open>One window after the other\<close>

lemma send_window_lossless:
  assumes run: "in_progress F t" "under_way F t"
  obtains t' where "transfer_step t t'" "in_progress F t'" "under_way F t'"
    "t_recv t' = t_recv t" "acked (t_sender t') = acked (t_sender t)"
    "s_base (t_sender t') = s_base (t_sender t)"
    "unat (s_next_seq (t_sender t')) =
       min (unat (s_base (t_sender t)) + WINDOW_SIZE) (chunk_count (length F))"
proof -
  have inv: "transfer_inv F t" and act: "t_active t" and ll: "lossless (t_senv t)"
    using run(1) by (simp_all add: in_progress_def lossless_links_def)
  have s: "sender_inv F (t_sender t)" using inv by (simp add: transfer_inv_def)
  obtain n env' s' where r: "sr_sender_send_window 0 (t_senv t) (Some (t_sender t)) = Inr (n, env', Some s')"
    and filled: "window_filled F (t_senv t) (t_sender t) n env' s'"
    by (rule sr_sender_send_window_inv [OF s])
  let ?t = "t\<lparr>t_senv := env', t_sender := s'\<rparr>"
  have sends: "sends (data_datagram (t_senv t) F (t_sender t)) (t_senv t) env'"
    and fresh: "\<forall>k \<in> {unat (s_next_seq (t_sender t)) ..< unat (s_next_seq s')}. chunk_logged env' F k"
    using filled ll unfolding window_filled_def by blast+
  have "chunk_logged env' F k" if "k < unat (s_next_seq s')" "k \<notin> acked s'" for k
    using that run(2) fresh filled chunk_logged_sends [OF _ sends]
    by (cases "k < unat (s_next_seq (t_sender t))") (simp_all add: under_way_def window_filled_def)
  then have "under_way F ?t" by (simp add: under_way_def)
  moreover have "in_progress F ?t"
    using send_window_keeps [OF inv r] run(1) by (simp add: in_progress_def lossless_links_def)
  ultimately show thesis
    using that [OF transfer_step.send_window [OF act r]] filled s
    by (simp add: window_filled_def sender_inv_def sender_static_def)
qed

lemma deliver_lossless:
  assumes run: "in_progress F t" "under_way F t"
    and k: "k < chunk_count (length F)" "k < unat (s_next_seq (t_sender t))" "k \<notin> acked (t_sender t)"
      "k < unat (r_base (t_recv t)) + WINDOW_SIZE"
  obtains t' a where "transfer_step t t'" "in_progress F t'" "under_way F t'"
    "t_sender t' = t_sender t" "unat a = k"
    "(r_peer_addr (t_recv t), build_ack_packet (env_order (t_senv t')) a) \<in> set (env_sent (t_renv t'))"
proof -
  have inv: "transfer_inv F t" and ll: "lossless (t_renv t)"
    using run(1) by (simp_all add: in_progress_def lossless_links_def)
  have order: "env_order (t_renv t) = env_order (t_senv t)" and r: "recv_inv F (t_recv t)"
    using inv by (simp_all add: transfer_inv_def)
  obtain d where d: "d \<in> set (env_sent (t_senv t))" "carries (env_order (t_renv t)) F k (snd d)"
    using run(2) k(2,3) order unfolding under_way_def chunk_logged_def by metis
  obtain env' r' where res: "sr_receiver_handle_data (t_renv t) (t_recv t) (snd d) = Inr (0, env', r')"
    and inv': "transfer_inv F (t\<lparr>t_renv := env', t_recv := r'\<rparr>)" and ll': "lossless env' = lossless (t_renv t)"
    by (rule data_arrives_keeps [OF inv d(1)])
  obtain a where a: "unat a = k"
    "(r_peer_addr (t_recv t), build_ack_packet (env_order (t_renv t)) a) \<in> set (env_sent env')"
    using handle_data_acks [OF r d(2) k(1,4) ll res] by force
  have "in_progress F (t\<lparr>t_renv := env', t_recv := r'\<rparr>)"
    using run(1) inv' ll' by (simp add: in_progress_def lossless_links_def)
  moreover have "under_way F (t\<lparr>t_renv := env', t_recv := r'\<rparr>)" using run(2) by (simp add: under_way_def)
  ultimately show thesis
    using that [OF transfer_step.data_arrives [OF d(1) res] _ _ _ a(1)] a(2) order by simp
qed

lemma confirm_lossless:
  assumes run: "in_progress F t" "under_way F t"
    and d: "(addr, build_ack_packet (env_order (t_senv t)) a) \<in> set (env_sent (t_renv t))"
    and k: "unat a \<in> in_flight (t_sender t)"
  obtains t' where "transfer_step t t'" "in_progress F t'" "under_way F t'"
    "acked (t_sender t') = insert (unat a) (acked (t_sender t))"
proof -
  let ?d = "(addr, build_ack_packet (env_order (t_senv t)) a)"
  have inv: "transfer_inv F t" and act: "t_active t" using run(1) by (simp_all add: in_progress_def)
  obtain n env' s' where res: "sr_sender_handle_ack (t_senv t) (t_sender t)
      (dec_udp_header (env_order (t_senv t)) (snd ?d)) = (n, env', s')" by (metis prod_cases3)
  note keep = any_ack_keeps [OF inv res]
  let ?t = "t\<lparr>t_senv := env', t_sender := s'\<rparr>"
  have acked: "acked s' = insert (unat a) (acked (t_sender t))" using keep(2) k by (simp add: build_ack_packet_ok)
  then have "under_way F ?t" using run(2) keep(5-7) by (simp add: under_way_def chunk_logged_def)
  moreover have "in_progress F ?t"
    using ack_arrives_keeps(1) [OF inv d res] keep(3) run(1) by (simp add: in_progress_def lossless_links_def)
  ultimately show thesis using that [OF transfer_step.ack_arrives [OF act d res]] acked by simp
qed

section \<open>One more chunk, and all of them\<close>

lemma sender_behind_receiver:
  assumes inv: "transfer_inv F t" and true: "\<not> t_forged t"
  shows "unat (s_base (t_sender t)) \<le> unat (r_base (t_recv t))"
proof (rule ccontr)
  assume lt: "\<not> ?thesis"
  note r = inv [unfolded transfer_inv_def]
  have "unat (s_base (t_sender t)) \<le> chunk_count (length F)"
    using sender_inv_bounds(2,3) [of F "t_sender t"] r by (simp add: sender_inv_def sender_static_def)
  then have "r_base (t_recv t) < r_num_chunks (t_recv t)"
    using lt recv_inv_bounds(3) [of F "t_recv t"] r by (simp add: word_less_nat_alt)
  moreover have "unat (r_base (t_recv t)) \<in> got (t_recv t)"
    using r lt true by (auto simp: acked_def)
  ultimately show False using r by (simp add: recv_slid_def got_def)
qed

lemma incomplete_base:
  assumes inv: "transfer_inv F t" and inc: "\<not> sr_sender_is_complete (t_sender t)"
  shows "unat (s_base (t_sender t)) < chunk_count (length F)" "unat (s_base (t_sender t)) \<notin> acked (t_sender t)"
proof -
  let ?s = "t_sender t"
  have s: "sender_inv F ?s" and slid: "window_slid ?s" using inv by (simp_all add: transfer_inv_def)
  have num: "unat (s_num_chunks ?s) = chunk_count (length F)" using s by (simp add: sender_inv_def sender_static_def)
  have "unat (s_base ?s) \<le> card (acked ?s)"
    using card_mono [of "acked ?s" "{..< unat (s_base ?s)}"] by (simp add: acked_def in_flight_def)
  also have "\<dots> < chunk_count (length F)"
    using inc s num by (simp add: sr_sender_is_complete_def sender_inv_def word_le_nat_alt)
  finally show b: "unat (s_base ?s) < chunk_count (length F)" .
  then show "unat (s_base ?s) \<notin> acked ?s"
    using slid window_slid_acked [OF s] num by (simp add: word_less_nat_alt)
qed

lemma one_more_acked:
  assumes run: "in_progress F t" "under_way F t" and inc: "\<not> sr_sender_is_complete (t_sender t)"
  obtains t' where "transfer_step\<^sup>*\<^sup>* t t'" "in_progress F t'" "under_way F t'"
    "card (acked (t_sender t')) = Suc (card (acked (t_sender t)))"
proof -
  let ?b = "unat (s_base (t_sender t))"
  have inv: "transfer_inv F t" "\<not> t_forged t" using run(1) by (simp_all add: in_progress_def)
  obtain t1 where t1: "transfer_step t t1" "in_progress F t1" "under_way F t1"
    "t_recv t1 = t_recv t" "acked (t_sender t1) = acked (t_sender t)" "s_base (t_sender t1) = s_base (t_sender t)"
    "unat (s_next_seq (t_sender t1)) = min (?b + WINDOW_SIZE) (chunk_count (length F))"
    by (rule send_window_lossless [OF run])
  have b: "?b < chunk_count (length F)" "?b \<notin> acked (t_sender t)" by (rule incomplete_base [OF inv(1) inc])+
  have next1: "?b < unat (s_next_seq (t_sender t1))" using t1(7) b(1) by simp
  obtain t2 a where t2: "transfer_step t1 t2" "in_progress F t2" "under_way F t2"
    "t_sender t2 = t_sender t1" "unat a = ?b"
    "(r_peer_addr (t_recv t1), build_ack_packet (env_order (t_senv t2)) a) \<in> set (env_sent (t_renv t2))"
    by (rule deliver_lossless [OF t1(2,3) b(1) next1])
      (use sender_behind_receiver [OF inv] t1(4,5) b(2) in simp_all)
  have "unat a \<in> in_flight (t_sender t2)" using t2(4,5) t1(6) next1 by (simp add: in_flight_def)
  then obtain t3 where t3: "transfer_step t2 t3" "in_progress F t3" "under_way F t3"
    "acked (t_sender t3) = insert (unat a) (acked (t_sender t2))"
    by (rule confirm_lossless [OF t2(2,3,6)])
  have "transfer_step\<^sup>*\<^sup>* t t3"
    using converse_rtranclp_into_rtranclp [of transfer_step, OF t1(1)]
      converse_rtranclp_into_rtranclp [of transfer_step, OF t2(1)] r_into_rtranclp [of transfer_step, OF t3(1)]
    by blast
  moreover have "card (acked (t_sender t3)) = Suc (card (acked (t_sender t)))"
    using t3(4) t2(4,5) t1(5) b(2) by simp
  ultimately show thesis using that t3(2,3) by blast
qed

lemma completion_under_way:
  assumes "in_progress F t" "under_way F t"
  shows "\<exists>t'. transfer_step\<^sup>*\<^sup>* t t' \<and> in_progress F t' \<and> sr_sender_is_complete (t_sender t')"
  using assms
proof (induction "chunk_count (length F) - card (acked (t_sender t))" arbitrary: t rule: less_induct)
  case less
  show ?case
  proof (cases "sr_sender_is_complete (t_sender t)")
    case True
    then show ?thesis using less.prems by blast
  next
    case False
    obtain t1 where t1: "transfer_step\<^sup>*\<^sup>* t t1" "in_progress F t1" "under_way F t1"
      "card (acked (t_sender t1)) = Suc (card (acked (t_sender t)))"
      by (rule one_more_acked [OF less.prems False])
    have "sender_inv F (t_sender t)" using less.prems(1) by (simp add: in_progress_def transfer_inv_def)
    then have "card (acked (t_sender t)) < chunk_count (length F)"
      using False by (simp add: sr_sender_is_complete_def sender_inv_def sender_static_def word_le_nat_alt)
    then have "chunk_count (length F) - card (acked (t_sender t1)) < chunk_count (length F) - card (acked (t_sender t))"
      using t1(4) by linarith
    then obtain t2 where "transfer_step\<^sup>*\<^sup>* t1 t2" "in_progress F t2" "sr_sender_is_complete (t_sender t2)"
      using less.hyps t1(2,3) by blast
    then show ?thesis using t1(1) by (meson rtranclp_trans)
  qed
qed

lemma completion_reachable:
  assumes "in_progress F t" "retries_left (t_sender t)"
  shows "\<exists>t'. transfer_step\<^sup>*\<^sup>* t t' \<and> in_progress F t' \<and> sr_sender_is_complete (t_sender t')"
proof -
  obtain t1 where t1: "transfer_step t t1" "in_progress F t1" "under_way F t1" by (rule resend_all [OF assms])
  then show ?thesis
    using completion_under_way [OF t1(2,3)] converse_rtranclp_into_rtranclp [of transfer_step, OF t1(1)] by blast
qed

lemma sender_complete_receiver_complete:
  assumes inv: "transfer_inv F t" "\<not> t_forged t" and "sr_sender_is_complete (t_sender t)"
  shows "sr_receiver_is_complete (t_recv t)"
proof (rule receiver_all_got_complete)
  show "recv_inv F (t_recv t)" "recv_slid (t_recv t)" using inv by (simp_all add: transfer_inv_def)
  show "{..< chunk_count (length F)} \<subseteq> got (t_recv t)"
    using sender_complete_acked [of F "t_sender t"] assms by (simp add: transfer_inv_def)
qed

lemma run_lossless:
  assumes "transfer_step\<^sup>*\<^sup>* t0 t" "init_transfer F t0"
  shows "lossless (t_senv t) = lossless (t_senv t0) \<and> lossless (t_renv t) = lossless (t_renv t0)"
  using assms(1)
proof (induction rule: rtranclp_induct)
  case (step y z)
  have "transfer_inv F y" by (rule reachable_transfer_inv [OF assms(2) step.hyps(1)])
  then show ?case using transfer_step_lossless step by blast
qed simp

end
