(* ===== verification/Common_Utils.thy ===== *)
theory Common_Utils
  imports P2P_Prelude
begin

text \<open>
  The utilities of \<^verbatim>\<open>common.c\<close>: sockets, clock, files, hashing and hexadecimal output.

  The answers of the system calls are arguments. A file system is a map from names to
  contents; what can go wrong between \<^verbatim>\<open>fopen\<close> and \<^verbatim>\<open>fclose\<close> is the record \<open>file_faults\<close>.
  SHA-256 is a library function, the parameter \<open>sha256\<close>.
\<close>

section \<open>Sockets and clock\<close>

text \<open>The result and the descriptors that are closed on the way.\<close>

definition set_nonblocking :: "int \<Rightarrow> int \<Rightarrow> int" where
  "set_nonblocking flags set_res = (if flags = -1 then -1 else set_res)"

definition create_tcp_socket :: "int \<Rightarrow> int \<Rightarrow> int \<times> int list" where
  "create_tcp_socket fd opt_res =
     (if fd < 0 then (-1, []) else if opt_res < 0 then (-1, [fd]) else (fd, []))"

definition create_udp_socket :: "int \<Rightarrow> int \<Rightarrow> int \<times> int list" where
  "create_udp_socket fd opt_res =
     (if fd < 0 then (-1, []) else if opt_res < 0 then (-1, [fd]) else (fd, []))"

definition bind_socket :: "int \<Rightarrow> int" where
  "bind_socket bind_res = (if bind_res < 0 then -1 else 0)"

definition get_time_ms :: "int \<Rightarrow> int \<Rightarrow> u64" where
  "get_time_ms tv_sec tv_usec = of_int tv_sec * 1000 + of_int tv_usec div 1000"

section \<open>Files\<close>

type_synonym file_system = "bytes \<rightharpoonup> bytes"

record file_faults =
  ff_open :: bool
  ff_tell :: bool
  ff_malloc :: bool
  ff_count :: "nat option"

text \<open>
  \<open>ff_count\<close> is the answer of \<^verbatim>\<open>fread\<close> or \<^verbatim>\<open>fwrite\<close> when it transfers fewer bytes than
  asked for; \<open>no_faults\<close> is a file system without failures.
\<close>

definition no_faults :: file_faults where
  "no_faults = \<lparr>ff_open = False, ff_tell = False, ff_malloc = False, ff_count = None\<rparr>"

definition transferred :: "file_faults \<Rightarrow> nat \<Rightarrow> nat" where
  "transferred ff n = (case ff_count ff of None \<Rightarrow> n | Some k \<Rightarrow> min k n)"

definition read_file_to_buffer :: "file_system \<Rightarrow> file_faults \<Rightarrow> bytes \<Rightarrow> int \<times> bytes option" where
  "read_file_to_buffer fs ff filepath =
     (case fs (c_string filepath) of
        None \<Rightarrow> (-1, None)
      | Some content \<Rightarrow>
          if ff_open ff then (-1, None)
          else if ff_tell ff then (-1, None)
          else if ff_malloc ff then (-1, None)
          else if transferred ff (length content) \<noteq> length content then (-1, None)
          else (0, Some content))"

definition write_buffer_to_file :: "file_system \<Rightarrow> file_faults \<Rightarrow> bytes \<Rightarrow> bytes \<Rightarrow> int \<times> file_system" where
  "write_buffer_to_file fs ff filepath buffer =
     (if ff_open ff then (-1, fs)
      else
        let written = transferred ff (length buffer);
            fs' = fs(c_string filepath \<mapsto> take written buffer)
        in if written \<noteq> length buffer then (-1, fs') else (0, fs'))"

section \<open>Hashes\<close>

text \<open>Without a digest context the array keeps what it held, \<open>old\<close>.\<close>

definition compute_sha256 :: "(bytes \<Rightarrow> bytes) \<Rightarrow> bool \<Rightarrow> bytes \<Rightarrow> bytes \<Rightarrow> bytes" where
  "compute_sha256 sha256 ctx_ok old data = (if ctx_ok then sha256 data else old)"

definition hex_digit :: "nat \<Rightarrow> byte" where
  "hex_digit n = (if n < 10 then of_nat (48 + n) else of_nat (87 + n))"

definition hex_byte :: "byte \<Rightarrow> bytes" where
  "hex_byte b = [hex_digit (unat b div 16), hex_digit (unat b mod 16)]"

definition hash_to_string :: "bytes \<Rightarrow> bytes" where
  "hash_to_string hash = concat (map hex_byte (take 32 hash)) @ [0]"

section \<open>Properties of the utilities\<close>

lemma hex_digit_unat:
  assumes "n < 16"
  shows "unat (hex_digit n) = (if n < 10 then 48 + n else 87 + n)"
proof -
  have "unat (of_nat k :: byte) = k" if "k < 256" for k using that by (simp add: unat_of_nat)
  then show ?thesis using assms by (simp only: hex_digit_def split: if_split) simp
qed

lemma hex_digit_inj:
  assumes "m < 16" "n < 16" "hex_digit m = hex_digit n"
  shows "m = n"
proof -
  have "unat (hex_digit m) = unat (hex_digit n)" using assms(3) by simp
  then show ?thesis using hex_digit_unat [OF assms(1)] hex_digit_unat [OF assms(2)] assms(1,2) by (auto split: if_splits)
qed

lemma hex_digit_nonzero: "n < 16 \<Longrightarrow> hex_digit n \<noteq> 0"
  using hex_digit_unat [of n] by (auto split: if_splits)

lemma hex_byte_inj:
  assumes "hex_byte a = hex_byte b"
  shows "a = b"
proof -
  have lt: "unat x div 16 < 16" "unat x mod 16 < 16" for x :: byte
    using unat_u8_less [of x] by (auto simp: less_mult_imp_div_less)
  have "unat a div 16 = unat b div 16" "unat a mod 16 = unat b mod 16"
    using assms hex_digit_inj [OF lt(1) lt(1)] hex_digit_inj [OF lt(2) lt(2)] by (auto simp: hex_byte_def)
  then have "unat a = unat b" by (metis div_mult_mod_eq)
  then show ?thesis by (simp add: word_unat_eq_iff)
qed

lemma hex_bytes_inj:
  "length xs = length ys \<Longrightarrow> concat (map hex_byte xs) = concat (map hex_byte ys) \<Longrightarrow> xs = ys"
proof (induction xs ys rule: list_induct2)
  case (Cons x xs y ys)
  have "length (hex_byte z) = 2" for z by (simp add: hex_byte_def)
  then have "hex_byte x = hex_byte y \<and> concat (map hex_byte xs) = concat (map hex_byte ys)"
    using Cons.prems by (simp add: append_eq_append_conv)
  then show ?case using Cons.IH hex_byte_inj by blast
qed simp

lemma hex_bytes_nonzero: "0 \<notin> set (concat (map hex_byte xs))"
proof -
  have "0 \<notin> set (hex_byte b)" for b
    using hex_digit_nonzero [of "unat b div 16"] hex_digit_nonzero [of "unat b mod 16"] unat_u8_less [of b]
    by (auto simp: hex_byte_def less_mult_imp_div_less)
  then show ?thesis by auto
qed

text \<open>
  Hexadecimal hashes. The string of a 32-byte hash fills the 65-byte array exactly, is
  terminated at its last byte and nowhere before, and different hashes have different
  strings.
\<close>

lemma hash_string_faithful:
  assumes "length h = 32" "length h' = 32"
  shows "length (hash_to_string h) = 65 \<and> length (c_string (hash_to_string h)) = 64 \<and>
    (hash_to_string h = hash_to_string h' \<longleftrightarrow> h = h')"
proof -
  have blocks: "\<forall>x \<in> set (map hex_byte xs). length x = 2" for xs by (simp add: hex_byte_def)
  have len: "length (concat (map hex_byte h)) = 64"
    using length_concat_blocks [OF blocks, of h] assms(1) by simp
  have "c_string (hash_to_string h) = concat (map hex_byte h)"
    unfolding c_string_def hash_to_string_def using hex_bytes_nonzero [of h] assms(1)
    by (subst takeWhile_append2) auto
  moreover have "h = h'" if "hash_to_string h = hash_to_string h'"
    using that hex_bytes_inj [of h h'] assms by (simp add: hash_to_string_def)
  ultimately show ?thesis using len assms(1) by (auto simp: hash_to_string_def)
qed

text \<open>
  Writing a buffer and reading the file back gives the buffer, when neither call
  reports an error; a write that reports an error has left at most a prefix.
\<close>

lemma write_then_read:
  assumes "write_buffer_to_file fs ff path buffer = (res, fs')"
  shows "(res = 0 \<longrightarrow> read_file_to_buffer fs' no_faults path = (0, Some buffer)) \<and>
    (res \<noteq> 0 \<longrightarrow> fs' = fs \<or> (\<exists>k. fs' = fs(c_string path \<mapsto> take k buffer)))"
  using assms
  by (auto simp: write_buffer_to_file_def read_file_to_buffer_def no_faults_def transferred_def Let_def
      split: if_splits)

end
