(* ===== verification/Directory_Server.thy ===== *)
theory Directory_Server
  imports Lossy_UDP Common_Utils
begin

text \<open>
  The directory server (\<^verbatim>\<open>server.c\<close>): the arrays of clients and files with their counters,
  the handlers of the TCP messages, accepting and removing clients, and the event loop.

  A \<^verbatim>\<open>client_t *\<close> is the index of the entry in the array. What the server hands to
  \<^verbatim>\<open>send\<close> and the descriptors it closes are logged in the state. What the kernel
  answers (\<^verbatim>\<open>accept\<close>, \<^verbatim>\<open>poll\<close>, \<^verbatim>\<open>recv\<close>, \<^verbatim>\<open>malloc\<close>, \<^verbatim>\<open>send\<close>) is an argument. The address of a
  client is kept in network order, as \<^verbatim>\<open>accept\<close> stores it.
\<close>

abbreviation (input) MAX_CLIENTS :: "'a::numeral" where "MAX_CLIENTS \<equiv> 256"
abbreviation (input) MAX_FILES :: "'a::numeral" where "MAX_FILES \<equiv> 1024"

section \<open>State\<close>

record client_t =
  c_fd :: int
  c_client_id :: u32
  c_addr :: sockaddr_in
  c_udp_port :: u16
  c_active :: bool

record shared_file_t =
  f_file_id :: u32
  f_file_size :: u32
  f_hash :: bytes
  f_filename :: bytes
  f_owner_id :: u32

record server =
  sv_clients :: "client_t list"
  sv_files :: "shared_file_t list"
  sv_next_client_id :: u32
  sv_next_file_id :: u32
  sv_num_clients :: int
  sv_num_files :: nat
  sv_out :: "(int \<times> bytes) list"
  sv_closed :: "int list"

definition zero_client :: client_t where
  "zero_client = \<lparr>c_fd = 0, c_client_id = 0, c_addr = \<lparr>sin_port = 0, sin_addr = 0\<rparr>,
     c_udp_port = 0, c_active = False\<rparr>"

definition zero_file :: shared_file_t where
  "zero_file = \<lparr>f_file_id = 0, f_file_size = 0, f_hash = replicate 32 0,
     f_filename = replicate 256 0, f_owner_id = 0\<rparr>"

definition init_server :: server where
  "init_server = \<lparr>sv_clients = replicate MAX_CLIENTS zero_client, sv_files = replicate MAX_FILES zero_file,
     sv_next_client_id = 1, sv_next_file_id = 1, sv_num_clients = 0, sv_num_files = 0,
     sv_out = [], sv_closed = []\<rparr>"

section \<open>Lookups\<close>

definition find_client :: "server \<Rightarrow> u32 \<Rightarrow> nat option" where
  "find_client s client_id = first_index (\<lambda>c. c_active c \<and> c_client_id c = client_id) (sv_clients s)"

definition find_client_by_fd :: "server \<Rightarrow> int \<Rightarrow> nat option" where
  "find_client_by_fd s fd = first_index (\<lambda>c. c_fd c = fd \<and> c_fd c > 0) (sv_clients s)"

definition find_file :: "server \<Rightarrow> u32 \<Rightarrow> nat option" where
  "find_file s file_id = first_index (\<lambda>f. f_file_id f = file_id) (take (sv_num_files s) (sv_files s))"

section \<open>Removing a client\<close>

text \<open>The inner loop: \<^verbatim>\<open>files[j] = files[j + 1]\<close> for \<open>j\<close> up to \<^verbatim>\<open>num_files - 2\<close>.\<close>

function shift_down :: "shared_file_t list \<Rightarrow> nat \<Rightarrow> nat \<Rightarrow> shared_file_t list" where
  "shift_down files j n =
     (if j < n - 1 then shift_down (files[j := files ! (j + 1)]) (j + 1) n else files)"
  by pat_completeness auto
termination
  by (relation "measure (\<lambda>(files, j, n). n - 1 - j)") auto

function remove_files :: "u32 \<Rightarrow> nat \<Rightarrow> shared_file_t list \<Rightarrow> nat \<Rightarrow> shared_file_t list \<times> nat" where
  "remove_files client_id i files num_files =
     (if i < num_files
      then
        if f_owner_id (files ! i) = client_id
        then remove_files client_id i (shift_down files i num_files) (num_files - 1)
        else remove_files client_id (i + 1) files num_files
      else (files, num_files))"
  by pat_completeness auto
termination
  by (relation "measure (\<lambda>(id, i, files, n). n - i)") auto

declare shift_down.simps [simp del]
declare remove_files.simps [simp del]

definition remove_client :: "server \<Rightarrow> nat option \<Rightarrow> server" where
  "remove_client s client =
     (case client of
        None \<Rightarrow> s
      | Some i \<Rightarrow>
          let c = sv_clients s ! i
          in if \<not> c_active c then s
             else
               let (files, num_files) = remove_files (c_client_id c) 0 (sv_files s) (sv_num_files s)
               in s\<lparr>sv_files := files, sv_num_files := num_files, sv_closed := sv_closed s @ [c_fd c],
                    sv_clients := (sv_clients s)[i := c\<lparr>c_fd := -1, c_active := False\<rparr>],
                    sv_num_clients := sv_num_clients s - 1\<rparr>)"

section \<open>Message handlers\<close>

text \<open>
  \<open>sent\<close> is the answer of \<^verbatim>\<open>send\<close>. No handler looks at the result of
  \<^verbatim>\<open>send_response\<close>, and the log does not depend on it.
\<close>

definition send_response :: "int \<Rightarrow> server \<Rightarrow> nat \<Rightarrow> bytes \<Rightarrow> int \<times> server" where
  "send_response sent s i data =
     (if sent < 0 then -1 else if sent \<noteq> int (length data) then -1 else 0,
      s\<lparr>sv_out := sv_out s @ [(c_fd (sv_clients s ! i), data)]\<rparr>)"

abbreviation respond :: "server \<Rightarrow> nat \<Rightarrow> bytes \<Rightarrow> server" where
  "respond s i data \<equiv> snd (send_response (int (length data)) s i data)"

definition error_response :: "u8 \<Rightarrow> bytes" where
  "error_response code = enc_tcp_header \<lparr>th_msg_type = TCP_ERROR, th_error_code = code, th_data_len = 0\<rparr>"

definition handle_register :: "server \<Rightarrow> nat \<Rightarrow> tcp_register_t \<Rightarrow> server" where
  "handle_register s i reg =
     (let c = (sv_clients s ! i)\<lparr>c_udp_port := reg_udp_port reg, c_client_id := sv_next_client_id s,
                c_active := True\<rparr>;
          s = s\<lparr>sv_clients := (sv_clients s)[i := c], sv_next_client_id := sv_next_client_id s + 1,
                sv_num_clients := sv_num_clients s + 1\<rparr>
      in respond s i
           (enc_tcp_header \<lparr>th_msg_type = TCP_REGISTER_ACK, th_error_code = ERR_NONE, th_data_len = 4\<rparr> @
            enc_tcp_register_ack \<lparr>rack_client_id = c_client_id c\<rparr>))"

definition store_file :: "server \<Rightarrow> shared_file_t \<Rightarrow> server" where
  "store_file s file =
     (if sv_num_files s \<ge> MAX_FILES then s
      else s\<lparr>sv_files := (sv_files s)[sv_num_files s := file], sv_num_files := sv_num_files s + 1\<rparr>)"

definition handle_share_file :: "server \<Rightarrow> nat \<Rightarrow> tcp_share_file_t \<Rightarrow> server" where
  "handle_share_file s i share =
     (if sv_num_files s \<ge> MAX_FILES then respond s i (error_response ERR_INVALID_MSG)
      else
        let file = \<lparr>f_file_id = sv_next_file_id s, f_file_size = sh_file_size share,
                    f_hash = take 32 (sh_hash share), f_filename = copy_name (sh_filename share),
                    f_owner_id = c_client_id (sv_clients s ! i)\<rparr>;
            s = (store_file s file)\<lparr>sv_next_file_id := sv_next_file_id s + 1\<rparr>
        in respond s i
             (enc_tcp_header \<lparr>th_msg_type = TCP_SHARE_ACK, th_error_code = ERR_NONE, th_data_len = 4\<rparr> @
              enc_tcp_share_ack \<lparr>sack_file_id = f_file_id file\<rparr>))"

definition info_of :: "shared_file_t \<Rightarrow> file_info_t" where
  "info_of f = \<lparr>fi_file_id = f_file_id f, fi_file_size = f_file_size f, fi_hash = f_hash f,
     fi_num_peers = 1, fi_filename = copy_name (f_filename f)\<rparr>"

definition handle_list_files :: "bool \<Rightarrow> server \<Rightarrow> nat \<Rightarrow> server" where
  "handle_list_files malloc_ok s i =
     (if \<not> malloc_ok then s
      else respond s i
        (enc_tcp_header \<lparr>th_msg_type = TCP_FILE_LIST, th_error_code = ERR_NONE,
                         th_data_len = of_nat (sv_num_files s * 297)\<rparr> @
         concat (map (\<lambda>f. enc_file_info (info_of f)) (take (sv_num_files s) (sv_files s)))))"

definition location_of :: "shared_file_t \<Rightarrow> client_t \<Rightarrow> tcp_file_location_t" where
  "location_of f owner = \<lparr>loc_file_id = f_file_id f, loc_file_size = f_file_size f, loc_hash = f_hash f,
     loc_peer_ip = sin_addr (c_addr owner), loc_peer_port = c_udp_port owner,
     loc_filename = copy_name (f_filename f)\<rparr>"

definition handle_request_file :: "server \<Rightarrow> nat \<Rightarrow> tcp_request_file_t \<Rightarrow> server" where
  "handle_request_file s i req =
     (case find_file s (rq_file_id req) of
        None \<Rightarrow> respond s i (error_response ERR_FILE_NOT_FOUND)
      | Some k \<Rightarrow>
          let file = sv_files s ! k
          in case find_client s (f_owner_id file) of
               None \<Rightarrow> respond s i (error_response ERR_NO_PEERS)
             | Some owner \<Rightarrow>
                 respond s i
                   (enc_tcp_header \<lparr>th_msg_type = TCP_FILE_LOCATION, th_error_code = ERR_NONE,
                                    th_data_len = 302\<rparr> @
                    enc_tcp_file_location (location_of file (sv_clients s ! owner))))"

definition handle_unregister :: "server \<Rightarrow> nat \<Rightarrow> server" where
  "handle_unregister s i = remove_client s (Some i)"

definition process_client_message :: "bool \<Rightarrow> server \<Rightarrow> nat \<Rightarrow> bytes \<Rightarrow> server" where
  "process_client_message malloc_ok s i data =
     (if length data < 4 then s
      else
        let hdr = dec_tcp_header data; data_len = unat (th_data_len hdr)
        in if 4 + data_len \<noteq> length data then s
           else
             let payload = drop 4 data; msg_type = th_msg_type hdr
             in if msg_type = TCP_REGISTER then
                  if data_len = 2 then handle_register s i (dec_tcp_register payload) else s
                else if msg_type = TCP_SHARE_FILE then
                  if data_len = 292 then handle_share_file s i (dec_tcp_share_file payload) else s
                else if msg_type = TCP_LIST_FILES then handle_list_files malloc_ok s i
                else if msg_type = TCP_REQUEST_FILE then
                  if data_len = 4 then handle_request_file s i (dec_tcp_request_file payload) else s
                else if msg_type = TCP_UNREGISTER then handle_unregister s i
                else s)"

section \<open>Connections and the event loop\<close>

definition accept_new_client :: "server \<Rightarrow> int \<Rightarrow> sockaddr_in \<Rightarrow> server" where
  "accept_new_client s client_fd client_addr =
     (if client_fd < 0 then s
      else case first_index (\<lambda>c. \<not> c_active c) (sv_clients s) of
             None \<Rightarrow> s\<lparr>sv_closed := sv_closed s @ [client_fd]\<rparr>
           | Some i \<Rightarrow>
               s\<lparr>sv_clients := (sv_clients s)[i := (sv_clients s ! i)
                   \<lparr>c_fd := client_fd, c_addr := client_addr, c_active := False\<rparr>]\<rparr>)"

datatype recv_result = RecvFailed | RecvClosed | RecvData bytes

text \<open>
  What \<^verbatim>\<open>poll\<close> reports in one pass of the loop: the listening socket with the answer of
  \<^verbatim>\<open>accept\<close>, and for each polled client descriptor whether it is readable, what \<^verbatim>\<open>recv\<close>
  answers and whether \<^verbatim>\<open>malloc\<close> succeeds if a list is sent.
\<close>

datatype poll_outcome =
  PollInterrupted
| PollFailed
| PollTimeout
| PollReady "(int \<times> sockaddr_in) option" "(bool \<times> recv_result \<times> bool) list"

definition poll_fds :: "server \<Rightarrow> int list" where
  "poll_fds s = map c_fd (filter (\<lambda>c. c_fd c > 0) (sv_clients s))"

definition serve_client :: "server \<Rightarrow> int \<Rightarrow> recv_result \<Rightarrow> bool \<Rightarrow> server" where
  "serve_client s fd result malloc_ok =
     (case find_client_by_fd s fd of
        None \<Rightarrow> s
      | Some i \<Rightarrow>
          (case result of
             RecvData data \<Rightarrow> process_client_message malloc_ok s i data
           | _ \<Rightarrow> remove_client s (Some i)))"

fun serve_clients :: "server \<Rightarrow> (int \<times> bool \<times> recv_result \<times> bool) list \<Rightarrow> server" where
  "serve_clients s [] = s"
| "serve_clients s ((fd, pollin, result, malloc_ok) # rest) =
     serve_clients (if pollin then serve_client s fd result malloc_ok else s) rest"

fun server_loop :: "server \<Rightarrow> poll_outcome list \<Rightarrow> server" where
  "server_loop s [] = s"
| "server_loop s (PollInterrupted # rest) = server_loop s rest"
| "server_loop s (PollFailed # rest) = s"
| "server_loop s (PollTimeout # rest) = server_loop s rest"
| "server_loop s (PollReady listen events # rest) =
     (let fds = poll_fds s;
          s = (case listen of None \<Rightarrow> s | Some (fd, addr) \<Rightarrow> accept_new_client s fd addr)
      in server_loop (serve_clients s (zip fds events)) rest)"

definition server_shutdown :: "server \<Rightarrow> int \<Rightarrow> server" where
  "server_shutdown s listen_fd = s\<lparr>sv_closed := sv_closed s @ poll_fds s @ [listen_fd]\<rparr>"

text \<open>
  \<^verbatim>\<open>main\<close>: the arguments are the number of command-line words, whether the port is 0, the
  answers of \<^verbatim>\<open>socket\<close> and \<^verbatim>\<open>setsockopt\<close> in \<^verbatim>\<open>create_tcp_socket\<close> and those of \<^verbatim>\<open>bind\<close>, \<^verbatim>\<open>getsockname\<close> and \<^verbatim>\<open>listen\<close>; the outcomes
  are those of \<^verbatim>\<open>poll\<close> until the interrupt handler clears \<^verbatim>\<open>running\<close>.
\<close>

definition server_main ::
    "nat \<Rightarrow> bool \<Rightarrow> int \<Rightarrow> int \<Rightarrow> int \<Rightarrow> int \<Rightarrow> int \<Rightarrow> poll_outcome list \<Rightarrow> int \<times> server" where
  "server_main argc port_zero sock_fd opt_res bind_res name_res listen_res outcomes =
     (if argc > 2 then (1, init_server)
      else
        let (listen_fd, closed) = create_tcp_socket sock_fd opt_res;
            failed = (1, init_server\<lparr>sv_closed := [listen_fd]\<rparr>)
        in if listen_fd < 0 then (1, init_server\<lparr>sv_closed := closed\<rparr>)
           else if bind_socket bind_res < 0 then failed
           else if port_zero \<and> name_res \<noteq> 0 then failed
           else if listen_res < 0 then failed
           else (0, server_shutdown (server_loop init_server outcomes) listen_fd))"

section \<open>The file table\<close>

definition live_files :: "server \<Rightarrow> shared_file_t list" where
  "live_files s = take (sv_num_files s) (sv_files s)"

definition lookup_file :: "server \<Rightarrow> u32 \<Rightarrow> shared_file_t option" where
  "lookup_file s file_id = map_option (\<lambda>k. sv_files s ! k) (find_file s file_id)"

lemma lookup_file_find: "lookup_file s k = find (\<lambda>f. f_file_id f = k) (live_files s)"
proof (cases "find_file s k")
  case (Some j)
  then have "j < sv_num_files s" using first_index_SomeD unfolding find_file_def by fastforce
  then show ?thesis using Some by (simp add: lookup_file_def find_file_def live_files_def first_index_find)
qed (simp add: lookup_file_def find_file_def live_files_def first_index_find)

interpretation dir: registry live_files f_file_id lookup_file store_file "\<lambda>f. f" MAX_FILES
  "\<lambda>s. length (sv_files s) = MAX_FILES \<and> sv_num_files s \<le> MAX_FILES"
  by unfold_locales (auto simp: lookup_file_find live_files_def store_file_def take_Suc_conv_app_nth)

lemma store_file_frame [simp, frame]:
  "sv_next_client_id (store_file s f) = sv_next_client_id s" "sv_clients (store_file s f) = sv_clients s"
  "length (sv_files (store_file s f)) = length (sv_files s)" "sv_out (store_file s f) = sv_out s"
  "sv_num_files s < MAX_FILES \<Longrightarrow> sv_num_files (store_file s f) = sv_num_files s + 1"
  by (simp_all add: store_file_def)

subsection \<open>The removal loops are a filter\<close>

lemma shift_down_length [simp]: "length (shift_down files j n) = length files"
  by (induction files j n rule: shift_down.induct) (subst shift_down.simps, simp)

lemma shift_down_nth:
  "n \<le> length files \<Longrightarrow> shift_down files j n ! k =
     (if j \<le> k \<and> k < n - 1 then files ! (k + 1) else files ! k)"
proof (induction files j n rule: shift_down.induct)
  case (1 files j n)
  show ?case
  proof (cases "j < n - 1")
    case True
    then have "shift_down files j n ! k =
        (if Suc j \<le> k \<and> k < n - 1 then files[j := files ! (j + 1)] ! (k + 1) else files[j := files ! (j + 1)] ! k)"
      using 1 by (subst shift_down.simps) simp
    then show ?thesis using True "1.prems" by (auto simp: nth_list_update)
  next
    case False
    then show ?thesis by (subst shift_down.simps) auto
  qed
qed

lemma shift_down_take:
  assumes "j < n" "n \<le> length files"
  shows "take (n - 1) (shift_down files j n) = take j files @ drop (Suc j) (take n files)"
proof (rule nth_equalityI)
  show "length (take (n - 1) (shift_down files j n)) = length (take j files @ drop (Suc j) (take n files))"
    using assms by simp
  fix k
  assume "k < length (take (n - 1) (shift_down files j n))"
  then have "k < n - 1" by simp
  then show "take (n - 1) (shift_down files j n) ! k = (take j files @ drop (Suc j) (take n files)) ! k"
    using assms by (auto simp: shift_down_nth nth_append)
qed

lemma remove_files_filter:
  assumes "i \<le> n" "n \<le> length files" "remove_files client_id i files n = (files', n')"
  shows "length files' = length files \<and> n' \<le> n \<and>
    take n' files' = take i files @ filter (\<lambda>f. f_owner_id f \<noteq> client_id) (drop i (take n files))"
  using assms
proof (induction client_id i files n rule: remove_files.induct)
  case (1 client_id i files n)
  show ?case
  proof (cases "i < n")
    case True
    have split: "drop i (take n files) = files ! i # drop (Suc i) (take n files)"
      using True "1.prems"(2) Cons_nth_drop_Suc [of i "take n files"] by simp
    show ?thesis
    proof (cases "f_owner_id (files ! i) = client_id")
      case own: True
      have "remove_files client_id i (shift_down files i n) (n - 1) = (files', n')"
        using "1.prems"(3) True own by (simp add: remove_files.simps [of client_id i files n])
      then have IH: "length files' = length files" "n' \<le> n - 1"
        "take n' files' = take i (shift_down files i n) @
           filter (\<lambda>f. f_owner_id f \<noteq> client_id) (drop i (take (n - 1) (shift_down files i n)))"
        using "1.IH"(1) [OF True own] True "1.prems"(2) by auto
      have sh: "take (n - 1) (shift_down files i n) = take i files @ drop (Suc i) (take n files)"
        by (rule shift_down_take [OF True "1.prems"(2)])
      have "take i (shift_down files i n) = take i files"
        using True "1.prems"(2) by (intro nth_equalityI) (simp_all add: shift_down_nth)
      then show ?thesis using IH sh split own True "1.prems"(2) by simp
    next
      case False
      have "remove_files client_id (i + 1) files n = (files', n')"
        using "1.prems"(3) True False by (simp add: remove_files.simps [of client_id i files n])
      then show ?thesis
        using "1.IH"(2) [OF True False] True False "1.prems"(2) split
        by (simp add: take_Suc_conv_app_nth)
    qed
  next
    case False
    then have "remove_files client_id i files n = (files, n)"
      by (subst remove_files.simps) simp
    moreover have "i = n" using False "1.prems"(1) by simp
    ultimately show ?thesis using "1.prems" by simp
  qed
qed

section \<open>The invariant\<close>

definition file_ok :: "server \<Rightarrow> shared_file_t \<Rightarrow> bool" where
  "file_ok s f \<longleftrightarrow> length (f_hash f) = 32 \<and> length (f_filename f) = 256 \<and>
     0 < f_file_id f \<and> f_file_id f < sv_next_file_id s \<and> f_owner_id f < sv_next_client_id s"

definition files_inv :: "server \<Rightarrow> bool" where
  "files_inv s \<longleftrightarrow> length (sv_files s) = MAX_FILES \<and> sv_num_files s \<le> MAX_FILES \<and>
     (\<forall>f \<in> set (live_files s). file_ok s f) \<and> distinct (map f_file_id (live_files s))"

definition active_ids :: "server \<Rightarrow> u32 list" where
  "active_ids s = map c_client_id (filter c_active (sv_clients s))"

definition clients_inv :: "server \<Rightarrow> bool" where
  "clients_inv s \<longleftrightarrow> length (sv_clients s) = MAX_CLIENTS \<and>
     (\<forall>c \<in> set (sv_clients s). c_client_id c < sv_next_client_id s \<and> (c_active c \<longrightarrow> 0 < c_client_id c)) \<and>
     (\<forall>i < MAX_CLIENTS. \<forall>j < MAX_CLIENTS. c_active (sv_clients s ! i) \<longrightarrow> c_active (sv_clients s ! j) \<longrightarrow>
        c_client_id (sv_clients s ! i) = c_client_id (sv_clients s ! j) \<longrightarrow> i = j)"

definition server_inv :: "server \<Rightarrow> bool" where
  "server_inv s \<longleftrightarrow> files_inv s \<and> clients_inv s \<and> 0 < sv_next_client_id s \<and> 0 < sv_next_file_id s"

definition ids_left :: "server \<Rightarrow> bool" where
  "ids_left s \<longleftrightarrow> sv_next_client_id s < sv_next_client_id s + 1 \<and> sv_next_file_id s < sv_next_file_id s + 1"

lemma init_server_inv: "server_inv init_server"
  by (auto simp: server_inv_def files_inv_def clients_inv_def init_server_def live_files_def zero_client_def)

subsection \<open>What a response leaves alone\<close>

lemma respond_frame [simp, frame]:
  "sv_clients (snd (send_response n s i d)) = sv_clients s"
  "sv_files (snd (send_response n s i d)) = sv_files s"
  "sv_num_files (snd (send_response n s i d)) = sv_num_files s"
  "sv_num_clients (snd (send_response n s i d)) = sv_num_clients s"
  "sv_next_client_id (snd (send_response n s i d)) = sv_next_client_id s"
  "sv_next_file_id (snd (send_response n s i d)) = sv_next_file_id s"
  "sv_closed (snd (send_response n s i d)) = sv_closed s"
  "sv_out (snd (send_response n s i d)) = sv_out s @ [(c_fd (sv_clients s ! i), d)]"
  by (simp_all add: send_response_def)

lemma respond_inv [simp]: "server_inv (snd (send_response n s i d)) = server_inv s"
  by (simp add: server_inv_def files_inv_def clients_inv_def live_files_def file_ok_def)

subsection \<open>Every operation keeps the invariant\<close>

lemma clients_inv_update:
  assumes inv: "clients_inv s" and i: "i < MAX_CLIENTS" and id: "c_client_id c < n" "c_active c \<longrightarrow> 0 < c_client_id c"
    and mono: "sv_next_client_id s \<le> n"
    and uniq: "\<And>j. j < MAX_CLIENTS \<Longrightarrow> j \<noteq> i \<Longrightarrow> c_active c \<Longrightarrow> c_active (sv_clients s ! j) \<Longrightarrow>
      c_client_id (sv_clients s ! j) \<noteq> c_client_id c"
    and s': "sv_clients s' = (sv_clients s)[i := c]" "sv_next_client_id s' = n"
  shows "clients_inv s'"
proof -
  have len: "length (sv_clients s) = MAX_CLIENTS" using inv by (simp add: clients_inv_def)
  have "\<forall>x \<in> set (sv_clients s'). c_client_id x < n \<and> (c_active x \<longrightarrow> 0 < c_client_id x)"
  proof
    fix x
    assume "x \<in> set (sv_clients s')"
    then have "x = c \<or> x \<in> set (sv_clients s)"
      using set_update_subset_insert [of "sv_clients s" i c] unfolding s'(1) by blast
    then show "c_client_id x < n \<and> (c_active x \<longrightarrow> 0 < c_client_id x)"
      using inv id mono by (auto simp: clients_inv_def dest: less_le_trans)
  qed
  moreover have "j = k" if "j < MAX_CLIENTS" "k < MAX_CLIENTS" "c_active (sv_clients s' ! j)" "c_active (sv_clients s' ! k)"
    "c_client_id (sv_clients s' ! j) = c_client_id (sv_clients s' ! k)" for j k
  proof -
    consider "j = i" "k = i" | "j = i" "k \<noteq> i" | "j \<noteq> i" "k = i" | "j \<noteq> i" "k \<noteq> i" by blast
    then show ?thesis
    proof cases
      case 2
      then show ?thesis using that len i uniq [of k] by (simp add: s'(1))
    next
      case 3
      then show ?thesis using that len i uniq [of j] by (simp add: s'(1))
    next
      case 4
      then show ?thesis using that inv by (simp add: s'(1) clients_inv_def)
    qed simp
  qed
  ultimately show ?thesis using len s' by (simp add: clients_inv_def)
qed

lemma accept_new_client_inv:
  assumes "server_inv s"
  shows "server_inv (accept_new_client s fd addr)"
proof (cases "first_index (\<lambda>c. \<not> c_active c) (sv_clients s)")
  case None
  then show ?thesis using assms
    by (simp add: accept_new_client_def server_inv_def files_inv_def clients_inv_def live_files_def file_ok_def)
next
  case (Some i)
  let ?c = "(sv_clients s ! i)\<lparr>c_fd := fd, c_addr := addr, c_active := False\<rparr>"
  have inv: "clients_inv s" using assms by (simp add: server_inv_def)
  then have i: "i < MAX_CLIENTS" using first_index_SomeD [OF Some] by (simp add: clients_inv_def)
  moreover have "c_client_id (sv_clients s ! i) < sv_next_client_id s" using inv i by (simp add: clients_inv_def)
  ultimately have "clients_inv (s\<lparr>sv_clients := (sv_clients s)[i := ?c]\<rparr>)"
    by (intro clients_inv_update [OF inv, of i ?c "sv_next_client_id s"]) simp_all
  then show ?thesis using assms Some
    by (simp add: accept_new_client_def server_inv_def files_inv_def live_files_def file_ok_def)
qed

lemma handle_register_inv:
  assumes inv: "server_inv s" and i: "i < MAX_CLIENTS" and left: "ids_left s"
  shows "server_inv (handle_register s i reg)"
proof -
  let ?c = "(sv_clients s ! i)\<lparr>c_udp_port := reg_udp_port reg, c_client_id := sv_next_client_id s, c_active := True\<rparr>"
  let ?s = "s\<lparr>sv_clients := (sv_clients s)[i := ?c], sv_next_client_id := sv_next_client_id s + 1,
    sv_num_clients := sv_num_clients s + 1\<rparr>"
  have c: "clients_inv s" "0 < sv_next_client_id s" using inv by (simp_all add: server_inv_def)
  have lt: "sv_next_client_id s < sv_next_client_id s + 1" using left by (simp add: ids_left_def)
  have "clients_inv ?s"
  proof (rule clients_inv_update [OF c(1) i, of ?c "sv_next_client_id s + 1"])
    show "c_client_id (sv_clients s ! j) \<noteq> c_client_id ?c" if "j < MAX_CLIENTS" for j
      using c(1) that less_imp_neq [of "c_client_id (sv_clients s ! j)" "sv_next_client_id s"]
      by (simp add: clients_inv_def)
  qed (use lt c(2) in simp_all)
  moreover have "files_inv ?s"
    using inv lt by (auto simp: server_inv_def files_inv_def live_files_def file_ok_def)
  moreover have "0 < sv_next_client_id s + 1" using lt by (rule le_less_trans [rotated]) simp
  ultimately have "server_inv ?s" using inv by (simp add: server_inv_def)
  then show ?thesis by (simp add: handle_register_def Let_def)
qed

lemma handle_share_file_inv:
  assumes inv: "server_inv s" and i: "i < MAX_CLIENTS" and share: "share_file_ok share" and left: "ids_left s"
  shows "server_inv (handle_share_file s i share)"
proof (cases "sv_num_files s \<ge> MAX_FILES")
  case True
  then show ?thesis using inv by (simp add: handle_share_file_def)
next
  case False
  let ?f = "\<lparr>f_file_id = sv_next_file_id s, f_file_size = sh_file_size share,
    f_hash = take 32 (sh_hash share), f_filename = copy_name (sh_filename share),
    f_owner_id = c_client_id (sv_clients s ! i)\<rparr>"
  let ?s = "(store_file s ?f)\<lparr>sv_next_file_id := sv_next_file_id s + 1\<rparr>"
  have fi: "files_inv s" "clients_inv s" using inv by (simp_all add: server_inv_def)
  have lt: "sv_next_file_id s < sv_next_file_id s + 1" using left by (simp add: ids_left_def)
  have live: "live_files ?s = live_files s @ [?f]"
    using dir.add_entries [of s ?f] fi(1) False by (simp add: files_inv_def live_files_def)
  have "c_client_id (sv_clients s ! i) < sv_next_client_id s" using fi(2) i by (simp add: clients_inv_def)
  then have "\<forall>f \<in> set (live_files ?s). file_ok ?s f"
    using fi(1) share inv lt unfolding live
    by (auto simp: files_inv_def file_ok_def share_file_ok_def server_inv_def dest: less_trans)
  moreover have "distinct (map f_file_id (live_files ?s))"
    using fi(1) unfolding live by (auto simp: files_inv_def file_ok_def)
  ultimately have "files_inv ?s" using fi(1) False by (simp add: files_inv_def)
  moreover have "clients_inv ?s" using fi(2) by (simp add: clients_inv_def)
  moreover have "0 < sv_next_file_id s + 1" using lt by (rule le_less_trans [rotated]) simp
  ultimately have "server_inv ?s" using inv by (simp add: server_inv_def)
  then show ?thesis using False by (simp add: handle_share_file_def Let_def)
qed

lemma remove_client_files:
  assumes "files_inv s" "c_active (sv_clients s ! i)"
  shows "live_files (remove_client s (Some i)) =
    filter (\<lambda>f. f_owner_id f \<noteq> c_client_id (sv_clients s ! i)) (live_files s)"
    "length (sv_files (remove_client s (Some i))) = length (sv_files s)"
    "sv_num_files (remove_client s (Some i)) \<le> sv_num_files s"
    "sv_clients (remove_client s (Some i)) = (sv_clients s)[i := (sv_clients s ! i)\<lparr>c_fd := -1, c_active := False\<rparr>]"
    "sv_next_client_id (remove_client s (Some i)) = sv_next_client_id s"
    "sv_next_file_id (remove_client s (Some i)) = sv_next_file_id s"
    "sv_closed (remove_client s (Some i)) = sv_closed s @ [c_fd (sv_clients s ! i)]"
    "sv_out (remove_client s (Some i)) = sv_out s"
proof -
  obtain files n where r: "remove_files (c_client_id (sv_clients s ! i)) 0 (sv_files s) (sv_num_files s) = (files, n)"
    by fastforce
  then have "length files = length (sv_files s) \<and> n \<le> sv_num_files s \<and> take n files =
      filter (\<lambda>f. f_owner_id f \<noteq> c_client_id (sv_clients s ! i)) (take (sv_num_files s) (sv_files s))"
    using remove_files_filter [OF _ _ r] assms(1) by (simp add: files_inv_def)
  then show "live_files (remove_client s (Some i)) =
    filter (\<lambda>f. f_owner_id f \<noteq> c_client_id (sv_clients s ! i)) (live_files s)"
    "length (sv_files (remove_client s (Some i))) = length (sv_files s)"
    "sv_num_files (remove_client s (Some i)) \<le> sv_num_files s"
    using assms(2) r by (simp_all add: remove_client_def live_files_def Let_def)
qed (use assms in \<open>simp_all add: remove_client_def Let_def split: prod.splits\<close>)

lemma remove_client_inv:
  assumes inv: "server_inv s" and i: "i < MAX_CLIENTS"
  shows "server_inv (remove_client s (Some i))"
proof (cases "c_active (sv_clients s ! i)")
  case False
  then show ?thesis using inv by (simp add: remove_client_def)
next
  case True
  let ?s = "remove_client s (Some i)" and ?c = "(sv_clients s ! i)\<lparr>c_fd := -1, c_active := False\<rparr>"
  have fi: "files_inv s" "clients_inv s" using inv by (simp_all add: server_inv_def)
  note r = remove_client_files [OF fi(1) True]
  have "c_client_id (sv_clients s ! i) < sv_next_client_id s" using fi(2) i by (simp add: clients_inv_def)
  then have "clients_inv ?s"
    by (intro clients_inv_update [OF fi(2) i, of ?c "sv_next_client_id s"]) (simp_all add: r)
  moreover have "distinct (map f_file_id (live_files ?s))"
    using fi(1) unfolding r(1) by (simp add: files_inv_def distinct_map_filter)
  then have "files_inv ?s"
    using fi(1) r(2,3,5,6) by (auto simp: files_inv_def r(1) file_ok_def)
  ultimately show ?thesis using inv by (simp add: server_inv_def r)
qed

lemma process_client_message_inv:
  assumes inv: "server_inv s" and i: "i < MAX_CLIENTS" and left: "ids_left s"
  shows "server_inv (process_client_message m s i data)"
proof -
  have share: "share_file_ok (dec_tcp_share_file (drop 4 data))" if "length data = 4 + 292"
    using that by (simp add: share_file_ok_def dec_tcp_share_file_def)
  have "server_inv (handle_list_files m s i)" using inv by (simp add: handle_list_files_def)
  moreover have "server_inv (handle_request_file s i req)" for req
    using inv by (simp add: handle_request_file_def Let_def split: option.split)
  moreover have "server_inv (handle_unregister s i)"
    using remove_client_inv [OF inv i] by (simp add: handle_unregister_def)
  ultimately show ?thesis
    using inv handle_register_inv [OF inv i left] handle_share_file_inv [OF inv i share left]
    by (simp add: process_client_message_def Let_def)
qed

subsection \<open>The event loop\<close>

text \<open>
  The identifiers are \<^verbatim>\<open>uint32_t\<close> counters that start at 1 and grow by at most one for each
  event served, so they stay fresh for fewer than \<^verbatim>\<open>2^32 - 1\<close> events.
\<close>

definition ids_below :: "nat \<Rightarrow> server \<Rightarrow> bool" where
  "ids_below b s \<longleftrightarrow> unat (sv_next_client_id s) \<le> b \<and> unat (sv_next_file_id s) \<le> b"

definition events_in :: "poll_outcome list \<Rightarrow> nat" where
  "events_in outcomes = (\<Sum>p\<leftarrow>outcomes. case p of PollReady l events \<Rightarrow> length events | _ \<Rightarrow> 0)"

lemma ids_below_left: "ids_below b s \<Longrightarrow> Suc b < 2 ^ 32 \<Longrightarrow> ids_left s"
  by (simp add: ids_below_def ids_left_def word_less_nat_alt unat_add_bounded)

lemma remove_client_ids [simp, frame]:
  "sv_next_client_id (remove_client s c) = sv_next_client_id s"
  "sv_next_file_id (remove_client s c) = sv_next_file_id s"
  by (simp_all add: remove_client_def Let_def split: option.split prod.split)

lemma process_client_message_ids:
  "sv_next_client_id (process_client_message m s i d) \<in> {sv_next_client_id s, sv_next_client_id s + 1}"
  "sv_next_file_id (process_client_message m s i d) \<in> {sv_next_file_id s, sv_next_file_id s + 1}"
  by (simp_all add: process_client_message_def handle_register_def handle_share_file_def store_file_def
      handle_list_files_def handle_request_file_def handle_unregister_def Let_def split: option.split)

lemma unat_inc_le: "unat (a :: u32) \<le> b \<Longrightarrow> x \<in> {a, a + 1} \<Longrightarrow> Suc b < 2 ^ 32 \<Longrightarrow> unat x \<le> Suc b"
  by (auto simp: unat_add_bounded)

lemma serve_client_inv:
  assumes inv: "server_inv s" and b: "ids_below b s" "Suc b < 2 ^ 32"
  shows "server_inv (serve_client s fd result m) \<and> ids_below (Suc b) (serve_client s fd result m)"
proof (cases "find_client_by_fd s fd")
  case None
  then show ?thesis using inv b by (simp add: serve_client_def ids_below_def)
next
  case (Some i)
  then have i: "i < MAX_CLIENTS"
    using first_index_SomeD [OF Some [unfolded find_client_by_fd_def]] inv
    by (simp add: server_inv_def clients_inv_def)
  have "ids_below (Suc b) (process_client_message m s i d)" for d
    using b unat_inc_le process_client_message_ids [of m s i d] unfolding ids_below_def by blast
  then show ?thesis
    using Some process_client_message_inv [OF inv i ids_below_left [OF b]] remove_client_inv [OF inv i] b(1)
    by (simp add: serve_client_def ids_below_def split: recv_result.split)
qed

lemma serve_clients_inv:
  assumes "server_inv s" "ids_below b s" "b + length evs < 2 ^ 32"
  shows "server_inv (serve_clients s evs) \<and> ids_below (b + length evs) (serve_clients s evs)"
  using assms
proof (induction s evs arbitrary: b rule: serve_clients.induct)
  case (2 s fd pollin result m rest)
  let ?s = "if pollin then serve_client s fd result m else s"
  have "server_inv ?s \<and> ids_below (Suc b) ?s"
    using serve_client_inv [OF "2.prems"(1,2), of fd result m] "2.prems" by (auto simp: ids_below_def)
  then show ?case using "2.IH" [of "Suc b"] "2.prems"(3) by simp
qed simp

lemma accept_new_client_ids [simp, frame]:
  "sv_next_client_id (accept_new_client s fd addr) = sv_next_client_id s"
  "sv_next_file_id (accept_new_client s fd addr) = sv_next_file_id s"
  by (simp_all add: accept_new_client_def split: option.split)

lemma server_loop_keeps:
  assumes "server_inv s" "ids_below b s" "b + events_in outcomes < 2 ^ 32"
  shows "server_inv (server_loop s outcomes) \<and> ids_below (b + events_in outcomes) (server_loop s outcomes)"
  using assms
proof (induction s outcomes arbitrary: b rule: server_loop.induct)
  case (3 s rest)
  then show ?case by (auto simp: ids_below_def)
next
  case (5 s listen events rest)
  define s1 where "s1 = (case listen of None \<Rightarrow> s | Some (fd, addr) \<Rightarrow> accept_new_client s fd addr)"
  have s1: "server_inv s1" "ids_below b s1"
    using "5.prems"(1,2) accept_new_client_inv by (simp_all add: s1_def ids_below_def split: option.split)
  let ?evs = "zip (poll_fds s) events"
  have le: "length ?evs \<le> length events" by simp
  have b: "b + length events + events_in rest < 2 ^ 32" using "5.prems"(3) by (simp add: events_in_def)
  then have "b + length ?evs < 2 ^ 32" using le by linarith
  from serve_clients_inv [OF s1 this]
  have s2: "server_inv (serve_clients s1 ?evs)" "ids_below (b + length events) (serve_clients s1 ?evs)"
    using le unfolding ids_below_def by (blast intro: le_trans add_left_mono)+
  have "server_loop s (PollReady listen events # rest) = server_loop (serve_clients s1 ?evs) rest"
    by (simp add: s1_def)
  then show ?case
    using "5.IH" [OF refl s1_def, of "b + length events"] s2 b by (simp add: events_in_def add.assoc)
qed (simp_all add: events_in_def)

section \<open>Properties of the server\<close>

text \<open>A server with one registered client, and a file to share.\<close>

definition sample_peer :: sockaddr_in where
  "sample_peer = \<lparr>sin_port = 40000, sin_addr = 0x0A000001\<rparr>"

definition sample_server :: server where
  "sample_server = handle_register (accept_new_client init_server 5 sample_peer)
     0 \<lparr>reg_udp_port = 6000\<rparr>"

definition sample_share :: tcp_share_file_t where
  "sample_share = \<lparr>sh_file_size = 2500, sh_hash = replicate 32 9, sh_filename = 97 # replicate 255 0\<rparr>"

lemma accept_first:
  "accept_new_client init_server 5 a = init_server\<lparr>sv_clients :=
     zero_client\<lparr>c_fd := 5, c_addr := a\<rparr> # replicate 255 zero_client\<rparr>"
proof -
  have "sv_clients init_server = zero_client # replicate 255 zero_client"
    by (simp add: init_server_def flip: replicate_Suc)
  then show ?thesis by (simp add: accept_new_client_def first_index_def) (simp add: zero_client_def)
qed

lemma sample_server_clients:
  "sv_clients sample_server = \<lparr>c_fd = 5, c_client_id = 1, c_addr = sample_peer,
     c_udp_port = 6000, c_active = True\<rparr> # replicate 255 zero_client"
  by (simp add: sample_server_def handle_register_def accept_first Let_def)
    (simp add: zero_client_def init_server_def)

lemma sample_server_facts [simp]:
  "sv_num_files sample_server = 0" "sv_files sample_server = replicate 1024 zero_file"
  "sv_next_client_id sample_server = 2" "sv_next_file_id sample_server = 1"
  unfolding sample_server_def handle_register_def accept_first Let_def by (simp_all add: init_server_def)

lemma sample_server_inv: "server_inv sample_server"
proof -
  have "ids_left (accept_new_client init_server 5 a)" for a
    by (simp add: ids_left_def) (simp add: init_server_def)
  then show ?thesis unfolding sample_server_def
    by (intro handle_register_inv accept_new_client_inv init_server_inv) simp_all
qed

lemma sample_share_ok: "share_file_ok sample_share"
  by (simp add: share_file_ok_def sample_share_def)

text \<open>
  C16. Invariant of the event loop. Whatever the clients send, in whatever order
  connections, messages, hang-ups and errors arrive, as long as fewer than \<^verbatim>\<open>2^32 - 1\<close>
  events are served: the arrays keep their sizes and \<^verbatim>\<open>num_files\<close> stays within
  \<^verbatim>\<open>MAX_FILES\<close>, no two listed files have the same id and no two registered clients have
  the same id, every id in use was handed out before, and every stored hash and name has
  its full length.
\<close>

theorem server_loop_invariant:
  assumes "events_in outcomes < 2 ^ 32 - 1"
  shows "server_inv (server_loop init_server outcomes)"
proof -
  have "ids_below 1 init_server" by (simp add: ids_below_def init_server_def)
  then show ?thesis using server_loop_keeps [OF init_server_inv, of 1 outcomes] assms by simp
qed

theorem server_loop_invariant_witness:
  "server_inv (server_loop init_server
     [PollReady (Some (5, \<lparr>sin_port = 40000, sin_addr = 1\<rparr>)) [], PollTimeout,
      PollReady None [(True, RecvData [1, 0, 0, 2, 23, 112], True)], PollInterrupted,
      PollReady None [(True, RecvClosed, True)]])"
  by (rule server_loop_invariant) (simp add: events_in_def)

text \<open>
  C24. Removing a client. The two nested loops of \<^verbatim>\<open>remove_client\<close>, which shift the array
  down and step back, remove exactly the files of the client and keep the others in their
  order; the client's entry is freed, its descriptor closed, every other client stays.
\<close>

theorem remove_client_removes_files:
  assumes "server_inv s" "i < MAX_CLIENTS" "c_active (sv_clients s ! i)"
  shows "live_files (remove_client s (Some i)) =
      filter (\<lambda>f. f_owner_id f \<noteq> c_client_id (sv_clients s ! i)) (live_files s) \<and>
    sv_clients (remove_client s (Some i)) = (sv_clients s)[i := (sv_clients s ! i)\<lparr>c_fd := -1, c_active := False\<rparr>] \<and>
    sv_closed (remove_client s (Some i)) = sv_closed s @ [c_fd (sv_clients s ! i)] \<and>
    find_client (remove_client s (Some i)) (c_client_id (sv_clients s ! i)) = None"
proof -
  have fi: "files_inv s" "clients_inv s" using assms(1) by (simp_all add: server_inv_def)
  note r = remove_client_files [OF fi(1) assms(3)]
  have "\<not> (c_active x \<and> c_client_id x = c_client_id (sv_clients s ! i))"
    if x: "x \<in> set (sv_clients (remove_client s (Some i)))" for x
  proof
    assume a: "c_active x \<and> c_client_id x = c_client_id (sv_clients s ! i)"
    obtain j where j: "j < length (sv_clients s)" "x = sv_clients (remove_client s (Some i)) ! j"
      using x unfolding in_set_conv_nth r(4) by auto
    have "j \<noteq> i" using a j assms(2) fi(2) by (auto simp: r(4) clients_inv_def)
    then have "x = sv_clients s ! j" using j by (simp add: r(4))
    then show False using a assms(2,3) fi(2) j(1) \<open>j \<noteq> i\<close> by (auto simp: clients_inv_def)
  qed
  then show ?thesis using r(1,4,7) by (simp add: find_client_def first_index_None)
qed

theorem remove_client_removes_files_witness:
  "live_files (remove_client (handle_share_file sample_server 0 sample_share) (Some 0)) = []"
proof -
  let ?s = "handle_share_file sample_server 0 sample_share"
  have "server_inv ?s"
    by (rule handle_share_file_inv [OF sample_server_inv _ sample_share_ok]) (simp_all add: ids_left_def)
  moreover have c: "c_active (sv_clients ?s ! 0)" "c_client_id (sv_clients ?s ! 0) = 1"
    by (simp_all add: handle_share_file_def Let_def sample_server_clients)
  moreover have "live_files ?s = [\<lparr>f_file_id = 1, f_file_size = 2500, f_hash = replicate 32 9,
      f_filename = copy_name (sh_filename sample_share), f_owner_id = 1\<rparr>]"
    by (simp add: handle_share_file_def Let_def live_files_def store_file_def sample_server_clients
        take_Suc_conv_app_nth) (simp add: sample_share_def)
  ultimately show ?thesis using remove_client_removes_files [of ?s 0] by simp
qed

definition shared_as :: "server \<Rightarrow> nat \<Rightarrow> tcp_share_file_t \<Rightarrow> shared_file_t" where
  "shared_as s i share = \<lparr>f_file_id = sv_next_file_id s, f_file_size = sh_file_size share,
     f_hash = sh_hash share, f_filename = copy_name (sh_filename share),
     f_owner_id = c_client_id (sv_clients s ! i)\<rparr>"

lemma find_client_active:
  assumes "clients_inv s" "i < MAX_CLIENTS" "c_active (sv_clients s ! i)"
  shows "find_client s (c_client_id (sv_clients s ! i)) = Some i"
proof -
  have len: "length (sv_clients s) = MAX_CLIENTS" using assms(1) by (simp add: clients_inv_def)
  then have "find_client s (c_client_id (sv_clients s ! i)) \<noteq> None"
    using assms(2,3) nth_mem [of i "sv_clients s"] by (auto simp: find_client_def first_index_None)
  then obtain j where j: "find_client s (c_client_id (sv_clients s ! i)) = Some j" by blast
  then have "j < MAX_CLIENTS" "c_active (sv_clients s ! j)" "c_client_id (sv_clients s ! j) = c_client_id (sv_clients s ! i)"
    using first_index_SomeD [OF j [unfolded find_client_def]] len by simp_all
  then have "j = i" using assms unfolding clients_inv_def by blast
  with j show ?thesis by simp
qed

lemma shared_is_located:
  assumes inv: "server_inv s" and i: "i < MAX_CLIENTS" "c_active (sv_clients s ! i)"
    and share: "share_file_ok share" and room: "sv_num_files s < MAX_FILES"
  defines "s' \<equiv> handle_share_file s i share"
  shows "sv_out s' = sv_out s @ [(c_fd (sv_clients s ! i),
      enc_tcp_header \<lparr>th_msg_type = TCP_SHARE_ACK, th_error_code = ERR_NONE, th_data_len = 4\<rparr> @
      enc_tcp_share_ack \<lparr>sack_file_id = sv_next_file_id s\<rparr>)] \<and>
    sv_next_file_id s \<notin> f_file_id ` set (live_files s) \<and>
    live_files s' = live_files s @ [shared_as s i share] \<and>
    sv_out (handle_request_file s' j \<lparr>rq_file_id = sv_next_file_id s\<rparr>) = sv_out s' @ [(c_fd (sv_clients s ! j),
      enc_tcp_header \<lparr>th_msg_type = TCP_FILE_LOCATION, th_error_code = ERR_NONE, th_data_len = 302\<rparr> @
      enc_tcp_file_location (location_of (shared_as s i share) (sv_clients s ! i)))]"
proof -
  let ?f = "shared_as s i share" and ?id = "sv_next_file_id s"
  have fi: "files_inv s" "clients_inv s" using inv by (simp_all add: server_inv_def)
  have table: "length (sv_files s) = MAX_FILES \<and> sv_num_files s \<le> MAX_FILES" using fi(1) by (simp add: files_inv_def)
  have hash: "take 32 (sh_hash share) = sh_hash share" using share by (simp add: share_file_ok_def)
  have s': "s' = respond ((store_file s ?f)\<lparr>sv_next_file_id := ?id + 1\<rparr>) i
      (enc_tcp_header \<lparr>th_msg_type = TCP_SHARE_ACK, th_error_code = ERR_NONE, th_data_len = 4\<rparr> @
       enc_tcp_share_ack \<lparr>sack_file_id = ?id\<rparr>)"
    using room hash by (simp add: s'_def handle_share_file_def shared_as_def Let_def)
  have fresh: "?id \<notin> f_file_id ` set (live_files s)"
    using fi(1) unfolding files_inv_def file_ok_def by auto
  have live: "live_files s' = live_files s @ [?f]"
    using dir.add_entries [OF table, of ?f] room table by (simp add: s' live_files_def)
  have clients: "sv_clients s' = sv_clients s" by (simp add: s')
  have "lookup_file s' ?id = Some ?f"
  proof -
    have "find (\<lambda>f. f_file_id f = ?id) (live_files s) = None" using fresh
      by (force simp: find_None_iff)
    then show ?thesis unfolding lookup_file_find live dir.find_append by (simp add: shared_as_def)
  qed
  then obtain k where k: "find_file s' ?id = Some k" "sv_files s' ! k = ?f" by (auto simp: lookup_file_def)
  have "find_client s' (f_owner_id ?f) = Some i"
    using find_client_active [OF fi(2) i] by (simp add: shared_as_def find_client_def clients)
  then have "sv_out (handle_request_file s' j \<lparr>rq_file_id = ?id\<rparr>) = sv_out s' @ [(c_fd (sv_clients s ! j),
      enc_tcp_header \<lparr>th_msg_type = TCP_FILE_LOCATION, th_error_code = ERR_NONE, th_data_len = 302\<rparr> @
      enc_tcp_file_location (location_of ?f (sv_clients s ! i)))]"
    using k by (simp add: handle_request_file_def clients Let_def)
  then show ?thesis using fresh live by (simp add: s')
qed

text \<open>
  C23. Share, then request. When a registered client shares a file and the directory has
  room, the acknowledgement carries a fresh file id; a request for that id by any client is
  answered with the location of exactly that file: its size, hash and (terminated) name,
  and the address and UDP port of the client that shared it.
\<close>

theorem share_then_request:
  assumes inv: "server_inv s" and i: "i < MAX_CLIENTS" "c_active (sv_clients s ! i)"
    and share: "share_file_ok share" and room: "sv_num_files s < MAX_FILES"
  defines "s' \<equiv> handle_share_file s i share"
  shows "sv_out s' = sv_out s @ [(c_fd (sv_clients s ! i),
      enc_tcp_header \<lparr>th_msg_type = TCP_SHARE_ACK, th_error_code = ERR_NONE, th_data_len = 4\<rparr> @
      enc_tcp_share_ack \<lparr>sack_file_id = sv_next_file_id s\<rparr>)] \<and>
    sv_next_file_id s \<notin> f_file_id ` set (live_files s) \<and>
    live_files s' = live_files s @ [shared_as s i share] \<and>
    sv_out (handle_request_file s' j \<lparr>rq_file_id = sv_next_file_id s\<rparr>) = sv_out s' @ [(c_fd (sv_clients s ! j),
      enc_tcp_header \<lparr>th_msg_type = TCP_FILE_LOCATION, th_error_code = ERR_NONE, th_data_len = 302\<rparr> @
      enc_tcp_file_location (location_of (shared_as s i share) (sv_clients s ! i)))]"
  using shared_is_located [OF assms(1-5)] unfolding s'_def .

theorem share_then_request_witness:
  "sv_out (handle_request_file (handle_share_file sample_server 0 sample_share) 0 \<lparr>rq_file_id = 1\<rparr>) =
    sv_out (handle_share_file sample_server 0 sample_share) @ [(5,
      enc_tcp_header \<lparr>th_msg_type = TCP_FILE_LOCATION, th_error_code = ERR_NONE, th_data_len = 302\<rparr> @
      enc_tcp_file_location \<lparr>loc_file_id = 1, loc_file_size = 2500, loc_hash = replicate 32 9,
        loc_peer_ip = 0x0A000001, loc_peer_port = 6000, loc_filename = copy_name (sh_filename sample_share)\<rparr>)]"
proof -
  have a: "0 < (MAX_CLIENTS :: nat)" "c_active (sv_clients sample_server ! 0)" "sv_num_files sample_server < MAX_FILES"
    by (simp_all add: sample_server_clients)
  have l: "location_of (shared_as sample_server 0 sample_share) (sv_clients sample_server ! 0) =
      \<lparr>loc_file_id = 1, loc_file_size = 2500, loc_hash = replicate 32 9,
        loc_peer_ip = 0x0A000001, loc_peer_port = 6000, loc_filename = copy_name (sh_filename sample_share)\<rparr>"
    by (simp add: location_of_def shared_as_def sample_server_clients) (simp add: sample_share_def sample_peer_def)
  have fd: "c_fd (sv_clients sample_server ! 0) = 5" by (simp add: sample_server_clients)
  show ?thesis
    using share_then_request [OF sample_server_inv a(1,2) sample_share_ok a(3), of 0]
    unfolding l fd sample_server_facts by blast
qed

text \<open>
  C25. Every other answer to a request. A request for an id that no listed file has is
  answered with \<^verbatim>\<open>ERR_FILE_NOT_FOUND\<close>, one for a file whose owner is not registered with
  \<^verbatim>\<open>ERR_NO_PEERS\<close>; in every case exactly one response goes to the requester and the
  directory itself does not change.
\<close>

theorem request_answers:
  "sv_out (handle_request_file s j \<lparr>rq_file_id = fid\<rparr>) = sv_out s @ [(c_fd (sv_clients s ! j),
     case find (\<lambda>f. f_file_id f = fid) (live_files s) of
       None \<Rightarrow> error_response ERR_FILE_NOT_FOUND
     | Some f \<Rightarrow>
         (case find (\<lambda>c. c_active c \<and> c_client_id c = f_owner_id f) (sv_clients s) of
            None \<Rightarrow> error_response ERR_NO_PEERS
          | Some owner \<Rightarrow>
              enc_tcp_header \<lparr>th_msg_type = TCP_FILE_LOCATION, th_error_code = ERR_NONE, th_data_len = 302\<rparr> @
              enc_tcp_file_location (location_of f owner)))] \<and>
   live_files (handle_request_file s j \<lparr>rq_file_id = fid\<rparr>) = live_files s \<and>
   sv_clients (handle_request_file s j \<lparr>rq_file_id = fid\<rparr>) = sv_clients s"
proof (cases "find_file s fid")
  case None
  then have "find (\<lambda>f. f_file_id f = fid) (live_files s) = None"
    using lookup_file_find [of s fid] by (simp add: lookup_file_def)
  then show ?thesis using None by (simp add: handle_request_file_def live_files_def)
next
  case (Some k)
  then have f: "find (\<lambda>f. f_file_id f = fid) (live_files s) = Some (sv_files s ! k)"
    using lookup_file_find [of s fid] by (simp add: lookup_file_def)
  have "find (\<lambda>c. c_active c \<and> c_client_id c = f_owner_id (sv_files s ! k)) (sv_clients s) =
      map_option (\<lambda>i. sv_clients s ! i) (find_client s (f_owner_id (sv_files s ! k)))"
    by (simp add: first_index_find find_client_def)
  then show ?thesis using Some f
    by (simp add: handle_request_file_def live_files_def Let_def split: option.split)
qed

lemma info_of_ok: "file_ok s f \<Longrightarrow> file_info_ok (info_of f)"
  by (simp add: file_ok_def file_info_ok_def info_of_def)

text \<open>
  The response to \<^verbatim>\<open>TCP_LIST_FILES\<close> describes every listed file, in order, at its place
  after the header. Its length field agrees with the payload exactly when there are at most
  220 files: 221 entries of 297 bytes no longer fit in 16 bits.
\<close>

lemma list_response:
  assumes inv: "server_inv s"
  defines "payload \<equiv> concat (map (\<lambda>f. enc_file_info (info_of f)) (live_files s))"
    and "hdr \<equiv> \<lparr>th_msg_type = TCP_FILE_LIST, th_error_code = ERR_NONE, th_data_len = of_nat (sv_num_files s * 297)\<rparr>"
  shows "sv_out (handle_list_files True s i) = sv_out s @ [(c_fd (sv_clients s ! i), enc_tcp_header hdr @ payload)] \<and>
    length payload = 297 * sv_num_files s \<and>
    (\<forall>k < sv_num_files s. dec_file_info (drop (297 * k) payload) = info_of (live_files s ! k)) \<and>
    (unat (th_data_len hdr) = length payload \<longleftrightarrow> sv_num_files s \<le> 220)"
proof -
  have fi: "files_inv s" using inv by (simp add: server_inv_def)
  then have n: "length (live_files s) = sv_num_files s" "sv_num_files s \<le> 1024"
    by (simp_all add: files_inv_def live_files_def)
  let ?blocks = "map (\<lambda>f. enc_file_info (info_of f)) (live_files s)"
  have ok: "file_info_ok (info_of f)" if "f \<in> set (live_files s)" for f
    using fi that info_of_ok unfolding files_inv_def by blast
  then have blocks: "\<forall>x \<in> set ?blocks. length x = 297" using file_info.enc_length by auto
  have len: "length payload = 297 * sv_num_files s"
    unfolding payload_def using length_concat_blocks [OF blocks] n(1) by simp
  have "dec_file_info (drop (297 * k) payload) = info_of (live_files s ! k)" if k: "k < sv_num_files s" for k
  proof -
    have "drop (297 * k) payload = concat (drop k ?blocks)"
      unfolding payload_def by (rule drop_concat_blocks [OF blocks])
    also have "drop k ?blocks = enc_file_info (info_of (live_files s ! k)) # drop (Suc k) ?blocks"
      using Cons_nth_drop_Suc [of k ?blocks] k n(1) by simp
    finally show ?thesis using file_info.dec_enc [OF ok] k n(1) by simp
  qed
  moreover have "unat (th_data_len hdr) = length payload \<longleftrightarrow> sv_num_files s \<le> 220"
  proof -
    have "unat (th_data_len hdr) = (sv_num_files s * 297) mod 65536"
      using unat_of_nat [where ?'a = 16, of "sv_num_files s * 297"] by (simp add: hdr_def)
    moreover have "(sv_num_files s * 297) mod 65536 = 297 * sv_num_files s \<longleftrightarrow> sv_num_files s \<le> 220"
    proof
      assume "(sv_num_files s * 297) mod 65536 = 297 * sv_num_files s"
      then have "297 * sv_num_files s < 65536" by (metis mod_less_divisor zero_less_numeral)
      then show "sv_num_files s \<le> 220" by simp
    qed simp
    ultimately show ?thesis unfolding len by simp
  qed
  moreover have "sv_out (handle_list_files True s i) = sv_out s @ [(c_fd (sv_clients s ! i), enc_tcp_header hdr @ payload)]"
    by (simp add: handle_list_files_def hdr_def payload_def live_files_def)
  ultimately show ?thesis using len by blast
qed

text \<open>
  C38. One message per \<^verbatim>\<open>recv\<close>. The server takes the bytes of one \<^verbatim>\<open>recv\<close> as one message and
  ignores them unless their number is exactly that of the header: a message that TCP delivers together
  with bytes after it is ignored with them, without an answer, and so is any proper first part of a message. The rest of
  a message that was cut is read as a message of its own: it may even be served as one, as when a
  request for the file with id \<^verbatim>\<open>0x05000000\<close> is cut after its header and the rest is answered with
  the list of files.
\<close>

theorem coalesced_messages_lost:
  assumes "4 \<le> length m" "length m = 4 + unat (th_data_len (dec_tcp_header m))"
  shows "(rest \<noteq> [] \<longrightarrow> process_client_message a s i (m @ rest) = s) \<and>
    (k < length m \<longrightarrow> process_client_message a s i (take k m) = s) \<and>
    process_client_message a s i (drop 4 (enc_tcp_header \<lparr>th_msg_type = TCP_REQUEST_FILE, th_error_code = ERR_NONE,
      th_data_len = 4\<rparr> @ enc_tcp_request_file \<lparr>rq_file_id = 0x05000000\<rparr>)) = handle_list_files a s i"
proof -
  obtain a0 b0 c0 d0 m' where "m = a0 # b0 # c0 # d0 # m'"
    using assms(1) by (auto simp: numeral_eq_Suc Suc_le_length_iff)
  then have "dec_tcp_header (m @ rest) = dec_tcp_header m"
    by (simp add: dec_tcp_header_def of_be16_def)
  then have "process_client_message a s i (m @ rest) = s" if "rest \<noteq> []"
    using assms that by (simp add: process_client_message_def Let_def)
  moreover have "process_client_message a s i (take k m) = s" if k: "k < length m"
  proof (cases "k < 4")
    case True
    then show ?thesis by (simp add: process_client_message_def)
  next
    case False
    then have "dec_tcp_header (take k m) = dec_tcp_header m"
      using k by (simp add: dec_tcp_header_def of_be16_def)
    then show ?thesis using assms k by (simp add: process_client_message_def Let_def)
  qed
  moreover have "drop 4 (enc_tcp_header \<lparr>th_msg_type = TCP_REQUEST_FILE, th_error_code = ERR_NONE, th_data_len = 4\<rparr> @
      enc_tcp_request_file \<lparr>rq_file_id = 0x05000000\<rparr>) = [TCP_LIST_FILES, 0, 0, 0]"
    by code_simp
  moreover have "process_client_message a s i [TCP_LIST_FILES, 0, 0, 0] = handle_list_files a s i"
    by (simp add: process_client_message_def dec_tcp_header_def of_be16_def Let_def)
  ultimately show ?thesis by metis
qed

theorem coalesced_messages_lost_witness:
  "process_client_message True sample_server 0 ([TCP_LIST_FILES, 0, 0, 0] @ [TCP_LIST_FILES, 0, 0, 0]) = sample_server"
  using coalesced_messages_lost [of "[TCP_LIST_FILES, 0, 0, 0]" "[TCP_LIST_FILES, 0, 0, 0]" True sample_server 0 0]
  by (simp add: dec_tcp_header_def of_be16_def)

lemma slot_reused:
  fixes addr1 addr2 :: sockaddr_in
  assumes "server_inv s" "first_index (\<lambda>c. \<not> c_active c) (sv_clients s) = Some i" "0 < fd1" "0 < fd2"
  defines "s1 \<equiv> accept_new_client s fd1 addr1" and "s2 \<equiv> accept_new_client (accept_new_client s fd1 addr1) fd2 addr2"
  shows "c_fd (sv_clients s1 ! i) = fd1 \<and> c_fd (sv_clients s2 ! i) = fd2 \<and> sv_closed s2 = sv_closed s \<and>
    sv_clients s2 = (sv_clients s)[i := (sv_clients s ! i)\<lparr>c_fd := fd2, c_addr := addr2, c_active := False\<rparr>]"
proof -
  have i: "i < length (sv_clients s)" using first_index_SomeD [OF assms(2)] by simp
  have s1: "s1 = s\<lparr>sv_clients := (sv_clients s)[i := (sv_clients s ! i)\<lparr>c_fd := fd1, c_addr := addr1, c_active := False\<rparr>]\<rparr>"
    using assms(2,3) by (simp add: s1_def accept_new_client_def)
  have same: "map c_active (sv_clients s1) = map c_active (sv_clients s)"
    using i first_index_SomeD [OF assms(2)] by (simp add: s1 map_update list_update_same_conv)
  have "first_index (\<lambda>c. \<not> c_active c) (sv_clients s1) = Some i"
    using first_index_map [of Not c_active "sv_clients s1"] first_index_map [of Not c_active "sv_clients s"]
      assms(2) same by simp
  then have "s2 = s1\<lparr>sv_clients := (sv_clients s1)[i := (sv_clients s1 ! i)\<lparr>c_fd := fd2, c_addr := addr2, c_active := False\<rparr>]\<rparr>"
    using assms(4) accept_new_client_def [of s1 fd2 addr2] by (simp add: s2_def flip: s1_def)
  then show ?thesis using i by (simp add: s1)
qed

lemma hangup_ignored:
  assumes "server_inv s" "find_client_by_fd s fd = Some i" "\<not> c_active (sv_clients s ! i)"
  shows "serve_client s fd RecvClosed m = s \<and> fd \<in> set (poll_fds (serve_client s fd RecvClosed m))"
proof -
  have "i < length (sv_clients s)" "c_fd (sv_clients s ! i) = fd" "0 < fd"
    using first_index_SomeD [OF assms(2) [unfolded find_client_by_fd_def]] by auto
  moreover have "serve_client s fd RecvClosed m = s"
    using assms(2,3) by (simp add: serve_client_def remove_client_def)
  ultimately show ?thesis using nth_mem [of i "sv_clients s"] by (force simp: poll_fds_def)
qed

text \<open>
  C37. Connections before registration. A connection that has not registered is lost as
  soon as another one is accepted: the entry is the first inactive one, so it is
  overwritten, the first descriptor is no longer polled and it is never closed. When such a
  connection is closed by its peer, \<^verbatim>\<open>remove_client\<close> returns at once: the descriptor is not
  closed and stays in the poll set, so every following pass finds it readable again.
\<close>

theorem unregistered_connections_leak:
  fixes addr1 addr2 :: sockaddr_in
  assumes "server_inv s" "first_index (\<lambda>c. \<not> c_active c) (sv_clients s) = Some i" "0 < fd1" "0 < fd2"
  defines "s1 \<equiv> accept_new_client s fd1 addr1" and "s2 \<equiv> accept_new_client (accept_new_client s fd1 addr1) fd2 addr2"
  shows "c_fd (sv_clients s1 ! i) = fd1 \<and> sv_closed s2 = sv_closed s \<and>
    sv_clients s2 = (sv_clients s)[i := (sv_clients s ! i)\<lparr>c_fd := fd2, c_addr := addr2, c_active := False\<rparr>] \<and>
    (find_client_by_fd s2 fd2 = Some i \<longrightarrow>
       serve_client s2 fd2 RecvClosed m = s2 \<and> fd2 \<in> set (poll_fds (serve_client s2 fd2 RecvClosed m)))"
proof -
  note r = slot_reused [OF assms(1-4), of addr1 addr2, folded s1_def s2_def]
  have "server_inv s2" unfolding s2_def using accept_new_client_inv assms(1) by blast
  moreover have "\<not> c_active (sv_clients s2 ! i)" using r first_index_SomeD [OF assms(2)] by simp
  ultimately show ?thesis using r hangup_ignored [of s2 fd2 i m] by blast
qed

theorem unregistered_connections_leak_witness:
  "6 \<in> set (poll_fds (serve_client (accept_new_client (accept_new_client init_server 5 sample_peer) 6 sample_peer) 6 RecvClosed True))"
proof -
  let ?s = "accept_new_client (accept_new_client init_server 5 sample_peer) 6 sample_peer"
  have c: "sv_clients init_server = zero_client # replicate 255 zero_client"
    by (simp add: init_server_def flip: replicate_Suc)
  then have first: "first_index (\<lambda>c. \<not> c_active c) (sv_clients init_server) = Some 0"
    by (simp add: first_index_def zero_client_def)
  note leak = unregistered_connections_leak [OF init_server_inv first, of 5 6 sample_peer sample_peer True]
  have "sv_clients ?s = (sv_clients init_server)[0 := (sv_clients init_server ! 0)\<lparr>c_fd := 6, c_addr := sample_peer, c_active := False\<rparr>]"
    using leak by auto
  then have "find_client_by_fd ?s 6 = Some 0" unfolding c by (simp add: find_client_by_fd_def first_index_def)
  then show ?thesis using leak by auto
qed

end
