(* ===== verification/Shared_Files.thy ===== *)
theory Shared_Files
  imports P2P_Prelude
begin

text \<open>
  The client's table of the files it shares (\<^verbatim>\<open>share_file_logic.c\<close>): a static array of
  \<^verbatim>\<open>MAX_SHARED_FILES\<close> entries, a counter, an append that refuses a full table and a
  scan by file id. It is an instance of the registry interface.
\<close>

abbreviation (input) MAX_SHARED_FILES :: "'a::numeral" where "MAX_SHARED_FILES \<equiv> 1024"

record cl_shared_file_t =
  cf_file_id :: u32
  cf_file_size :: u32
  cf_hash :: bytes
  cf_file_name :: bytes

record share_table =
  st_table :: "cl_shared_file_t list"
  st_num_files :: nat

definition empty_share_table :: share_table where
  "empty_share_table =
     \<lparr>st_table = replicate MAX_SHARED_FILES
        \<lparr>cf_file_id = 0, cf_file_size = 0, cf_hash = replicate 32 0, cf_file_name = replicate 256 0\<rparr>,
      st_num_files = 0\<rparr>"

definition add_shared_file :: "share_table \<Rightarrow> u32 \<Rightarrow> u32 \<Rightarrow> bytes \<Rightarrow> bytes \<Rightarrow> share_table" where
  "add_shared_file t file_id fsize hash filename =
     (if st_num_files t \<ge> MAX_SHARED_FILES then t
      else t\<lparr>st_table := (st_table t)[st_num_files t :=
               \<lparr>cf_file_id = file_id, cf_file_size = fsize, cf_hash = take 32 hash,
                cf_file_name = copy_name filename\<rparr>],
             st_num_files := st_num_files t + 1\<rparr>)"

fun find_shared_from :: "share_table \<Rightarrow> u32 \<Rightarrow> nat \<Rightarrow> cl_shared_file_t list \<Rightarrow> cl_shared_file_t option" where
  "find_shared_from t file_id i [] = None"
| "find_shared_from t file_id i (e # es) =
     (if i < st_num_files t
      then if cf_file_id e = file_id then Some e else find_shared_from t file_id (i + 1) es
      else None)"

definition find_shared_file_by_id :: "share_table \<Rightarrow> u32 \<Rightarrow> cl_shared_file_t option" where
  "find_shared_file_by_id t file_id = find_shared_from t file_id 0 (st_table t)"

section \<open>The table is a registry\<close>

definition share_entries :: "share_table \<Rightarrow> cl_shared_file_t list" where
  "share_entries t = take (st_num_files t) (st_table t)"

definition share_table_ok :: "share_table \<Rightarrow> bool" where
  "share_table_ok t \<longleftrightarrow> length (st_table t) = MAX_SHARED_FILES \<and> st_num_files t \<le> MAX_SHARED_FILES
     \<and> (\<forall>e \<in> set (share_entries t). length (cf_hash e) = 32 \<and> length (cf_file_name e) = 256)"

definition add_share_entry :: "share_table \<Rightarrow> cl_shared_file_t \<Rightarrow> share_table" where
  "add_share_entry t e =
     add_shared_file t (cf_file_id e) (cf_file_size e) (cf_hash e) (cf_file_name e)"

lemma find_shared_from_take:
  "find_shared_from t k i es = find (\<lambda>e. cf_file_id e = k) (take (st_num_files t - i) es)"
proof (induction es arbitrary: i)
  case (Cons e es)
  then show ?case by (cases "st_num_files t - i") (auto simp: diff_Suc split: nat.splits)
qed simp

lemma find_shared_entries:
  "find_shared_file_by_id t k = find (\<lambda>e. cf_file_id e = k) (share_entries t)"
  by (simp add: find_shared_file_by_id_def find_shared_from_take share_entries_def)

text \<open>
  The entry that a successful append stores: the hash and the name are copied into
  arrays of 32 and 256 bytes.
\<close>

definition stored_entry :: "cl_shared_file_t \<Rightarrow> cl_shared_file_t" where
  "stored_entry e = e\<lparr>cf_hash := take 32 (cf_hash e), cf_file_name := copy_name (cf_file_name e)\<rparr>"

lemma add_shared_entries:
  assumes "share_table_ok t" "st_num_files t < MAX_SHARED_FILES"
  shows "share_entries (add_shared_file t i n h f) =
    share_entries t @ [\<lparr>cf_file_id = i, cf_file_size = n, cf_hash = take 32 h, cf_file_name = copy_name f\<rparr>]"
  using assms by (simp add: add_shared_file_def share_entries_def share_table_ok_def
      take_Suc_conv_app_nth)

lemma add_shared_ok: "share_table_ok t \<Longrightarrow> length h = 32 \<Longrightarrow> share_table_ok (add_shared_file t i n h f)"
proof (cases "st_num_files t < MAX_SHARED_FILES")
  case True
  assume "share_table_ok t" "length h = 32"
  with True show ?thesis
    using add_shared_entries [of t i n h f]
    by (auto simp: share_table_ok_def add_shared_file_def)
next
  case False
  assume "share_table_ok t"
  with False show ?thesis by (simp add: add_shared_file_def)
qed

lemma empty_share_table_ok: "share_table_ok empty_share_table"
  by (simp add: share_table_ok_def empty_share_table_def share_entries_def)

interpretation shared: registry share_entries cf_file_id find_shared_file_by_id add_share_entry
  stored_entry MAX_SHARED_FILES "\<lambda>t. length (st_table t) = MAX_SHARED_FILES \<and> st_num_files t \<le> MAX_SHARED_FILES"
proof unfold_locales
  fix t :: share_table and e :: cl_shared_file_t
  assume t: "length (st_table t) = MAX_SHARED_FILES \<and> st_num_files t \<le> MAX_SHARED_FILES"
  show "share_entries (add_share_entry t e) = share_entries t @ [stored_entry e]"
    if "length (share_entries t) < MAX_SHARED_FILES"
    using t that
    by (simp add: add_share_entry_def add_shared_file_def share_entries_def stored_entry_def
        take_Suc_conv_app_nth)
  show "add_share_entry t e = t" if "MAX_SHARED_FILES \<le> length (share_entries t)"
    using t that by (simp add: add_share_entry_def add_shared_file_def share_entries_def)
  show "length (st_table (add_share_entry t e)) = MAX_SHARED_FILES \<and>
      st_num_files (add_share_entry t e) \<le> MAX_SHARED_FILES"
    using t by (simp add: add_share_entry_def add_shared_file_def)
qed (simp_all add: find_shared_entries stored_entry_def)

text \<open>
  C32. Looking up a shared file. After a file has been added to a table with room, a lookup
  of its id finds it with its size, hash and name (cut to 255 bytes and terminated), unless
  an older entry has the same id, which wins; lookups of other ids are not affected. A full
  table refuses the file and stays as it is.
\<close>

theorem shared_lookup_after_add:
  assumes "share_table_ok t" "length h = 32"
  shows "find_shared_file_by_id (add_shared_file t i n h f) k =
    (if st_num_files t < MAX_SHARED_FILES
     then case find_shared_file_by_id t k of
            None \<Rightarrow> if i = k then Some \<lparr>cf_file_id = i, cf_file_size = n, cf_hash = h, cf_file_name = copy_name f\<rparr> else None
          | Some e \<Rightarrow> Some e
     else find_shared_file_by_id t k)"
proof -
  let ?e = "\<lparr>cf_file_id = i, cf_file_size = n, cf_hash = h, cf_file_name = f\<rparr>"
  have t: "length (st_table t) = MAX_SHARED_FILES \<and> st_num_files t \<le> MAX_SHARED_FILES"
    using assms(1) by (simp add: share_table_ok_def)
  have len: "length (share_entries t) = st_num_files t" using t by (simp add: share_entries_def)
  have add: "add_shared_file t i n h f = add_share_entry t ?e" by (simp add: add_share_entry_def)
  show ?thesis unfolding add
    using shared.lookup_add [OF t, of ?e k] shared.add_full [OF t, of ?e] len assms(2)
    by (auto simp: stored_entry_def split: option.split)
qed

theorem shared_lookup_after_add_witness:
  "find_shared_file_by_id (add_shared_file empty_share_table 7 2500 (replicate 32 9) [97, 0]) 7 =
    Some \<lparr>cf_file_id = 7, cf_file_size = 2500, cf_hash = replicate 32 9, cf_file_name = copy_name [97, 0]\<rparr>"
proof -
  have "find_shared_file_by_id empty_share_table 7 = None"
    by (simp add: find_shared_entries share_entries_def empty_share_table_def)
  then show ?thesis
    using shared_lookup_after_add [OF empty_share_table_ok, of "replicate 32 9" 7 2500 "[97, 0]" 7]
    by (simp add: empty_share_table_def)
qed

end
