(* ===== verification/Client_TCP.thy ===== *)
theory Client_TCP
  imports Common_Utils Shared_Files SR_Sender SR_Receiver
begin

text \<open>
  The client's dialogue with the directory server (\<^verbatim>\<open>client.c\<close>: \<^verbatim>\<open>share\<close>, \<^verbatim>\<open>list\<close>, \<^verbatim>\<open>quit\<close> and the
  registration in \<^verbatim>\<open>main\<close>), over a TCP socket that splits and joins what is sent.

  A socket has the bytes it accepted, the answers \<^verbatim>\<open>send\<close> will give (none: everything is
  accepted) and the segments \<^verbatim>\<open>recv\<close> will find; without a segment \<^verbatim>\<open>recv\<close> blocks. A function
  of the client returns its C result, or \<open>None\<close> when it blocks for ever, with the new state.
\<close>

section \<open>State\<close>

datatype segment = SegError | SegClosed | SegData bytes

record tcp_sock =
  tk_out :: bytes
  tk_accept :: "int list"
  tk_in :: "segment list"

datatype datagram = DgramError | Dgram bytes sockaddr_in

text \<open>
  The process: its globals, its sockets, the files, and what it holds of the heap and of the table of
  streams. \<open>cl_heap\<close> has the blocks that were allocated for files to send, in the order of their
  allocation, \<open>None\<close> when freed; \<^verbatim>\<open>global_file_buffer\<close> is \<^verbatim>\<open>NULL\<close> (\<open>None\<close>) or the index of a block.
  \<open>cl_open_files\<close> counts the \<^verbatim>\<open>FILE\<close> streams that are open between calls; \<^verbatim>\<open>share\<close> and \<^verbatim>\<open>get\<close>
  close the stream they open, on every path.
\<close>

record client =
  cl_tcp :: tcp_sock
  cl_table :: share_table
  cl_env :: udp_env
  cl_udp_in :: "datagram list"
  cl_fs :: file_system
  cl_shown :: "file_info_t list"
  cl_sender :: sr_sender_t
  cl_file_buffer :: "nat option"
  cl_transfer_active :: bool
  cl_running :: bool
  cl_heap :: "bytes option list"
  cl_open_files :: nat

text \<open>What the operating system and the hash library answer during a call.\<close>

record os_answers =
  os_sha256 :: "bytes \<Rightarrow> bytes"
  os_ctx_ok :: bool
  os_old_hash :: bytes
  os_file :: file_faults
  os_malloc :: "nat \<Rightarrow> bytes option"
  os_sendto :: "int option"

section \<open>The loops around send and recv\<close>

definition sock_send :: "tcp_sock \<Rightarrow> bytes \<Rightarrow> int \<times> tcp_sock" where
  "sock_send k data =
     (case tk_accept k of
        [] \<Rightarrow> (int (length data), k\<lparr>tk_out := tk_out k @ data\<rparr>)
      | n # ns \<Rightarrow>
          if n < 0 then (n, k\<lparr>tk_accept := ns\<rparr>)
          else
            let m = min (nat n) (length data)
            in (int m, k\<lparr>tk_out := tk_out k @ take m data, tk_accept := ns\<rparr>))"

lemma sock_send_le: "sock_send k data = (n, k') \<Longrightarrow> n \<le> int (length data)"
  by (auto simp: sock_send_def Let_def split: list.splits if_splits)

function send_all :: "tcp_sock \<Rightarrow> bytes \<Rightarrow> bool \<times> tcp_sock" where
  "send_all k data =
     (if data = [] then (True, k)
      else
        case sock_send k data of
          (n, k') \<Rightarrow> if n \<le> 0 then (False, k') else send_all k' (drop (nat n) data))"
  by pat_completeness auto
termination
  by (relation "measure (\<lambda>(k, data). length data)") auto

definition sock_recv :: "tcp_sock \<Rightarrow> nat \<Rightarrow> (int \<times> bytes) option \<times> tcp_sock" where
  "sock_recv k cap =
     (case tk_in k of
        [] \<Rightarrow> (None, k)
      | SegError # r \<Rightarrow> (Some (-1, []), k\<lparr>tk_in := r\<rparr>)
      | SegClosed # r \<Rightarrow> (Some (0, []), k)
      | SegData d # r \<Rightarrow>
          if length d \<le> cap then (Some (int (length d), d), k\<lparr>tk_in := r\<rparr>)
          else (Some (int cap, take cap d), k\<lparr>tk_in := SegData (drop cap d) # r\<rparr>))"

lemma sock_recv_length: "sock_recv k cap = (Some (n, d), k') \<Longrightarrow> 0 < n \<Longrightarrow> n = int (length d) \<and> length d \<le> cap"
  by (auto simp: sock_recv_def split: list.splits segment.splits if_splits)

datatype recv_outcome = Got bytes | Broken | Blocked

function recv_loop :: "tcp_sock \<Rightarrow> nat \<Rightarrow> bytes \<Rightarrow> recv_outcome \<times> tcp_sock" where
  "recv_loop k need acc =
     (if need = 0 then (Got acc, k)
      else
        case sock_recv k need of
          (None, k') \<Rightarrow> (Blocked, k')
        | (Some (n, d), k') \<Rightarrow>
            if n \<le> 0 then (Broken, k') else recv_loop k' (need - length d) (acc @ d))"
  by pat_completeness auto
termination
  by (relation "measure (\<lambda>(k, need, acc). need)") (auto dest!: sock_recv_length [OF sym] intro!: diff_less simp flip: length_greater_0_conv)

declare send_all.simps [simp del]
declare recv_loop.simps [simp del]

section \<open>Commands\<close>

definition share_message :: "bytes \<Rightarrow> u32 \<Rightarrow> bytes \<Rightarrow> bytes" where
  "share_message filename fsize hash =
     enc_tcp_header \<lparr>th_msg_type = TCP_SHARE_FILE, th_error_code = ERR_NONE, th_data_len = 292\<rparr> @
     enc_tcp_share_file \<lparr>sh_file_size = fsize, sh_hash = take 32 hash, sh_filename = copy_name filename\<rparr>"

definition share :: "os_answers \<Rightarrow> client \<Rightarrow> bytes option \<Rightarrow> int option \<times> client" where
  "share os c filename =
     (case filename of
        None \<Rightarrow> (Some 1, c)
      | Some name \<Rightarrow>
          (case read_file_to_buffer (cl_fs c) (os_file os) name of
             (res, None) \<Rightarrow> (Some 1, c)
           | (res, Some buff) \<Rightarrow>
               if res \<noteq> 0 then (Some 1, c)
               else if length buff > 4294967295 then (Some 1, c)
               else
                 let hash = compute_sha256 (os_sha256 os) (os_ctx_ok os) (os_old_hash os) buff;
                     (sent, k1) = send_all (cl_tcp c) (share_message name (of_nat (length buff)) hash)
                 in if \<not> sent then (Some 1, c\<lparr>cl_tcp := k1\<rparr>)
                    else
                      (case recv_loop k1 4 [] of
                         (Broken, k2) \<Rightarrow> (Some 1, c\<lparr>cl_tcp := k2\<rparr>)
                       | (Blocked, k2) \<Rightarrow> (None, c\<lparr>cl_tcp := k2\<rparr>)
                       | (Got h, k2) \<Rightarrow>
                           let hdr = dec_tcp_header h
                           in if th_msg_type hdr = TCP_ERROR then (Some 1, c\<lparr>cl_tcp := k2\<rparr>)
                              else if th_msg_type hdr \<noteq> TCP_SHARE_ACK then (Some 1, c\<lparr>cl_tcp := k2\<rparr>)
                              else if th_data_len hdr \<noteq> 4 then (Some 1, c\<lparr>cl_tcp := k2\<rparr>)
                              else
                                (case recv_loop k2 4 [] of
                                   (Broken, k3) \<Rightarrow> (Some 1, c\<lparr>cl_tcp := k3\<rparr>)
                                 | (Blocked, k3) \<Rightarrow> (None, c\<lparr>cl_tcp := k3\<rparr>)
                                 | (Got b, k3) \<Rightarrow>
                                     let file_id = sack_file_id (dec_tcp_share_ack b)
                                     in (Some 0, c\<lparr>cl_tcp := k3,
                                           cl_table := add_shared_file (cl_table c) file_id
                                             (of_nat (length buff)) hash name\<rparr>)))))"

definition list_message :: bytes where
  "list_message = enc_tcp_header \<lparr>th_msg_type = TCP_LIST_FILES, th_error_code = ERR_NONE, th_data_len = 0\<rparr>"

text \<open>\<^verbatim>\<open>list\<close> prints one line for each entry; the model keeps the entries it prints.\<close>

definition list_files :: "os_answers \<Rightarrow> client \<Rightarrow> int option \<times> client" where
  "list_files os c =
     (case send_all (cl_tcp c) list_message of
        (sent, k1) \<Rightarrow>
          if \<not> sent then (Some 1, c\<lparr>cl_tcp := k1\<rparr>)
          else
            (case recv_loop k1 4 [] of
               (Broken, k2) \<Rightarrow> (Some 1, c\<lparr>cl_tcp := k2\<rparr>)
             | (Blocked, k2) \<Rightarrow> (None, c\<lparr>cl_tcp := k2\<rparr>)
             | (Got h, k2) \<Rightarrow>
                 let hdr = dec_tcp_header h; body_len = unat (th_data_len hdr)
                 in if th_msg_type hdr = TCP_ERROR then (Some 1, c\<lparr>cl_tcp := k2\<rparr>)
                    else if th_msg_type hdr \<noteq> TCP_FILE_LIST then (Some 1, c\<lparr>cl_tcp := k2\<rparr>)
                    else if body_len = 0 then (Some 0, c\<lparr>cl_tcp := k2, cl_shown := []\<rparr>)
                    else if body_len mod 297 \<noteq> 0 then (Some 1, c\<lparr>cl_tcp := k2\<rparr>)
                    else if os_malloc os body_len = None then (Some 1, c\<lparr>cl_tcp := k2\<rparr>)
                    else
                      (case recv_loop k2 body_len [] of
                         (Broken, k3) \<Rightarrow> (Some 1, c\<lparr>cl_tcp := k3\<rparr>)
                       | (Blocked, k3) \<Rightarrow> (None, c\<lparr>cl_tcp := k3\<rparr>)
                       | (Got b, k3) \<Rightarrow>
                           (Some 0, c\<lparr>cl_tcp := k3,
                              cl_shown := map (\<lambda>i. dec_file_info (drop (297 * i) b)) [0 ..< body_len div 297]\<rparr>))))"

definition quit :: "client \<Rightarrow> client" where
  "quit c =
     c\<lparr>cl_tcp := snd (send_all (cl_tcp c)
         (enc_tcp_header \<lparr>th_msg_type = TCP_UNREGISTER, th_error_code = ERR_NONE, th_data_len = 0\<rparr>))\<rparr>"

section \<open>Registration\<close>

definition register_message :: "u16 \<Rightarrow> bytes" where
  "register_message udp_port =
     enc_tcp_header \<lparr>th_msg_type = TCP_REGISTER, th_error_code = ERR_NONE, th_data_len = 2\<rparr> @
     enc_tcp_register \<lparr>reg_udp_port = udp_port\<rparr>"

text \<open>The handshake of \<^verbatim>\<open>main\<close>: \<open>Inl\<close> the exit code (\<open>None\<close> blocked), or \<open>Inr\<close> the client id.\<close>

definition register_client :: "client \<Rightarrow> u16 \<Rightarrow> (int option + u32) \<times> client" where
  "register_client c udp_port =
     (case send_all (cl_tcp c) (register_message udp_port) of
        (sent, k1) \<Rightarrow>
          if \<not> sent then (Inl (Some 1), c\<lparr>cl_tcp := k1\<rparr>)
          else
            (case recv_loop k1 4 [] of
               (Broken, k2) \<Rightarrow> (Inl (Some 1), c\<lparr>cl_tcp := k2\<rparr>)
             | (Blocked, k2) \<Rightarrow> (Inl None, c\<lparr>cl_tcp := k2\<rparr>)
             | (Got h, k2) \<Rightarrow>
                 let hdr = dec_tcp_header h
                 in if th_msg_type hdr = TCP_ERROR then (Inl (Some 1), c\<lparr>cl_tcp := k2\<rparr>)
                    else if th_msg_type hdr \<noteq> TCP_REGISTER_ACK then (Inl (Some 1), c\<lparr>cl_tcp := k2\<rparr>)
                    else if th_data_len hdr \<noteq> 4 then (Inl (Some 1), c\<lparr>cl_tcp := k2\<rparr>)
                    else
                      (case recv_loop k2 4 [] of
                         (Broken, k3) \<Rightarrow> (Inl (Some 1), c\<lparr>cl_tcp := k3\<rparr>)
                       | (Blocked, k3) \<Rightarrow> (Inl None, c\<lparr>cl_tcp := k3\<rparr>)
                       | (Got b, k3) \<Rightarrow>
                           (Inr (rack_client_id (dec_tcp_register_ack b)), c\<lparr>cl_tcp := k3\<rparr>))))"

section \<open>The loops deliver the stream\<close>

fun stream_of :: "segment list \<Rightarrow> bytes" where
  "stream_of (SegData d # r) = d @ stream_of r"
| "stream_of segs = []"

definition segments_ok :: "segment list \<Rightarrow> bool" where
  "segments_ok segs \<longleftrightarrow> SegData [] \<notin> set segs"

definition stream_read :: "tcp_sock \<Rightarrow> nat \<Rightarrow> tcp_sock \<Rightarrow> bool" where
  "stream_read k n k' \<longleftrightarrow> stream_of (tk_in k') = drop n (stream_of (tk_in k)) \<and> segments_ok (tk_in k') \<and>
     tk_out k' = tk_out k \<and> tk_accept k' = tk_accept k"

lemma recv_loop_stream:
  assumes "segments_ok (tk_in k)" "need \<le> length (stream_of (tk_in k))"
  shows "\<exists>k'. recv_loop k need acc = (Got (acc @ take need (stream_of (tk_in k))), k') \<and> stream_read k need k'"
  using assms
proof (induction k need acc rule: recv_loop.induct)
  case (1 k need acc)
  show ?case
  proof (cases "need = 0")
    case True
    then have "recv_loop k need acc = (Got acc, k)" by (simp add: recv_loop.simps)
    then show ?thesis using True "1.prems" by (simp add: stream_read_def)
  next
    case False
    then obtain d r where seg: "tk_in k = SegData d # r" "d \<noteq> []"
      using "1.prems" by (cases "tk_in k" rule: stream_of.cases) (auto simp: segments_ok_def)
    show ?thesis
    proof (cases "length d \<le> need")
      case True
      let ?k = "k\<lparr>tk_in := r\<rparr>"
      have step: "sock_recv k need = (Some (int (length d), d), ?k)"
        using seg True by (simp add: sock_recv_def)
      have "\<not> int (length d) \<le> 0" using seg(2) by simp
      moreover have "need - length d \<le> length (stream_of (tk_in ?k))" using "1.prems"(2) seg(1) by simp
      ultimately obtain k' where "recv_loop ?k (need - length d) (acc @ d) =
          (Got ((acc @ d) @ take (need - length d) (stream_of (tk_in ?k))), k')" "stream_read ?k (need - length d) k'"
        using "1.IH" [OF False step [symmetric] refl refl] "1.prems" seg by (auto simp: segments_ok_def)
      then show ?thesis using False step seg True
        by (simp add: recv_loop.simps [of k need acc] stream_read_def)
    next
      case long: False
      let ?k = "k\<lparr>tk_in := SegData (drop need d) # r\<rparr>"
      have step: "sock_recv k need = (Some (int need, take need d), ?k)"
        using seg long by (simp add: sock_recv_def)
      have "recv_loop k need acc = (Got (acc @ take need d), ?k)"
        using False step long by (simp add: recv_loop.simps [of k need acc] recv_loop.simps [of ?k 0])
      then show ?thesis using seg long "1.prems"(1) by (auto simp: stream_read_def segments_ok_def)
    qed
  qed
qed

lemma recv_loop_Got:
  assumes "segments_ok (tk_in k)" "stream_of (tk_in k) = b @ rest" "length b = n"
  obtains k' where "recv_loop k n [] = (Got b, k')" "stream_of (tk_in k') = rest" "segments_ok (tk_in k')"
    "tk_out k' = tk_out k"
  using recv_loop_stream [OF assms(1), of n "[]"] assms(2,3) by (auto simp: stream_read_def)

lemma send_all_accepts:
  assumes "\<forall>n \<in> set (tk_accept k). 0 < n"
  shows "\<exists>k'. send_all k data = (True, k') \<and> tk_out k' = tk_out k @ data \<and> tk_in k' = tk_in k"
  using assms
proof (induction k data rule: send_all.induct)
  case (1 k data)
  show ?case
  proof (cases "data = []")
    case True
    then show ?thesis by (simp add: send_all.simps)
  next
    case False
    obtain n k1 where step: "sock_send k data = (n, k1)" by fastforce
    have facts: "0 < n" "tk_out k1 = tk_out k @ take (nat n) data" "tk_in k1 = tk_in k"
      "\<forall>n \<in> set (tk_accept k1). 0 < n"
      using step False "1.prems" by (auto simp: sock_send_def Let_def split: list.splits if_splits)
    then obtain k' where "send_all k1 (drop (nat n) data) = (True, k')"
      "tk_out k' = tk_out k1 @ drop (nat n) data" "tk_in k' = tk_in k1"
      using "1.IH" [OF False step [symmetric]] by auto
    then show ?thesis using False step facts by (simp add: send_all.simps [of k data])
  qed
qed

section \<open>Properties of the dialogue\<close>

definition sample_os :: os_answers where
  "sample_os = \<lparr>os_sha256 = (\<lambda>data. replicate 32 (of_nat (length data))), os_ctx_ok = True,
     os_old_hash = replicate 32 0, os_file = no_faults, os_malloc = (\<lambda>n. Some (replicate n 0)), os_sendto = None\<rparr>"

definition zero_sender :: sr_sender_t where
  "zero_sender = \<lparr>s_udp_fd = 0, s_peer_addr = \<lparr>sin_port = 0, sin_addr = 0\<rparr>, s_base = 0, s_next_seq = 0,
     s_window = replicate WINDOW_SIZE empty_send_entry, s_file_data = [], s_file_size = 0,
     s_num_chunks = 0, s_chunks_acked = 0, s_lossy_link = False\<rparr>"

definition sample_client :: "int list \<Rightarrow> segment list \<Rightarrow> client" where
  "sample_client accepts segs = \<lparr>cl_tcp = \<lparr>tk_out = [], tk_accept = accepts, tk_in = segs\<rparr>,
     cl_table = empty_share_table, cl_env = sample_env, cl_udp_in = [], cl_fs = [[97] \<mapsto> sample_file],
     cl_shown = [], cl_sender = zero_sender, cl_file_buffer = None, cl_transfer_active = False, cl_running = True, cl_heap = [], cl_open_files = 0\<rparr>"

text \<open>
  Reading from a stream. However TCP splits and joins the bytes on the way, the loop
  around \<^verbatim>\<open>recv\<close> returns exactly the next bytes it was asked for and leaves the rest of the
  stream for the next read; and the loop around \<^verbatim>\<open>send\<close> sends the whole message, in order,
  however little each call accepts.
\<close>

lemma stream_loops_exact:
  assumes "segments_ok (tk_in k)" "n \<le> length (stream_of (tk_in k))" "\<forall>a \<in> set (tk_accept k). 0 < a"
  shows "(\<exists>k'. recv_loop k n [] = (Got (take n (stream_of (tk_in k))), k') \<and>
      stream_of (tk_in k') = drop n (stream_of (tk_in k))) \<and>
    (\<exists>k'. send_all k data = (True, k') \<and> tk_out k' = tk_out k @ data \<and> tk_in k' = tk_in k)"
  using recv_loop_stream [OF assms(1,2), of "[]"] send_all_accepts [OF assms(3), of data]
  by (auto simp: stream_read_def)

lemma header_reply:
  fixes h :: tcp_header_t
  assumes "\<forall>a \<in> set (tk_accept k). 0 < a" "segments_ok (tk_in k)" "stream_of (tk_in k) = enc_tcp_header h @ body"
  obtains k1 k2 where "send_all k msg = (True, k1)" "recv_loop k1 4 [] = (Got (enc_tcp_header h), k2)"
    "stream_of (tk_in k2) = body" "segments_ok (tk_in k2)" "tk_out k2 = tk_out k @ msg"
proof -
  obtain k1 where k1: "send_all k msg = (True, k1)" "tk_out k1 = tk_out k @ msg" "tk_in k1 = tk_in k"
    using send_all_accepts [OF assms(1)] by blast
  obtain k2 where "recv_loop k1 4 [] = (Got (enc_tcp_header h), k2)" "stream_of (tk_in k2) = body"
    "segments_ok (tk_in k2)" "tk_out k2 = tk_out k1"
    using recv_loop_Got [of k1 "enc_tcp_header h" body 4] assms(2,3) k1(3) by (auto simp: tcp_header.enc_length)
  then show thesis using that k1 by simp
qed

lemma dec_header_bare [simp]: "dec_tcp_header (enc_tcp_header h) = h"
  using tcp_header.dec_enc [of h "[]"] by simp

lemma share_answered:
  assumes readable: "read_file_to_buffer (cl_fs c) (os_file os) name = (0, Some buff)" "length buff \<le> 4294967295"
    and sock: "\<forall>a \<in> set (tk_accept (cl_tcp c)). 0 < a" "segments_ok (tk_in (cl_tcp c))"
      "stream_of (tk_in (cl_tcp c)) = enc_tcp_header h @ body"
    and body: "th_msg_type h = TCP_SHARE_ACK \<Longrightarrow> th_data_len h = 4 \<and> body = enc_tcp_share_ack a @ rest"
  defines "hash \<equiv> compute_sha256 (os_sha256 os) (os_ctx_ok os) (os_old_hash os) buff"
  shows "\<exists>c'. share os c (Some name) = (Some (if th_msg_type h = TCP_SHARE_ACK then 0 else 1), c') \<and>
    tk_out (cl_tcp c') = tk_out (cl_tcp c) @ share_message name (of_nat (length buff)) hash \<and>
    stream_of (tk_in (cl_tcp c')) = (if th_msg_type h = TCP_SHARE_ACK then rest else body) \<and>
    cl_table c' = (if th_msg_type h = TCP_SHARE_ACK
      then add_shared_file (cl_table c) (sack_file_id a) (of_nat (length buff)) hash name else cl_table c)"
proof -
  obtain k1 k2 where k: "send_all (cl_tcp c) (share_message name (of_nat (length buff)) hash) = (True, k1)"
    "recv_loop k1 4 [] = (Got (enc_tcp_header h), k2)" "stream_of (tk_in k2) = body" "segments_ok (tk_in k2)"
    "tk_out k2 = tk_out (cl_tcp c) @ share_message name (of_nat (length buff)) hash"
    by (rule header_reply [OF sock])
  show ?thesis
  proof (cases "th_msg_type h = TCP_SHARE_ACK")
    case True
    then have b: "th_data_len h = 4" "body = enc_tcp_share_ack a @ rest" using body by simp_all
    obtain k3 where k3: "recv_loop k2 4 [] = (Got (enc_tcp_share_ack a), k3)" "stream_of (tk_in k3) = rest"
      "segments_ok (tk_in k3)" "tk_out k3 = tk_out k2"
      by (rule recv_loop_Got [OF k(4), of "enc_tcp_share_ack a" rest 4])
        (use k(3) b(2) in \<open>simp_all add: tcp_share_ack.enc_length\<close>)
    have "dec_tcp_share_ack (enc_tcp_share_ack a) = a" using tcp_share_ack.dec_enc [of a "[]"] by simp
    then show ?thesis using True readable b(1) k k3 by (simp add: share_def Let_def hash_def)
  next
    case False
    then show ?thesis using readable k by (simp add: share_def Let_def hash_def)
  qed
qed

text \<open>
  C28. Sharing a file, client side. If the file can be read and is at most \<^verbatim>\<open>UINT32_MAX\<close>
  bytes, \<^verbatim>\<open>share\<close> sends exactly one \<^verbatim>\<open>TCP_SHARE_FILE\<close> message with its name, size and hash;
  when the server's acknowledgement comes, in whatever pieces, it returns 0 and the table
  has the file under the id of the acknowledgement. When the server answers with an error,
  it returns 1 and the table is unchanged.
\<close>

theorem share_dialogue:
  assumes readable: "read_file_to_buffer (cl_fs c) (os_file os) name = (0, Some buff)" "length buff \<le> 4294967295"
    and sock: "\<forall>a \<in> set (tk_accept (cl_tcp c)). 0 < a" "segments_ok (tk_in (cl_tcp c))"
      "stream_of (tk_in (cl_tcp c)) = enc_tcp_header h @ body"
    and body: "th_msg_type h = TCP_SHARE_ACK \<Longrightarrow> th_data_len h = 4 \<and> body = enc_tcp_share_ack a @ rest"
  defines "hash \<equiv> compute_sha256 (os_sha256 os) (os_ctx_ok os) (os_old_hash os) buff"
  shows "\<exists>c'. share os c (Some name) = (Some (if th_msg_type h = TCP_SHARE_ACK then 0 else 1), c') \<and>
    tk_out (cl_tcp c') = tk_out (cl_tcp c) @ share_message name (of_nat (length buff)) hash \<and>
    stream_of (tk_in (cl_tcp c')) = (if th_msg_type h = TCP_SHARE_ACK then rest else body) \<and>
    cl_table c' = (if th_msg_type h = TCP_SHARE_ACK
      then add_shared_file (cl_table c) (sack_file_id a) (of_nat (length buff)) hash name else cl_table c)"
  using share_answered [OF assms(1-6)] unfolding hash_def .

theorem share_dialogue_witness:
  "\<exists>c'. share sample_os (sample_client [100] [SegData [4, 0, 0], SegData [4, 0, 0, 0, 7]]) (Some [97, 0]) = (Some 0, c') \<and>
    find_shared_file_by_id (cl_table c') 7 \<noteq> None"
proof -
  let ?c = "sample_client [100] [SegData [4, 0, 0], SegData [4, 0, 0, 0, 7]]"
  let ?h = "\<lparr>th_msg_type = TCP_SHARE_ACK, th_error_code = 0, th_data_len = 4\<rparr>" and ?a = "\<lparr>sack_file_id = 7\<rparr>"
  have stream: "stream_of (tk_in (cl_tcp ?c)) = enc_tcp_header ?h @ enc_tcp_share_ack ?a"
    by (simp add: sample_client_def enc_tcp_header_def enc_tcp_share_ack_def be16_def be32_def)
  have read: "read_file_to_buffer (cl_fs ?c) (os_file sample_os) [97, 0] = (0, Some sample_file)"
    by (simp add: sample_client_def sample_os_def read_file_to_buffer_def no_faults_def transferred_def c_string_def)
  obtain c' where c': "share sample_os ?c (Some [97, 0]) = (Some 0, c')"
    "cl_table c' = add_shared_file (cl_table ?c) 7 2500 (os_sha256 sample_os sample_file) [97, 0]"
    using share_dialogue [OF read _ _ _ stream, of ?a "[]"]
    by (auto simp: sample_client_def sample_os_def segments_ok_def compute_sha256_def)
  have "share_entries (cl_table c') \<noteq> []" "cf_file_id (share_entries (cl_table c') ! 0) = 7"
    using add_shared_entries [OF empty_share_table_ok, of 7 2500 "os_sha256 sample_os sample_file" "[97, 0]"] c'(2)
    by (simp_all add: sample_client_def empty_share_table_def share_entries_def)
  then have "find_shared_file_by_id (cl_table c') 7 \<noteq> None"
    by (cases "share_entries (cl_table c')") (simp_all add: find_shared_entries)
  then show ?thesis using c'(1) by blast
qed

end
