(* ===== verification/Client_Get.thy ===== *)
theory Client_Get
  imports Client_TCP
begin

text \<open>
  Fetching a file (\<^verbatim>\<open>get\<close> of \<^verbatim>\<open>client.c\<close>): ask the server where the file is, ask the peer to
  send it, receive it with selective repeat, compare the hash and save it. \<^verbatim>\<open>get\<close> is cut at
  its stages; each stage returns early with the C result, waits for ever on a socket, or
  faults, or goes on to the next one.
\<close>

section \<open>Asking the server\<close>

datatype call_end = Returns int | Waits | Faults c_fault

definition request_message :: "u32 \<Rightarrow> bytes" where
  "request_message file_id =
     enc_tcp_header \<lparr>th_msg_type = TCP_REQUEST_FILE, th_error_code = ERR_NONE, th_data_len = 4\<rparr> @
     enc_tcp_request_file \<lparr>rq_file_id = file_id\<rparr>"

text \<open>
  From here on the name in the answer is read as a string, by the message that announces the
  transfer and by \<^verbatim>\<open>fopen\<close>; nothing ensures that it is terminated, and a name without a NUL is
  read beyond the end of the struct.
\<close>

definition get_location :: "client \<Rightarrow> u32 \<Rightarrow> (call_end + tcp_file_location_t) \<times> client" where
  "get_location c file_id =
     (case send_all (cl_tcp c) (request_message file_id) of
        (sent, k1) \<Rightarrow>
          if \<not> sent then (Inl (Returns 1), c\<lparr>cl_tcp := k1\<rparr>)
          else
            (case recv_loop k1 4 [] of
               (Broken, k2) \<Rightarrow> (Inl (Returns 1), c\<lparr>cl_tcp := k2\<rparr>)
             | (Blocked, k2) \<Rightarrow> (Inl Waits, c\<lparr>cl_tcp := k2\<rparr>)
             | (Got h, k2) \<Rightarrow>
                 let hdr = dec_tcp_header h
                 in if th_msg_type hdr = TCP_ERROR then (Inl (Returns 1), c\<lparr>cl_tcp := k2\<rparr>)
                    else if th_msg_type hdr \<noteq> TCP_FILE_LOCATION then (Inl (Returns 1), c\<lparr>cl_tcp := k2\<rparr>)
                    else if th_data_len hdr \<noteq> 302 then (Inl (Returns 1), c\<lparr>cl_tcp := k2\<rparr>)
                    else
                      (case recv_loop k2 302 [] of
                         (Broken, k3) \<Rightarrow> (Inl (Returns 1), c\<lparr>cl_tcp := k3\<rparr>)
                       | (Blocked, k3) \<Rightarrow> (Inl Waits, c\<lparr>cl_tcp := k3\<rparr>)
                       | (Got b, k3) \<Rightarrow>
                           let loc = dec_tcp_file_location b
                           in if file_id \<noteq> loc_file_id loc then (Inl (Returns 1), c\<lparr>cl_tcp := k3\<rparr>)
                              else if 0 \<notin> set (loc_filename loc) then (Inl (Faults OutOfBounds), c\<lparr>cl_tcp := k3\<rparr>)
                              else (Inr loc, c\<lparr>cl_tcp := k3\<rparr>))))"

section \<open>Asking the peer\<close>

definition peer_of :: "tcp_file_location_t \<Rightarrow> sockaddr_in" where
  "peer_of loc = \<lparr>sin_port = loc_peer_port loc, sin_addr = loc_peer_ip loc\<rparr>"

definition request_packet :: "byte_order \<Rightarrow> u32 \<Rightarrow> bytes \<Rightarrow> bytes" where
  "request_packet ord file_id hash =
     (let hdr = \<lparr>uh_msg_type = UDP_REQUEST_FILE, uh_flags = 0, uh_checksum = 0, uh_seq_num = 0,
                 uh_ack_num = 0, uh_data_len = 36, uh_window = WINDOW_SIZE\<rparr>;
          body = enc_udp_request_file \<lparr>urq_file_id = file_id, urq_hash = hash\<rparr>
      in enc_udp_header ord (hdr\<lparr>uh_checksum := calculate_checksum (enc_udp_header ord hdr @ body)\<rparr>) @ body)"

text \<open>The peer's announcement, as the event loop of its owner builds it.\<close>

definition start_packet :: "byte_order \<Rightarrow> u32 \<Rightarrow> u32 \<Rightarrow> bytes" where
  "start_packet ord file_size num_chunks =
     (let hdr = \<lparr>uh_msg_type = UDP_FILE_START, uh_flags = 0, uh_checksum = 0, uh_seq_num = 0,
                 uh_ack_num = 0, uh_data_len = 8, uh_window = WINDOW_SIZE\<rparr>;
          body = enc_udp_file_start \<lparr>fs_file_size = file_size, fs_num_chunks = num_chunks\<rparr>
      in enc_udp_header ord (hdr\<lparr>uh_checksum := calculate_checksum (enc_udp_header ord hdr @ body)\<rparr>) @ body)"

text \<open>A receive takes the next datagram; what does not fit in the buffer is lost.\<close>

definition lossy_recv :: "nat \<Rightarrow> client \<Rightarrow> datagram option \<times> client" where
  "lossy_recv cap c =
     (case cl_udp_in c of
        [] \<Rightarrow> (None, c)
      | DgramError # ds \<Rightarrow> (Some DgramError, c\<lparr>cl_udp_in := ds\<rparr>)
      | Dgram d src # ds \<Rightarrow> (Some (Dgram (take cap d) src), c\<lparr>cl_udp_in := ds\<rparr>))"

definition check_start :: "byte_order \<Rightarrow> tcp_file_location_t \<Rightarrow> bytes \<Rightarrow> sockaddr_in \<Rightarrow> call_end + udp_file_start_t" where
  "check_start ord loc p src =
     (if length p < 16 then Inl (Returns 1)
      else
        let hdr = dec_udp_header ord p; data_len = unat (uh_data_len hdr)
        in if length p < 16 + data_len then Inl (Returns 1)
           else if \<not> verify_checksum (zero_checksum p) (uh_checksum hdr) then Inl (Returns 1)
           else if sin_addr src \<noteq> loc_peer_ip loc \<or> sin_port src \<noteq> loc_peer_port loc then Inl (Returns 1)
           else if uh_msg_type hdr \<noteq> UDP_FILE_START then Inl (Returns 0)
           else if data_len \<noteq> 8 then Inl (Returns 1)
           else Inr (dec_udp_file_start (drop 16 p)))"

definition await_start ::
    "os_answers \<Rightarrow> client \<Rightarrow> u32 \<Rightarrow> tcp_file_location_t \<Rightarrow> (call_end + udp_file_start_t) \<times> client" where
  "await_start os c file_id loc =
     (let packet = request_packet (env_order (cl_env c)) file_id (loc_hash loc);
          sent = (case os_sendto os of None \<Rightarrow> int (length packet) | Some n \<Rightarrow> n)
      in if sent < 0 then (Inl (Returns 1), c)
         else if sent \<noteq> int (length packet) then (Inl (Returns 1), c)
         else
           let c = c\<lparr>cl_env := snd (sendto (cl_env c) packet (peer_of loc))\<rparr>
           in case lossy_recv 1040 c of
                (None, c) \<Rightarrow> (Inl Waits, c)
              | (Some DgramError, c) \<Rightarrow> (Inl (Returns 1), c)
              | (Some (Dgram p src), c) \<Rightarrow> (check_start (env_order (cl_env c)) loc p src, c))"

section \<open>Receiving\<close>

text \<open>
  The loop of \<^verbatim>\<open>get\<close>, on the datagrams that arrive; when they run out before the file is
  complete, \<^verbatim>\<open>lossy_recv\<close> blocks.
\<close>

fun receive_loop :: "sockaddr_in \<Rightarrow> udp_env \<Rightarrow> sr_receiver_t \<Rightarrow> datagram list
    \<Rightarrow> call_end option \<times> udp_env \<times> sr_receiver_t \<times> datagram list" where
  "receive_loop peer env r [] =
     (if sr_receiver_is_complete r then (None, env, r, []) else (Some Waits, env, r, []))"
| "receive_loop peer env r (d # ds) =
     (if sr_receiver_is_complete r then (None, env, r, d # ds)
      else
        case d of
          DgramError \<Rightarrow> (Some (Returns (-1)), env, sr_receiver_cleanup r, ds)
        | Dgram p src \<Rightarrow>
            if sin_addr src \<noteq> sin_addr peer \<or> sin_port src \<noteq> sin_port peer then receive_loop peer env r ds
            else
              case sr_receiver_handle_data env r (take 1040 p) of
                Inl f \<Rightarrow> (Some (Faults f), env, r, ds)
              | Inr (res, env', r') \<Rightarrow>
                  if res < 0 then (Some (Returns 1), env', sr_receiver_cleanup r', ds)
                  else receive_loop peer env' r' ds)"

section \<open>Saving\<close>

definition save_file :: "os_answers \<Rightarrow> client \<Rightarrow> sr_receiver_t \<Rightarrow> tcp_file_location_t \<Rightarrow> call_end \<times> client" where
  "save_file os c r loc =
     (case sr_receiver_get_file r of
        (None, assembled_size) \<Rightarrow> (Faults NullPointer, c)
      | (Some buffer, assembled_size) \<Rightarrow>
          let assembled = take (unat assembled_size) buffer;
              computed = compute_sha256 (os_sha256 os) (os_ctx_ok os) (os_old_hash os) assembled
          in if take 32 computed = loc_hash loc then
               if ff_open (os_file os) then (Returns (-1), c)
               else (Returns 0, c\<lparr>cl_fs := (cl_fs c)(c_string (loc_filename loc) \<mapsto>
                                    take (transferred (os_file os) (length assembled)) assembled)\<rparr>)
             else (Returns 0, c))"

text \<open>The receiver is a local variable; \<^verbatim>\<open>sr_receiver_init\<close> overwrites every field of it.\<close>

definition zero_receiver :: sr_receiver_t where
  "zero_receiver = \<lparr>r_udp_fd = 0, r_peer_addr = \<lparr>sin_port = 0, sin_addr = 0\<rparr>, r_base = 0,
     r_window = replicate WINDOW_SIZE empty_recv_entry, r_file_buffer = None, r_file_size = 0,
     r_num_chunks = 0, r_chunks_received = 0, r_lossy_link = False\<rparr>"

definition get :: "os_answers \<Rightarrow> client \<Rightarrow> u32 \<Rightarrow> call_end \<times> client" where
  "get os c file_id =
     (case get_location c file_id of
        (Inl e, c) \<Rightarrow> (e, c)
      | (Inr loc, c) \<Rightarrow>
          (case await_start os c file_id loc of
             (Inl e, c) \<Rightarrow> (e, c)
           | (Inr start, c) \<Rightarrow>
               (case sr_receiver_init (Some zero_receiver) (ll_fd (env_link (cl_env c))) (Some (peer_of loc))
                       (fs_file_size start) (fs_num_chunks start) True (os_malloc os (unat (fs_file_size start))) of
                  (res, None) \<Rightarrow> (Returns 1, c)
                | (res, Some r) \<Rightarrow>
                    if res \<noteq> 0 then (Returns 1, c)
                    else
                      (case receive_loop (peer_of loc) (cl_env c) r (cl_udp_in c) of
                         (Some e, env, r, ds) \<Rightarrow> (e, c\<lparr>cl_env := env, cl_udp_in := ds\<rparr>)
                       | (None, env, r, ds) \<Rightarrow> save_file os (c\<lparr>cl_env := env, cl_udp_in := ds\<rparr>) r loc))))"

section \<open>The announcement is understood\<close>

lemma start_packet_accepted:
  "length (start_packet ord n k) = 24 \<and> check_start ord loc (start_packet ord n k) (peer_of loc) =
    Inr \<lparr>fs_file_size = n, fs_num_chunks = k\<rparr>"
proof -
  let ?h = "\<lparr>uh_msg_type = UDP_FILE_START, uh_flags = 0, uh_checksum = 0, uh_seq_num = 0,
    uh_ack_num = 0, uh_data_len = 8, uh_window = WINDOW_SIZE\<rparr>"
  let ?b = "enc_udp_file_start \<lparr>fs_file_size = n, fs_num_chunks = k\<rparr>"
  let ?h' = "?h\<lparr>uh_checksum := calculate_checksum (enc_udp_header ord ?h @ ?b)\<rparr>"
  have p: "start_packet ord n k = enc_udp_header ord ?h' @ ?b" by (simp only: start_packet_def Let_def)
  have len: "length (enc_udp_header ord ?h') = 16" "length ?b = 8"
    by (simp_all only: udp_header.enc_length udp_file_start.enc_length)
  have dec: "dec_udp_header ord (start_packet ord n k) = ?h'" unfolding p by (rule udp_header.dec_enc) simp
  have "drop 16 (start_packet ord n k) = ?b" unfolding p using len(1) by simp
  moreover have "dec_udp_file_start ?b = \<lparr>fs_file_size = n, fs_num_chunks = k\<rparr>"
    using udp_file_start.dec_enc [of "\<lparr>fs_file_size = n, fs_num_chunks = k\<rparr>" "[]"] by simp
  moreover have "checksum_ok ord (start_packet ord n k)"
    unfolding p by (rule checksum_ok_sealed) simp
  then have "verify_checksum (zero_checksum (start_packet ord n k)) (uh_checksum ?h')"
    unfolding checksum_ok_def dec by (simp only: verify_checksum_def)
  moreover have "length (start_packet ord n k) = 24" unfolding p using len by simp
  ultimately show ?thesis unfolding check_start_def Let_def dec by (simp add: peer_of_def)
qed

lemma await_start_packet:
  assumes "cl_udp_in c = Dgram (start_packet (env_order (cl_env c)) n k) (peer_of loc) # ds" "os_sendto os = None"
  obtains c' where "await_start os c file_id loc = (Inr \<lparr>fs_file_size = n, fs_num_chunks = k\<rparr>, c')"
    "cl_udp_in c' = ds" "env_order (cl_env c') = env_order (cl_env c)" "cl_fs c' = cl_fs c"
  using assms start_packet_accepted [of "env_order (cl_env c)" n k loc]
  by (auto simp: await_start_def lossy_recv_def Let_def sendto_def)

section \<open>What the stages leave alone\<close>

lemma get_location_frame:
  "get_location c file_id = (x, c') \<Longrightarrow> \<exists>k. c' = c\<lparr>cl_tcp := k\<rparr>"
  by (auto simp: get_location_def Let_def split: prod.splits recv_outcome.splits if_splits)

lemma await_start_frame:
  "await_start os c file_id loc = (x, c') \<Longrightarrow> \<exists>env ds. c' = c\<lparr>cl_env := env, cl_udp_in := ds\<rparr>"
proof (cases c)
  case (fields tcp table env udp_in fs shown sender buf active running)
  assume "await_start os c file_id loc = (x, c')"
  then show ?thesis unfolding fields
    by (auto simp: await_start_def lossy_recv_def Let_def
        split: prod.splits option.splits datagram.splits list.splits if_splits)
qed

lemma save_file_frame:
  assumes "save_file os c r loc = (e, c')"
  shows "cl_fs c' = cl_fs c \<or>
    (\<exists>content n. sr_receiver_get_file r = (Some content, n) \<and>
      take 32 (compute_sha256 (os_sha256 os) (os_ctx_ok os) (os_old_hash os) (take (unat n) content)) = loc_hash loc \<and>
      cl_fs c' = (cl_fs c)(c_string (loc_filename loc) \<mapsto>
        take (transferred (os_file os) (length (take (unat n) content))) (take (unat n) content)))"
  using assms by (auto simp: save_file_def Let_def split: prod.splits option.splits if_splits)

section \<open>The receive loop\<close>

text \<open>
  A datagram is benign for the transfer of \<open>F\<close> from \<open>peer\<close> if it comes from somebody else,
  carries a chunk of \<open>F\<close>, or is refused by the checks of the receiver.
\<close>

definition benign :: "byte_order \<Rightarrow> bytes \<Rightarrow> sockaddr_in \<Rightarrow> datagram \<Rightarrow> bool" where
  "benign ord F peer d \<longleftrightarrow>
     (case d of
        DgramError \<Rightarrow> True
      | Dgram p src \<Rightarrow> src \<noteq> peer \<or> (\<exists>k < chunk_count (length F). carries ord F k p) \<or>
          length p < 16 \<or> \<not> checksum_ok ord (take 1040 p) \<or>
          uh_msg_type (dec_udp_header ord (take 1040 p)) \<noteq> UDP_DATA)"

lemma carries_fits: "carries ord F k p \<Longrightarrow> take 1040 p = p"
  using length_chunk_le [of F k] by (simp add: carries_def)

lemma handle_benign:
  assumes "recv_inv F r" "recv_slid r" "benign (env_order env) F peer (Dgram p peer)"
  obtains env' r' where "sr_receiver_handle_data env r (take 1040 p) = Inr (0, env', r')"
    "recv_inv F r'" "recv_slid r'" "env_order env' = env_order env" "got r \<subseteq> got r'"
proof (cases "\<exists>k < chunk_count (length F). carries (env_order env) F k p")
  case True
  then obtain k where k: "k < chunk_count (length F)" "carries (env_order env) F k p" by blast
  obtain env' r' where r: "sr_receiver_handle_data env r p = Inr (0, env', r')"
    "data_taken F env r (if k < unat (r_base r) + WINDOW_SIZE then {k} else {}) env' r'"
    by (rule handle_data_inv [OF assms(1,2) k(2,1)])
  have "sends (ack_datagram env r (got r')) env env'" "recv_inv F r'" "recv_slid r'" "got r \<subseteq> got r'"
    using r(2) unfolding data_taken_def by blast+
  then show thesis using that r(1) carries_fits [OF k(2)] sends_order by auto
next
  case False
  then have "length (take 1040 p) < 16 \<or> \<not> checksum_ok (env_order env) (take 1040 p) \<or>
      uh_msg_type (dec_udp_header (env_order env) (take 1040 p)) \<noteq> UDP_DATA"
    using assms(3) by (auto simp: benign_def)
  then show thesis using that handle_data_refused assms(1,2) by blast
qed

lemma receive_loop_correct:
  assumes "recv_inv F r" "recv_slid r" "\<forall>d \<in> set ds. benign (env_order env) F peer d"
    and "receive_loop peer env r ds = (e, env', r', ds')"
  shows "(e = None \<longrightarrow> sr_receiver_get_file r' = (Some F, of_nat (length F))) \<and>
    e \<in> {None, Some Waits, Some (Returns (-1))} \<and> (DgramError \<notin> set ds \<longrightarrow> e \<noteq> Some (Returns (-1)))"
  using assms
proof (induction peer env r ds rule: receive_loop.induct)
  case (1 peer env r)
  then show ?case using receiver_complete_file by (auto split: if_splits)
next
  case (2 peer env r d ds)
  consider "sr_receiver_is_complete r" | "\<not> sr_receiver_is_complete r" "d = DgramError"
    | p src where "\<not> sr_receiver_is_complete r" "d = Dgram p src" "src \<noteq> peer"
    | p where "\<not> sr_receiver_is_complete r" "d = Dgram p peer" by (metis datagram.exhaust)
  then show ?case
  proof cases
    case 1
    then show ?thesis using "2.prems" receiver_complete_file by auto
  next
    case 2
    then show ?thesis using "2.prems" by auto
  next
    case 3
    then have ne: "sin_addr src \<noteq> sin_addr peer \<or> sin_port src \<noteq> sin_port peer"
      by (cases src; cases peer) auto
    then show ?thesis using "2.IH"(1) [OF 3(1,2) ne] "2.prems" 3 by auto
  next
    case 4
    have b: "benign (env_order env) F peer (Dgram p peer)" using "2.prems"(3) 4 by simp
    obtain env1 r1 where h: "sr_receiver_handle_data env r (take 1040 p) = Inr (0, env1, r1)"
      "recv_inv F r1" "recv_slid r1" "env_order env1 = env_order env"
      by (rule handle_benign [OF "2.prems"(1,2) b])
    have rest: "receive_loop peer env1 r1 ds = (e, env', r', ds')" using "2.prems"(4) 4 h(1) by simp
    have "\<not> (sin_addr peer \<noteq> sin_addr peer \<or> sin_port peer \<noteq> sin_port peer)" by simp
    from "2.IH"(2) [OF 4(1,2) this h(1) refl refl _ h(2,3) _ rest]
    show ?thesis using "2.prems"(3) h(4) by simp
  qed
qed

text \<open>
  The chunks from \<open>m\<close> on arrive in order, among any other datagrams and before a receive fails;
  nothing else is needed to complete the file.
\<close>

fun arrive_in_order :: "byte_order \<Rightarrow> bytes \<Rightarrow> sockaddr_in \<Rightarrow> nat \<Rightarrow> datagram list \<Rightarrow> bool" where
  "arrive_in_order ord F peer m [] \<longleftrightarrow> chunk_count (length F) \<le> m"
| "arrive_in_order ord F peer m (d # ds) \<longleftrightarrow> chunk_count (length F) \<le> m \<or>
     (case d of
        DgramError \<Rightarrow> False
      | Dgram p src \<Rightarrow> arrive_in_order ord F peer m ds \<or>
          src = peer \<and> carries ord F m p \<and> arrive_in_order ord F peer (Suc m) ds)"

lemma slid_base_le:
  assumes "recv_inv F r" "recv_slid r" "{..< m} \<subseteq> got r" "\<not> sr_receiver_is_complete r"
  shows "m \<le> unat (r_base r)"
proof (rule ccontr)
  assume "\<not> m \<le> unat (r_base r)"
  then have "unat (r_base r) \<in> got r" using assms(3) by auto
  then have "rw_received (rslot r (unat (r_base r)))" by (simp add: got_def)
  then show False using assms(2,4) by (simp add: recv_slid_def sr_receiver_is_complete_def)
qed

lemma receive_loop_in_order:
  assumes "recv_inv F r" "recv_slid r" "{..< m} \<subseteq> got r" "\<forall>d \<in> set ds. benign (env_order env) F peer d"
    and "arrive_in_order (env_order env) F peer m ds"
  shows "fst (receive_loop peer env r ds) = None"
  using assms
proof (induction ds arbitrary: env r m)
  case Nil
  then have "{..< chunk_count (length F)} \<subseteq> got r" by auto
  then show ?case using Nil receiver_all_got_complete by simp
next
  case (Cons d ds)
  show ?case
  proof (cases "sr_receiver_is_complete r")
    case False
    have m: "m < chunk_count (length F)"
    proof (rule ccontr)
      assume "\<not> m < chunk_count (length F)"
      then have "{..< chunk_count (length F)} \<subseteq> got r" using Cons.prems(3) by auto
      then show False using False Cons.prems receiver_all_got_complete by blast
    qed
    then obtain p src where p: "d = Dgram p src" and next_chunk: "arrive_in_order (env_order env) F peer m ds \<or>
        src = peer \<and> carries (env_order env) F m p \<and> arrive_in_order (env_order env) F peer (Suc m) ds"
      using Cons.prems(5) by (cases d) auto
    have benign: "\<forall>d \<in> set ds. benign (env_order env) F peer d" using Cons.prems(4) by simp
    show ?thesis
    proof (cases "src = peer")
      case other: False
      then have "sin_addr src \<noteq> sin_addr peer \<or> sin_port src \<noteq> sin_port peer" by (cases src; cases peer) auto
      then show ?thesis using False p Cons.IH [OF Cons.prems(1-3) benign] next_chunk other by simp
    next
      case True
      obtain env1 r1 where h: "sr_receiver_handle_data env r (take 1040 p) = Inr (0, env1, r1)" "recv_inv F r1" "recv_slid r1"
        "env_order env1 = env_order env" "got r \<subseteq> got r1"
        by (rule handle_benign [OF Cons.prems(1,2), of env peer p]) (use Cons.prems(4) p True in simp)
      have "\<exists>m'. {..< m'} \<subseteq> got r1 \<and> arrive_in_order (env_order env) F peer m' ds"
        using next_chunk
      proof
        assume c: "src = peer \<and> carries (env_order env) F m p \<and> arrive_in_order (env_order env) F peer (Suc m) ds"
        obtain env2 r2 where "sr_receiver_handle_data env r p = Inr (0, env2, r2)"
          "data_taken F env r (if m < unat (r_base r) + WINDOW_SIZE then {m} else {}) env2 r2"
          by (rule handle_data_inv [OF Cons.prems(1,2) _ m]) (use c in blast)
        moreover have "m < unat (r_base r) + WINDOW_SIZE" using slid_base_le [OF Cons.prems(1-3) False] by simp
        moreover have "take 1040 p = p" using carries_fits c by blast
        ultimately have "got r1 = got r \<union> {m}" using h(1) by (simp add: data_taken_def)
        then have "{..< Suc m} \<subseteq> got r1" using Cons.prems(3) unfolding lessThan_Suc by blast
        then show ?thesis using c by blast
      qed (use Cons.prems(3) h(5) in blast)
      then have "fst (receive_loop peer env1 r1 ds) = None" using Cons.IH [OF h(2,3)] h(4) benign by metis
      then show ?thesis using False p True h(1) by simp
    qed
  qed simp
qed

section \<open>Properties of get\<close>

text \<open>
  C10. Only verified files are saved. Whatever the server and the peers send, and provided the
  library can set up a digest, \<^verbatim>\<open>get\<close> changes the file system in at most one place, the name in
  the server's location message, and only by writing an assembled file whose SHA-256 is the
  hash of that message. The result of \<^verbatim>\<open>fwrite\<close> is not tested: after a short write the file on disk is
  a prefix of that file, and otherwise it is that file.
\<close>

theorem get_saves_only_verified:
  assumes "get os c file_id = (e, c')" "os_ctx_ok os" "\<And>data. length (os_sha256 os data) = 32"
  shows "cl_fs c' = cl_fs c \<or>
    (\<exists>loc content. fst (get_location c file_id) = Inr loc \<and> os_sha256 os content = loc_hash loc \<and>
      cl_fs c' = (cl_fs c)(c_string (loc_filename loc) \<mapsto>
        take (transferred (os_file os) (length content)) content))"
proof -
  obtain x c1 where l: "get_location c file_id = (x, c1)" by fastforce
  then have fs1: "cl_fs c1 = cl_fs c" using get_location_frame by fastforce
  show ?thesis
  proof (cases x)
    case (Inl a)
    then show ?thesis using assms(1) l fs1 by (auto simp: get_def)
  next
    case (Inr loc)
    obtain y c2 where w: "await_start os c1 file_id loc = (y, c2)" by fastforce
    then have fs2: "cl_fs c2 = cl_fs c1" using await_start_frame by fastforce
    have "cl_fs c' = cl_fs c2 \<or> (\<exists>c3 r. save_file os c3 r loc = (e, c') \<and> cl_fs c3 = cl_fs c2)"
      using assms(1) l w Inr by (auto simp: get_def split: sum.splits prod.splits option.splits if_splits)
    then show ?thesis
    proof
      assume "\<exists>c3 r. save_file os c3 r loc = (e, c') \<and> cl_fs c3 = cl_fs c2"
      then obtain c3 r where s: "save_file os c3 r loc = (e, c')" "cl_fs c3 = cl_fs c" using fs1 fs2 by auto
      have "take 32 (os_sha256 os data) = os_sha256 os data" for data using assms(3) by simp
      then show ?thesis using save_file_frame [OF s(1)] s(2) l Inr assms(2)
        by (fastforce simp: compute_sha256_def)
    qed (use fs1 fs2 in simp)
  qed
qed

definition sample_location :: tcp_file_location_t where
  "sample_location = \<lparr>loc_file_id = 7, loc_file_size = 2500, loc_hash = replicate 32 196,
     loc_peer_ip = sin_addr sample_addr, loc_peer_port = sin_port sample_addr,
     loc_filename = 98 # replicate 255 0\<rparr>"

definition sample_get_client :: "datagram list \<Rightarrow> client" where
  "sample_get_client ds = (sample_client [] [SegData
     (enc_tcp_header \<lparr>th_msg_type = TCP_FILE_LOCATION, th_error_code = ERR_NONE, th_data_len = 302\<rparr> @
      enc_tcp_file_location sample_location)])\<lparr>cl_udp_in := ds\<rparr>"

lemma get_location_reply:
  assumes sock: "\<forall>a \<in> set (tk_accept (cl_tcp c)). 0 < a" "segments_ok (tk_in (cl_tcp c))"
    and reply: "stream_of (tk_in (cl_tcp c)) =
      enc_tcp_header \<lparr>th_msg_type = TCP_FILE_LOCATION, th_error_code = ERR_NONE, th_data_len = 302\<rparr> @
      enc_tcp_file_location loc @ rest"
    and ok: "file_location_ok loc" "loc_file_id loc = file_id" "0 \<in> set (loc_filename loc)"
  obtains k where "get_location c file_id = (Inr loc, c\<lparr>cl_tcp := k\<rparr>)"
    "tk_out k = tk_out (cl_tcp c) @ request_message file_id" "stream_of (tk_in k) = rest"
proof -
  let ?h = "\<lparr>th_msg_type = TCP_FILE_LOCATION, th_error_code = ERR_NONE, th_data_len = 302\<rparr>"
  obtain k1 k2 where k: "send_all (cl_tcp c) (request_message file_id) = (True, k1)"
    "recv_loop k1 4 [] = (Got (enc_tcp_header ?h), k2)" "stream_of (tk_in k2) = enc_tcp_file_location loc @ rest"
    "segments_ok (tk_in k2)" "tk_out k2 = tk_out (cl_tcp c) @ request_message file_id"
    by (rule header_reply [OF sock reply])
  obtain k3 where "recv_loop k2 302 [] = (Got (enc_tcp_file_location loc), k3)" "stream_of (tk_in k3) = rest"
    "tk_out k3 = tk_out k2"
    by (rule recv_loop_Got [OF k(4), of "enc_tcp_file_location loc" rest 302])
      (use k(3) tcp_file_location.enc_length [OF ok(1)] in simp_all)
  moreover have "dec_tcp_file_location (enc_tcp_file_location loc) = loc"
    using tcp_file_location.dec_enc [OF ok(1), of "[]"] by simp
  ultimately show thesis using that k ok(2,3) by (simp add: get_location_def Let_def)
qed

lemma sample_get_location:
  "\<exists>c1. get_location (sample_get_client ds) 7 = (Inr sample_location, c1) \<and> cl_udp_in c1 = ds \<and>
     cl_env c1 = sample_env \<and> cl_fs c1 = cl_fs (sample_get_client ds)"
proof -
  let ?k = "cl_tcp (sample_get_client ds)"
  have s: "\<forall>a \<in> set (tk_accept ?k). 0 < a" "segments_ok (tk_in ?k)"
    "stream_of (tk_in ?k) =
      enc_tcp_header \<lparr>th_msg_type = TCP_FILE_LOCATION, th_error_code = ERR_NONE, th_data_len = 302\<rparr> @
      enc_tcp_file_location sample_location @ []"
    by (simp_all add: sample_get_client_def sample_client_def segments_ok_def enc_tcp_header_def)
  have l: "file_location_ok sample_location" "loc_file_id sample_location = 7" "0 \<in> set (loc_filename sample_location)"
    by (simp_all add: file_location_ok_def sample_location_def)
  obtain k where "get_location (sample_get_client ds) 7 = (Inr sample_location, (sample_get_client ds)\<lparr>cl_tcp := k\<rparr>)"
    by (rule get_location_reply [OF s l])
  then show ?thesis by (simp add: sample_get_client_def sample_client_def)
qed

lemma sample_datagrams:
  obtains ds where "arrive_in_order Little sample_file addr 0 ds" "\<forall>d \<in> set ds. benign Little sample_file addr d"
proof -
  obtain p0 where p0: "carries Little sample_file 0 p0"
    by (rule build_chunk_packet [of 0 0 1024 sample_file sample_file Little])
      (simp_all add: chunk_def sample_file_def)
  obtain p1 where p1: "carries Little sample_file 1 p1"
    by (rule build_chunk_packet [of 1 1 1024 sample_file "drop 1024 sample_file" Little])
      (simp_all add: chunk_def sample_file_def)
  obtain p2 where p2: "carries Little sample_file 2 p2" by (rule sample_packet)
  let ?ds = "map (\<lambda>p. Dgram p addr) [p0, p1, p2]"
  have "arrive_in_order Little sample_file addr 0 ?ds" using p0 p1 p2 by (simp add: numeral_2_eq_2)
  moreover have "\<forall>d \<in> set ?ds. benign Little sample_file addr d"
    using p0 p1 p2 unfolding benign_def by fastforce
  ultimately show thesis using that by blast
qed

lemma sample_fetch_facts:
  "os_ctx_ok sample_os" "os_file sample_os = no_faults" "os_malloc sample_os 2500 = Some (replicate 2500 0)"
  "os_sha256 sample_os sample_file = loc_hash sample_location" "c_string (loc_filename sample_location) = [98]"
  "length (loc_hash sample_location) = 32" "peer_of sample_location = sample_addr"
  by (simp_all add: sample_os_def sample_location_def c_string_def peer_of_def)

lemma sample_fetch:
  obtains ds c1 c2 where "arrive_in_order Little sample_file sample_addr 0 ds"
    "get_location (sample_get_client (Dgram (start_packet Little 2500 3) sample_addr # ds)) 7 = (Inr sample_location, c1)"
    "await_start sample_os c1 7 sample_location = (Inr \<lparr>fs_file_size = 2500, fs_num_chunks = 3\<rparr>, c2)"
    "cl_udp_in c2 = ds" "env_order (cl_env c2) = Little" "\<forall>d \<in> set ds. benign Little sample_file sample_addr d"
proof -
  obtain ds where ds: "arrive_in_order Little sample_file sample_addr 0 ds"
    "\<forall>d \<in> set ds. benign Little sample_file sample_addr d"
    by (rule sample_datagrams)
  let ?c = "sample_get_client (Dgram (start_packet Little 2500 3) sample_addr # ds)"
  obtain c1 where c1: "get_location ?c 7 = (Inr sample_location, c1)"
    "cl_udp_in c1 = Dgram (start_packet Little 2500 3) sample_addr # ds" "cl_env c1 = sample_env"
    using sample_get_location by blast
  obtain c2 where "await_start sample_os c1 7 sample_location =
      (Inr \<lparr>fs_file_size = 2500, fs_num_chunks = 3\<rparr>, c2)" "cl_udp_in c2 = ds" "env_order (cl_env c2) = Little"
    using await_start_packet [of c1 2500 3 sample_location ds sample_os 7] c1 sample_fetch_facts(7)
    by (auto simp: sample_os_def)
  then show thesis using that ds c1(1) by blast
qed

lemma get_fetches:
  assumes loc: "get_location c file_id = (Inr loc, c1)"
    and start: "await_start os c1 file_id loc =
      (Inr \<lparr>fs_file_size = of_nat (length F), fs_num_chunks = of_nat (chunk_count (length F))\<rparr>, c2)"
    and len: "length F \<le> max_file" and mem: "os_malloc os (length F) = Some buf" "length buf = length F"
    and ds: "\<forall>d \<in> set (cl_udp_in c2). benign (env_order (cl_env c2)) F (peer_of loc) d"
    and os: "os_ctx_ok os" "os_file os = no_faults" "length (os_sha256 os F) = 32"
  shows "\<exists>e c'. get os c file_id = (e, c') \<and> e \<in> {Returns 0, Waits, Returns (-1)} \<and>
    (DgramError \<notin> set (cl_udp_in c2) \<longrightarrow> e \<noteq> Returns (-1)) \<and>
    (arrive_in_order (env_order (cl_env c2)) F (peer_of loc) 0 (cl_udp_in c2) \<longrightarrow> e = Returns 0) \<and>
    cl_fs c' = (if e = Returns 0 \<and> os_sha256 os F = loc_hash loc
      then (cl_fs c)(c_string (loc_filename loc) \<mapsto> F) else cl_fs c)"
proof -
  have fs: "cl_fs c2 = cl_fs c"
    using get_location_frame [OF loc] await_start_frame [OF start] by auto
  have size: "unat (of_nat (length F) :: u32) = length F" using len by (simp add: max_file_def unat_of_nat)
  obtain r where r: "sr_receiver_init (Some zero_receiver) (ll_fd (env_link (cl_env c2))) (Some (peer_of loc))
      (of_nat (length F)) (of_nat (chunk_count (length F))) True (Some buf) = (0, Some r)"
    "recv_inv F r" "recv_slid r"
    by (rule sr_receiver_init_inv [OF len mem(2)])
  obtain e env' r' ds' where loop: "receive_loop (peer_of loc) (cl_env c2) r (cl_udp_in c2) = (e, env', r', ds')"
    by (metis prod_cases4)
  have res: "e = None \<longrightarrow> sr_receiver_get_file r' = (Some F, of_nat (length F))"
    "e \<in> {None, Some Waits, Some (Returns (-1))}"
    "DgramError \<notin> set (cl_udp_in c2) \<longrightarrow> e \<noteq> Some (Returns (-1))"
    using receive_loop_correct [OF r(2,3) ds loop] by blast+
  have order: "arrive_in_order (env_order (cl_env c2)) F (peer_of loc) 0 (cl_udp_in c2) \<longrightarrow> e = None"
    using receive_loop_in_order [OF r(2,3) _ ds, of 0] loop by auto
  let ?c = "c2\<lparr>cl_env := env', cl_udp_in := ds'\<rparr>"
  have get: "get os c file_id = (case e of Some x \<Rightarrow> (x, ?c) | None \<Rightarrow> save_file os ?c r' loc)"
    using loc start r(1) loop size mem(1) by (simp add: get_def split: option.split)
  show ?thesis
  proof (cases e)
    case None
    have "take 32 (os_sha256 os F) = os_sha256 os F" using os(3) by simp
    then have "save_file os ?c r' loc = (Returns 0, if os_sha256 os F = loc_hash loc
        then ?c\<lparr>cl_fs := (cl_fs c)(c_string (loc_filename loc) \<mapsto> F)\<rparr> else ?c)"
      using res(1) None os(1,2) size fs
      by (simp add: save_file_def compute_sha256_def no_faults_def transferred_def)
    then show ?thesis using get None fs by simp
  next
    case (Some x)
    then have "x \<noteq> Returns 0" using res(2) by auto
    then show ?thesis using get Some res(2,3) order fs by auto
  qed
qed



theorem get_saves_only_verified_witness:
  "\<exists>ds c' content. get sample_os (sample_get_client (Dgram (start_packet Little 2500 3) sample_addr # ds)) 7 = (Returns 0, c') \<and>
    cl_fs c' [98] = Some content \<and> os_sha256 sample_os content = loc_hash sample_location"
proof -
  obtain ds c1 c2 where s: "arrive_in_order Little sample_file sample_addr 0 ds"
    "get_location (sample_get_client (Dgram (start_packet Little 2500 3) sample_addr # ds)) 7 = (Inr sample_location, c1)"
    "await_start sample_os c1 7 sample_location = (Inr \<lparr>fs_file_size = 2500, fs_num_chunks = 3\<rparr>, c2)"
    "cl_udp_in c2 = ds" "env_order (cl_env c2) = Little" "\<forall>d \<in> set ds. benign Little sample_file sample_addr d"
    by (rule sample_fetch)
  let ?c = "sample_get_client (Dgram (start_packet Little 2500 3) sample_addr # ds)"
  obtain c' where c': "get sample_os ?c 7 = (Returns 0, c')" "cl_fs c' [98] = Some sample_file"
    using get_fetches [OF s(2), of sample_os sample_file c2 "replicate 2500 0"] s sample_fetch_facts
    by (auto simp del: replicate.simps)
  have "cl_fs ?c [98] = None" by (simp add: sample_get_client_def sample_client_def)
  then have "cl_fs c' \<noteq> cl_fs ?c" using c'(2) by auto
  moreover have "length (os_sha256 sample_os data) = 32" for data by (simp add: sample_os_def)
  ultimately obtain content where "os_sha256 sample_os content = loc_hash sample_location"
    "cl_fs c' = (cl_fs ?c)([98] \<mapsto> take (transferred (os_file sample_os) (length content)) content)"
    using get_saves_only_verified [OF c'(1) sample_fetch_facts(1)] s(2) sample_fetch_facts(5) by auto
  moreover from this have "cl_fs c' [98] = Some content"
    using sample_fetch_facts(2) by (simp add: no_faults_def transferred_def)
  ultimately show ?thesis using c'(1) by blast
qed

text \<open>
  C39. A packet that overtakes \<^verbatim>\<open>UDP_FILE_START\<close>. When the first datagram from the peer is
  a well-formed data packet, because UDP reordered it before the announcement, \<^verbatim>\<open>get\<close> gives
  up and returns 0, the code for success, without having saved anything.
\<close>

theorem early_data_ends_get:
  assumes "get_location c file_id = (Inr loc, c1)" "os_sendto os = None"
    and "cl_udp_in c1 = Dgram p (peer_of loc) # ds" "carries (env_order (cl_env c1)) F k p"
  shows "\<exists>c'. get os c file_id = (Returns 0, c') \<and> cl_fs c' = cl_fs c"
proof -
  let ?ord = "env_order (cl_env c1)"
  have p: "take 1040 p = p" by (rule carries_fits [OF assms(4)])
  have "check_start ?ord loc p (peer_of loc) = Inl (Returns 0)"
    using assms(4) by (simp add: check_start_def Let_def carries_def verify_checksum_def checksum_ok_def peer_of_def)
  then obtain c2 where c2: "await_start os c1 file_id loc = (Inl (Returns 0), c2)"
    using assms(2,3) p by (simp add: await_start_def lossy_recv_def Let_def sendto_def)
  have "cl_fs c2 = cl_fs c"
    using get_location_frame [OF assms(1)] await_start_frame [OF c2] by auto
  then show ?thesis using assms(1) c2 by (simp add: get_def)
qed

theorem early_data_ends_get_witness:
  "\<exists>p c'. build_data_packet Little 2 (drop 2048 sample_file) 452 = Inr p \<and>
    get sample_os (sample_get_client [Dgram p sample_addr]) 7 = (Returns 0, c')"
proof -
  obtain p where p: "build_data_packet Little 2 (drop 2048 sample_file) 452 = Inr p" "carries Little sample_file 2 p"
    by (rule sample_packet)
  have peer: "peer_of sample_location = sample_addr" by (simp add: peer_of_def sample_location_def)
  obtain c1 where c1: "get_location (sample_get_client [Dgram p sample_addr]) 7 = (Inr sample_location, c1)"
    "cl_udp_in c1 = [Dgram p sample_addr]" "cl_env c1 = sample_env"
    using sample_get_location [of "[Dgram p sample_addr]"] by blast
  then show ?thesis
    using early_data_ends_get [OF c1(1), of sample_os p "[]" sample_file 2] p peer by (auto simp: sample_os_def)
qed

end
