(* ===== verification/Client_Main.thy ===== *)
theory Client_Main
  imports Client_Get
begin

text \<open>
  The client's command line and event loop (\<^verbatim>\<open>handle_command\<close> and the loop of \<^verbatim>\<open>main\<close> in
  \<^verbatim>\<open>client.c\<close>): commands from the keyboard, requests and acknowledgements from peers, and
  the sender that is driven in every pass.

  The library functions on text are modelled as the code uses them: \<^verbatim>\<open>isspace\<close> in the C locale,
  \<^verbatim>\<open>sscanf(p, "%15s %511[^\n]", cmd, arg)\<close> on a line without a newline, and \<^verbatim>\<open>strtoul\<close> with
  base 10 and a 64-bit \<^verbatim>\<open>unsigned long\<close>.
\<close>

section \<open>Commands\<close>

definition isspace :: "byte \<Rightarrow> bool" where
  "isspace b \<longleftrightarrow> b = 32 \<or> (9 \<le> b \<and> b \<le> 13)"

definition isdigit :: "byte \<Rightarrow> bool" where
  "isdigit b \<longleftrightarrow> 48 \<le> b \<and> b \<le> 57"

definition scan_command :: "bytes \<Rightarrow> nat \<times> bytes \<times> bytes" where
  "scan_command p =
     (let cmd = take 15 (takeWhile (\<lambda>b. \<not> isspace b) (dropWhile isspace p));
          rest = dropWhile isspace (drop (length cmd) (dropWhile isspace p));
          arg = take 511 rest
      in (if arg = [] then 1 else 2, cmd, arg))"

definition digits_value :: "bytes \<Rightarrow> nat" where
  "digits_value ds = foldl (\<lambda>v d. v * 10 + (unat d - 48)) 0 ds"

text \<open>The value and what follows the number; \<open>None\<close> when there is no number at all.\<close>

definition strtoul :: "bytes \<Rightarrow> (u64 \<times> bytes) option" where
  "strtoul s =
     (let t = dropWhile isspace s;
          neg = (t \<noteq> [] \<and> hd t = 45);
          t = (if t \<noteq> [] \<and> (hd t = 45 \<or> hd t = 43) then tl t else t);
          ds = takeWhile isdigit t;
          v = digits_value ds
      in if ds = [] then None
         else Some (if v \<ge> 2 ^ 64 then -1 else if neg then - of_nat v else of_nat v, drop (length ds) t))"

definition cmd_share :: bytes where "cmd_share = [115, 104, 97, 114, 101]"
definition cmd_list :: bytes where "cmd_list = [108, 105, 115, 116]"
definition cmd_get :: bytes where "cmd_get = [103, 101, 116]"
definition cmd_quit :: bytes where "cmd_quit = [113, 117, 105, 116]"

text \<open>A command that fails makes the client unregister and stop.\<close>

definition after_command :: "call_end \<Rightarrow> client \<Rightarrow> call_end \<times> client" where
  "after_command e c =
     (case e of
        Returns res \<Rightarrow> if res \<noteq> 0 then (Returns 0, (quit c)\<lparr>cl_running := False\<rparr>) else (Returns 0, c)
      | _ \<Rightarrow> (e, c))"

definition end_of :: "int option \<Rightarrow> call_end" where
  "end_of r = (case r of None \<Rightarrow> Waits | Some n \<Rightarrow> Returns n)"

definition handle_command :: "os_answers \<Rightarrow> client \<Rightarrow> bytes \<Rightarrow> call_end \<times> client" where
  "handle_command os c line =
     (let p = dropWhile isspace (takeWhile (\<lambda>b. b \<noteq> 0 \<and> b \<noteq> 10) line)
      in if p = [] then (Returns 0, c)
         else
           let (n, cmd, arg) = scan_command p
           in if cmd = cmd_share then
                if n < 2 \<or> arg = [] then (Returns 0, c)
                else
                  let fname = dropWhile isspace arg
                  in if fname = [] then (Returns 0, c)
                     else (case share os c (Some fname) of (r, c) \<Rightarrow> after_command (end_of r) c)
              else if n = 1 \<and> cmd = cmd_list then
                (case list_files os c of (r, c) \<Rightarrow> after_command (end_of r) c)
              else if cmd = cmd_get then
                if n < 2 \<or> arg = [] then (Returns 0, c)
                else
                  (case strtoul arg of
                     None \<Rightarrow> (Returns 0, c)
                   | Some (val, rest) \<Rightarrow>
                       if rest \<noteq> [] then (Returns 0, c)
                       else (case get os c (ucast val) of (e, c) \<Rightarrow> after_command e c))
              else if n = 1 \<and> cmd = cmd_quit then (Returns 0, (quit c)\<lparr>cl_running := False\<rparr>)
              else (Returns 0, c))"

section \<open>A request from a peer\<close>

text \<open>
  How the UDP part of a pass ends: a \<^verbatim>\<open>continue\<close>, which skips the rest of the pass, going on,
  or a receive that blocks. \<^verbatim>\<open>ftell\<close> answers -1 when it fails, which the code does not test;
  \<^verbatim>\<open>malloc\<close> then fails. A block that is allocated and freed again in the same branch leaves no
  trace in \<open>cl_heap\<close>. When the announcement cannot be sent, the stream stays open; and the old value
  of \<^verbatim>\<open>global_file_buffer\<close> is overwritten, whatever it points to.
\<close>

datatype udp_end = Continue | GoOn | Block

definition fclose :: "client \<Rightarrow> client" where
  "fclose c = c\<lparr>cl_open_files := cl_open_files c - 1\<rparr>"

text \<open>\<^verbatim>\<open>free(global_file_buffer); global_file_buffer = NULL; transfer_active = 0\<close>\<close>

definition end_transfer :: "client \<Rightarrow> client" where
  "end_transfer c =
     c\<lparr>cl_heap := (case cl_file_buffer c of None \<Rightarrow> cl_heap c | Some a \<Rightarrow> (cl_heap c)[a := None]),
       cl_file_buffer := None, cl_transfer_active := False\<rparr>"

lemma end_transfer_simps [simp]:
  "cl_tcp (end_transfer c) = cl_tcp c" "cl_table (end_transfer c) = cl_table c" "cl_env (end_transfer c) = cl_env c"
  "cl_udp_in (end_transfer c) = cl_udp_in c" "cl_fs (end_transfer c) = cl_fs c" "cl_sender (end_transfer c) = cl_sender c"
  "cl_file_buffer (end_transfer c) = None" "\<not> cl_transfer_active (end_transfer c)"
  "cl_running (end_transfer c) = cl_running c" "cl_open_files (end_transfer c) = cl_open_files c"
  by (simp_all add: end_transfer_def)

lemma fclose_simps [simp]:
  "cl_tcp (fclose c) = cl_tcp c" "cl_table (fclose c) = cl_table c" "cl_env (fclose c) = cl_env c"
  "cl_udp_in (fclose c) = cl_udp_in c" "cl_fs (fclose c) = cl_fs c" "cl_sender (fclose c) = cl_sender c"
  "cl_file_buffer (fclose c) = cl_file_buffer c" "cl_transfer_active (fclose c) = cl_transfer_active c"
  "cl_running (fclose c) = cl_running c" "cl_heap (fclose c) = cl_heap c" "cl_open_files (fclose c) = cl_open_files c - 1"
  by (simp_all add: fclose_def)

definition start_transfer ::
    "os_answers \<Rightarrow> u64 \<Rightarrow> client \<Rightarrow> bytes \<Rightarrow> sockaddr_in \<Rightarrow> (udp_end \<times> client) c_result" where
  "start_transfer os now c content peer =
     (let c = c\<lparr>cl_open_files := cl_open_files c + 1\<rparr>;
          actual_size = (if ff_tell (os_file os) then -1 else int (length content));
          num_chunks = (actual_size + 1023) div 1024;
          packet = start_packet (env_order (cl_env c)) (of_int actual_size) (of_int num_chunks);
          sent = (case os_sendto os of None \<Rightarrow> int (length packet) | Some n \<Rightarrow> n)
      in if sent \<le> 0 then Inr (Continue, c)
         else
           let c = c\<lparr>cl_env := snd (sendto (cl_env c) packet peer)\<rparr>
           in if actual_size < 0 \<or> os_malloc os (nat actual_size) = None then Inr (Continue, fclose c)
              else
                let c = fclose c
                in if transferred (os_file os) (length content) \<noteq> length content then Inr (Continue, c)
                   else
                     case sr_sender_init (Some (cl_sender c)) (ll_fd (env_link (cl_env c))) (Some peer)
                            (Some content) (of_int actual_size) True of
                       (res, sender) \<Rightarrow>
                         if res < 0 then Inr (Continue, c)
                         else
                           let c = c\<lparr>cl_heap := cl_heap c @ [Some content],
                                     cl_file_buffer := Some (length (cl_heap c)), cl_transfer_active := True\<rparr>
                           in case sr_sender_send_window now (cl_env c) sender of
                                Inl f \<Rightarrow> Inl f
                              | Inr (n, env, None) \<Rightarrow> Inr (GoOn, c\<lparr>cl_env := env\<rparr>)
                              | Inr (n, env, Some s) \<Rightarrow> Inr (GoOn, c\<lparr>cl_env := env, cl_sender := s\<rparr>))"

text \<open>The state after a request that was served: its contents are in a new block, which the sender reads.\<close>

definition serving :: "bytes \<Rightarrow> udp_env \<Rightarrow> sr_sender_t \<Rightarrow> client \<Rightarrow> client" where
  "serving F env s c = c\<lparr>cl_heap := cl_heap c @ [Some F], cl_file_buffer := Some (length (cl_heap c)),
     cl_transfer_active := True, cl_env := env, cl_sender := s\<rparr>"

lemma serving_simps [simp]:
  "cl_tcp (serving F env s c) = cl_tcp c" "cl_table (serving F env s c) = cl_table c" "cl_env (serving F env s c) = env"
  "cl_udp_in (serving F env s c) = cl_udp_in c" "cl_fs (serving F env s c) = cl_fs c" "cl_sender (serving F env s c) = s"
  "cl_file_buffer (serving F env s c) = Some (length (cl_heap c))" "cl_transfer_active (serving F env s c)"
  "cl_running (serving F env s c) = cl_running c" "cl_heap (serving F env s c) = cl_heap c @ [Some F]"
  "cl_open_files (serving F env s c) = cl_open_files c"
  by (simp_all add: serving_def)

lemma start_transfer_serves:
  assumes "os_file os = no_faults" "os_sendto os = None" "os_malloc os (length F) \<noteq> None"
    and "sr_sender_init (Some (cl_sender c)) (ll_fd (env_link (cl_env c))) (Some peer) (Some F) (of_nat (length F)) True = (0, Some s)"
    and "sr_sender_send_window now
      (snd (sendto (cl_env c) (start_packet (env_order (cl_env c)) (of_nat (length F)) (of_nat (chunk_count (length F)))) peer))
      (Some s) = Inr (n, env', Some s')"
  shows "start_transfer os now c F peer = Inr (GoOn, serving F env' s' c)"
proof -
  let ?packet = "start_packet (env_order (cl_env c)) (of_nat (length F)) (of_nat (chunk_count (length F)))"
  have "length ?packet = 24" using start_packet_accepted by blast
  then have "?packet \<noteq> []" by auto
  moreover have "(int (length F) + 1023) div 1024 = int (chunk_count (length F))" by (simp add: chunk_count_def zdiv_int)
  ultimately show ?thesis
    using assms by (simp add: start_transfer_def fclose_def serving_def Let_def no_faults_def transferred_def sendto_def)
qed

definition handle_file_request ::
    "os_answers \<Rightarrow> u64 \<Rightarrow> client \<Rightarrow> bytes \<Rightarrow> sockaddr_in \<Rightarrow> (udp_end \<times> client) c_result" where
  "handle_file_request os now c p peer =
     (if length p < 16 + 36 then Inr (Continue, c)
      else if uh_data_len (dec_udp_header (env_order (cl_env c)) p) \<noteq> 36 then Inr (Continue, c)
      else
        let req = dec_udp_request_file (drop 16 p)
        in case find_shared_file_by_id (cl_table c) (urq_file_id req) of
             None \<Rightarrow> Inr (Continue, c)
           | Some file \<Rightarrow>
               if cf_hash file \<noteq> urq_hash req then Inr (Continue, c)
               else
                 case (if ff_open (os_file os) then None else cl_fs c (c_string (cf_file_name file))) of
                   None \<Rightarrow> Inr (Continue, c)
                 | Some content \<Rightarrow> start_transfer os now c content peer)"

definition handle_udp :: "os_answers \<Rightarrow> u64 \<Rightarrow> client \<Rightarrow> (udp_end \<times> client) c_result" where
  "handle_udp os now c =
     (case lossy_recv 1040 c of
        (None, c) \<Rightarrow> Inr (Block, c)
      | (Some DgramError, c) \<Rightarrow> Inr (Continue, c)
      | (Some (Dgram p peer), c) \<Rightarrow>
          if length p = 0 then Inr (Continue, c)
          else if length p < 16 then Inr (Continue, c)
          else
            let hdr = dec_udp_header (env_order (cl_env c)) p
            in if uh_msg_type hdr = UDP_REQUEST_FILE then handle_file_request os now c p peer
               else if uh_msg_type hdr = UDP_ACK then
                 if cl_transfer_active c
                 then (case sr_sender_handle_ack (cl_env c) (cl_sender c) hdr of
                         (n, env, s) \<Rightarrow> Inr (GoOn, c\<lparr>cl_env := env, cl_sender := s\<rparr>))
                 else Inr (GoOn, c)
               else Inr (GoOn, c))"

section \<open>The event loop\<close>

definition drive_sender :: "u64 \<Rightarrow> u64 \<Rightarrow> client \<Rightarrow> client c_result" where
  "drive_sender now curr_ms c =
     (if \<not> cl_transfer_active c then Inr c
      else
        case sr_sender_send_window now (cl_env c) (Some (cl_sender c)) of
          Inl f \<Rightarrow> Inl f
        | Inr (n, env, None) \<Rightarrow> Inr c
        | Inr (n, env, Some s) \<Rightarrow>
            (case sr_sender_check_timeouts env s curr_ms of
               Inl f \<Rightarrow> Inl f
             | Inr (res, env, s) \<Rightarrow>
                 let c = c\<lparr>cl_env := env, cl_sender := s\<rparr>
                 in if res < 0 then Inr (end_transfer c)
                    else if sr_sender_is_complete s then Inr (end_transfer c)
                    else Inr c))"

text \<open>
  One pass: what \<^verbatim>\<open>poll\<close> answers, the line \<^verbatim>\<open>fgets\<close> reads if the keyboard is ready (\<open>None\<close>: not
  ready, or end of file), whether a datagram is there, and the times of the three readings
  of the clock.
\<close>

record client_pass =
  cp_poll :: int
  cp_line :: "bytes option"
  cp_udp :: bool
  cp_now :: "u64 \<times> u64 \<times> u64"
  cp_os :: os_answers

datatype pass_end = NextPass client | LoopEnds client | PassWaits client | PassFaults c_fault

definition client_pass_step :: "client \<Rightarrow> client_pass \<Rightarrow> pass_end" where
  "client_pass_step c cp =
     (if cp_poll cp < 0 then LoopEnds c
      else
        case (case cp_line cp of None \<Rightarrow> (Returns 0, c) | Some line \<Rightarrow> handle_command (cp_os cp) c line) of
          (Waits, c) \<Rightarrow> PassWaits c
        | (Faults f, c) \<Rightarrow> PassFaults f
        | (Returns _, c) \<Rightarrow>
            (case (if cp_udp cp then handle_udp (cp_os cp) (fst (cp_now cp)) c else Inr (GoOn, c)) of
               Inl f \<Rightarrow> PassFaults f
             | Inr (Block, c) \<Rightarrow> PassWaits c
             | Inr (Continue, c) \<Rightarrow> NextPass c
             | Inr (GoOn, c) \<Rightarrow>
                 (case drive_sender (fst (snd (cp_now cp))) (snd (snd (cp_now cp))) c of
                    Inl f \<Rightarrow> PassFaults f
                  | Inr c \<Rightarrow> NextPass c)))"

fun client_loop :: "client \<Rightarrow> client_pass list \<Rightarrow> pass_end" where
  "client_loop c [] = NextPass c"
| "client_loop c (cp # cps) =
     (if \<not> cl_running c then LoopEnds c
      else
        case client_pass_step c cp of
          NextPass c \<Rightarrow> client_loop c cps
        | other \<Rightarrow> other)"

section \<open>Owning a transfer\<close>

text \<open>
  The client as the owner of a file: while a transfer is active, the global sender
  satisfies the sender's invariant for some file.
\<close>

definition owner_ok :: "client \<Rightarrow> bool" where
  "owner_ok c \<longleftrightarrow> (cl_transfer_active c \<longrightarrow> (\<exists>F. sender_inv F (cl_sender c) \<and> window_slid (cl_sender c)))"

definition small_files :: "client \<Rightarrow> bool" where
  "small_files c \<longleftrightarrow> (\<forall>content \<in> ran (cl_fs c). length content \<le> max_file)"

lemma window_filled_slid:
  assumes "sender_inv F s" "window_slid s" "window_filled F env s n env' s'"
  shows "sender_inv F s'" "window_slid s'"
  using assms window_slid_acked [OF assms(1)] window_slid_acked [of F s'] by (auto simp: window_filled_def)

lemma drive_sender_ok:
  assumes "owner_ok c"
  obtains c' where "drive_sender now cur c = Inr c'" "owner_ok c'" "cl_fs c' = cl_fs c"
proof (cases "cl_transfer_active c")
  case False
  then show thesis using that assms by (simp add: drive_sender_def)
next
  case True
  then obtain F where F: "sender_inv F (cl_sender c)" "window_slid (cl_sender c)"
    using assms by (auto simp: owner_ok_def)
  obtain n env1 s1 where w: "sr_sender_send_window now (cl_env c) (Some (cl_sender c)) = Inr (n, env1, Some s1)"
    "window_filled F (cl_env c) (cl_sender c) n env1 s1"
    by (rule sr_sender_send_window_inv [OF F(1)])
  note s1 = window_filled_slid [OF F w(2)]
  obtain r env2 s2 where t: "sr_sender_check_timeouts env1 s1 cur = Inr (r, env2, s2)" "retimed F env1 s1 env2 s2"
    by (rule sr_sender_check_timeouts_inv [OF s1(1)])
  have "sender_inv F s2 \<and> window_slid s2" using t(2) s1(2) by (simp add: retimed_def)
  moreover define c' where "c' = (if r < 0 \<or> sr_sender_is_complete s2
    then end_transfer (c\<lparr>cl_env := env2, cl_sender := s2\<rparr>)
    else c\<lparr>cl_env := env2, cl_sender := s2\<rparr>)"
  ultimately have "owner_ok c'" "cl_fs c' = cl_fs c" by (auto simp: owner_ok_def)
  moreover have "drive_sender now cur c = Inr c'"
    using True w(1) t(1) by (simp add: drive_sender_def Let_def c'_def)
  ultimately show thesis using that by blast
qed

text \<open>What a request does when the file is there and the system calls succeed.\<close>

text \<open>Everything the owner sends for a request goes to the peer that asked: the announcement, then chunks.\<close>

definition answers_request :: "client \<Rightarrow> bytes \<Rightarrow> sockaddr_in \<Rightarrow> client \<Rightarrow> bool" where
  "answers_request c F peer c' \<longleftrightarrow>
     cl_transfer_active c' \<and> cl_file_buffer c' = Some (length (cl_heap c)) \<and> cl_heap c' = cl_heap c @ [Some F] \<and>
     cl_open_files c' = cl_open_files c \<and> cl_running c' = cl_running c \<and>
     cl_table c' = cl_table c \<and> cl_fs c' = cl_fs c \<and> cl_tcp c' = cl_tcp c \<and>
     sender_inv F (cl_sender c') \<and> window_slid (cl_sender c') \<and> s_peer_addr (cl_sender c') = peer \<and>
     acked (cl_sender c') = {} \<and> unat (s_next_seq (cl_sender c')) = min WINDOW_SIZE (chunk_count (length F)) \<and>
     env_order (cl_env c') = env_order (cl_env c) \<and>
     (\<exists>ds. env_sent (cl_env c') = env_sent (cl_env c) @
         (peer, start_packet (env_order (cl_env c)) (of_nat (length F)) (of_nat (chunk_count (length F)))) # ds \<and>
       (\<forall>d \<in> set ds. fst d = peer \<and> (\<exists>k < chunk_count (length F). carries (env_order (cl_env c)) F k (snd d))))"

lemma serve_request:
  assumes len: "16 + 36 \<le> length p" "uh_data_len (dec_udp_header (env_order (cl_env c)) p) = 36"
    and entry: "find_shared_file_by_id (cl_table c) (urq_file_id (dec_udp_request_file (drop 16 p))) = Some e"
      "cf_hash e = urq_hash (dec_udp_request_file (drop 16 p))"
    and disk: "cl_fs c (c_string (cf_file_name e)) = Some F" "length F \<le> max_file"
    and os: "os_file os = no_faults" "os_sendto os = None" "os_malloc os (length F) \<noteq> None"
  obtains env' s' where "handle_file_request os now c p peer = Inr (GoOn, serving F env' s' c)"
    "answers_request c F peer (serving F env' s' c)"
proof -
  let ?packet = "start_packet (env_order (cl_env c)) (of_nat (length F)) (of_nat (chunk_count (length F)))"
  let ?env = "snd (sendto (cl_env c) ?packet peer)"
  obtain s where s: "sr_sender_init (Some (cl_sender c)) (ll_fd (env_link (cl_env c))) (Some peer) (Some F)
      (of_nat (length F)) True = (0, Some s)" "sender_inv F s" "window_slid s" "s_base s = 0" "s_next_seq s = 0" "s_peer_addr s = peer"
    by (rule sr_sender_init_inv [OF disk(2)])
  obtain n env' s' where w: "sr_sender_send_window now ?env (Some s) = Inr (n, env', Some s')"
    "window_filled F ?env s n env' s'"
    by (rule sr_sender_send_window_inv [OF s(2)])
  have "handle_file_request os now c p peer = Inr (GoOn, serving F env' s' c)"
    using start_transfer_serves [OF os s(1) w(1)] len entry disk(1) os(1)
    by (simp add: handle_file_request_def Let_def no_faults_def)
  moreover have "acked s = {}" using s(4,5) by (simp add: acked_def in_flight_def)
  moreover have "unat (s_num_chunks s) = chunk_count (length F)"
    using s(2) by (simp add: sender_inv_def sender_static_def)
  moreover have "env_sent ?env = env_sent (cl_env c) @ [(peer, ?packet)]" "env_order ?env = env_order (cl_env c)"
    by (simp_all add: sendto_def)
  ultimately show thesis
    using that window_filled_slid [OF s(2,3) w(2)] w(2) s(4,6)
    by (auto simp: answers_request_def window_filled_def sends_def)
qed

lemma request_packet_read:
  assumes "length hash = 32"
  shows "length (request_packet ord file_id hash) = 52"
    "uh_msg_type (dec_udp_header ord' (request_packet ord file_id hash)) = UDP_REQUEST_FILE"
    "uh_data_len (dec_udp_header ord' (request_packet ord file_id hash)) = 36"
    "dec_udp_request_file (drop 16 (request_packet ord file_id hash)) = \<lparr>urq_file_id = file_id, urq_hash = hash\<rparr>"
proof -
  let ?h = "\<lparr>uh_msg_type = UDP_REQUEST_FILE, uh_flags = 0, uh_checksum = 0, uh_seq_num = 0,
    uh_ack_num = 0, uh_data_len = 36, uh_window = WINDOW_SIZE\<rparr>"
  let ?r = "\<lparr>urq_file_id = file_id, urq_hash = hash\<rparr>"
  let ?b = "enc_udp_request_file ?r"
  let ?h' = "?h\<lparr>uh_checksum := calculate_checksum (enc_udp_header ord ?h @ ?b)\<rparr>"
  have p: "request_packet ord file_id hash = enc_udp_header ord ?h' @ ?b" by (simp only: request_packet_def Let_def)
  have ok: "udp_request_ok ?r" using assms by (simp add: udp_request_ok_def)
  have len: "length (enc_udp_header ord ?h') = 16" by (simp only: udp_header.enc_length)
  show "length (request_packet ord file_id hash) = 52"
    unfolding p length_append len udp_request_file.enc_length [OF ok] by simp
  show "dec_udp_request_file (drop 16 (request_packet ord file_id hash)) = ?r"
    unfolding p using udp_request_file.dec_enc [OF ok, of "[]"] len by simp
  show "uh_msg_type (dec_udp_header ord' (request_packet ord file_id hash)) = UDP_REQUEST_FILE"
    "uh_data_len (dec_udp_header ord' (request_packet ord file_id hash)) = 36"
    unfolding p by (simp_all add: enc_udp_header_def dec_udp_header_def udp_codec_defs)
qed

lemma idle_or_requested:
  assumes "handle_file_request os now c p peer = Inr (x, c')" "c' \<noteq> c"
  shows "52 \<le> length p \<and> (\<exists>e. find_shared_file_by_id (cl_table c) (urq_file_id (dec_udp_request_file (drop 16 p))) = Some e \<and>
    cf_hash e = urq_hash (dec_udp_request_file (drop 16 p)) \<and> cl_fs c (c_string (cf_file_name e)) \<noteq> None)"
proof -
  let ?r = "dec_udp_request_file (drop 16 p)"
  have "52 \<le> length p" using assms by (auto simp: handle_file_request_def split: if_splits)
  moreover obtain e where e: "find_shared_file_by_id (cl_table c) (urq_file_id ?r) = Some e"
    using assms by (cases "find_shared_file_by_id (cl_table c) (urq_file_id ?r)")
      (auto simp: handle_file_request_def Let_def split: if_splits)
  moreover have "cf_hash e = urq_hash ?r"
    using assms e by (auto simp: handle_file_request_def Let_def split: if_splits)
  moreover have "cl_fs c (c_string (cf_file_name e)) \<noteq> None"
    using assms e by (cases "cl_fs c (c_string (cf_file_name e))")
      (auto simp: handle_file_request_def Let_def split: if_splits)
  ultimately show ?thesis by blast
qed

lemma request_served:
  assumes arrives: "cl_udp_in c = Dgram (request_packet ord file_id hash) peer # ds" "length hash = 32"
    and entry: "find_shared_file_by_id (cl_table c) file_id = Some e" "cf_hash e = hash"
    and disk: "cl_fs c (c_string (cf_file_name e)) = Some F" "length F \<le> max_file"
    and os: "os_file os = no_faults" "os_sendto os = None" "os_malloc os (length F) \<noteq> None"
  shows "\<exists>c'. handle_udp os now c = Inr (GoOn, c') \<and> answers_request c F peer c' \<and> cl_udp_in c' = ds"
proof -
  let ?p = "request_packet ord file_id hash" and ?c = "c\<lparr>cl_udp_in := ds\<rparr>"
  note p = request_packet_read [where ord = ord and file_id = file_id, OF arrives(2)]
  have fits: "16 + 36 \<le> length ?p" "take 1040 ?p = ?p" using p(1) by simp_all
  obtain env' s' where h: "handle_file_request os now ?c ?p peer = Inr (GoOn, serving F env' s' ?c)"
    "answers_request ?c F peer (serving F env' s' ?c)"
    by (rule serve_request [where c = ?c and p = ?p and e = e, OF fits(1) _ _ _ _ disk(2) os(1,2)])
      (use p(3,4) entry disk(1) os(3) in simp_all)
  let ?c' = "serving F env' s' ?c"
  have "handle_udp os now c = Inr (GoOn, ?c')"
    using arrives(1) fits(2) p h(1) by (simp add: handle_udp_def lossy_recv_def Let_def)
  moreover have "answers_request c F peer ?c'" using h(2) by (simp add: answers_request_def)
  ultimately show ?thesis by auto
qed

definition sample_owner :: "datagram list \<Rightarrow> client" where
  "sample_owner ds = (sample_client [] [])\<lparr>cl_udp_in := ds,
     cl_table := add_shared_file empty_share_table 7 2500 (replicate 32 196) [97, 0]\<rparr>"

lemma sample_owner_entry:
  "find_shared_file_by_id (cl_table (sample_owner ds)) 7 =
    Some \<lparr>cf_file_id = 7, cf_file_size = 2500, cf_hash = replicate 32 196, cf_file_name = copy_name [97, 0]\<rparr>"
proof -
  have "st_num_files empty_share_table < MAX_SHARED_FILES" "share_entries empty_share_table = []"
    by (simp_all add: empty_share_table_def share_entries_def)
  then show ?thesis
    using add_shared_entries [OF empty_share_table_ok, of 7 2500 "replicate 32 196" "[97, 0]"]
    by (simp add: find_shared_entries sample_owner_def)
qed

lemma sample_owner_serves:
  defines "c \<equiv> sample_owner [Dgram (request_packet Big 7 (replicate 32 196)) sample_addr]"
  shows "cl_udp_in c = [Dgram (request_packet Big 7 (replicate 32 196)) sample_addr]" "\<not> cl_transfer_active c"
    "cl_fs c (c_string (copy_name [97, 0])) = Some sample_file" "length sample_file \<le> max_file"
    "os_file sample_os = no_faults" "os_sendto sample_os = None" "os_malloc sample_os (length sample_file) \<noteq> None"
  by (simp_all add: c_def sample_owner_def sample_client_def c_string_copy_name sample_os_def max_file_def)

section \<open>Properties of the owner\<close>

text \<open>
  C17. Answering a request. When the request of a peer for a shared file arrives, with the
  hash under which the file was shared, the owner announces the file's size and chunk
  count, becomes the sender of its contents and sends the first window; everything it
  sends goes to the peer that asked. The contents are in a new block of the heap and the stream is
  closed. This also happens when another transfer is active, which is then given up: its
  block stays allocated, although nothing points to it any more.
\<close>

theorem request_starts_transfer:
  assumes arrives: "cl_udp_in c = Dgram (request_packet ord file_id hash) peer # ds" "length hash = 32"
    and entry: "find_shared_file_by_id (cl_table c) file_id = Some e" "cf_hash e = hash"
    and disk: "cl_fs c (c_string (cf_file_name e)) = Some F" "length F \<le> max_file"
    and os: "os_file os = no_faults" "os_sendto os = None" "os_malloc os (length F) \<noteq> None"
  shows "\<exists>c'. handle_udp os now c = Inr (GoOn, c') \<and> answers_request c F peer c' \<and> cl_udp_in c' = ds"
  using assms by (rule request_served)

theorem request_starts_transfer_witness:
  "\<exists>c'. handle_udp sample_os 5 (sample_owner [Dgram (request_packet Big 7 (replicate 32 196)) sample_addr]) = Inr (GoOn, c') \<and>
    cl_transfer_active c' \<and> s_next_seq (cl_sender c') = 3"
proof -
  let ?c = "sample_owner [Dgram (request_packet Big 7 (replicate 32 196)) sample_addr]"
  obtain c' where c': "handle_udp sample_os 5 ?c = Inr (GoOn, c')" "answers_request ?c sample_file sample_addr c'"
    using request_starts_transfer [OF sample_owner_serves(1) _ sample_owner_entry _ _ sample_owner_serves(4-7)]
      sample_owner_serves(3) by auto
  have "unat (s_next_seq (cl_sender c')) = 3" using c'(2) by (simp add: answers_request_def chunk_count_def)
  then have "s_next_seq (cl_sender c') = 3" by (simp add: word_unat_eq_iff)
  then show ?thesis using c' by (auto simp: answers_request_def)
qed

text \<open>
  C22. An owner gives nothing away. A client that is not sending a file changes nothing
  but its input queue when a datagram arrives, and in particular sends nothing, unless the
  datagram is a complete request that names the id of a file in its table together with
  that file's hash, and the file is still on disk.
\<close>

theorem owner_answers_only_requests:
  assumes "cl_udp_in c = Dgram p peer # ds" "\<not> cl_transfer_active c" "handle_udp os now c = Inr (x, c')"
    and "c' \<noteq> c\<lparr>cl_udp_in := ds\<rparr>"
  shows "52 \<le> length p \<and> uh_msg_type (dec_udp_header (env_order (cl_env c)) p) = UDP_REQUEST_FILE \<and>
    (\<exists>e. find_shared_file_by_id (cl_table c) (urq_file_id (dec_udp_request_file (drop 16 p))) = Some e \<and>
      cf_hash e = urq_hash (dec_udp_request_file (drop 16 p)) \<and> cl_fs c (c_string (cf_file_name e)) \<noteq> None)"
proof -
  let ?p = "take 1040 p" and ?c = "c\<lparr>cl_udp_in := ds\<rparr>"
  have "uh_msg_type (dec_udp_header (env_order (cl_env c)) ?p) = UDP_REQUEST_FILE"
    "handle_file_request os now ?c ?p peer = Inr (x, c')"
    using assms by (auto simp: handle_udp_def lossy_recv_def Let_def split: if_splits)
  moreover have "dec_udp_request_file (drop 16 ?p) = dec_udp_request_file (drop 16 p)" if "52 \<le> length p"
    using that by (simp add: dec_udp_request_file_def of_be32_def take_drop)
  ultimately show ?thesis using idle_or_requested [of os now ?c ?p peer x c'] assms(4)
    by (auto simp: dec_udp_header_def)
qed

theorem owner_answers_only_requests_witness:
  "52 \<le> length (request_packet Big 7 (replicate 32 196)) \<and>
   (\<exists>e. find_shared_file_by_id (cl_table (sample_owner [Dgram (request_packet Big 7 (replicate 32 196)) sample_addr]))
      (urq_file_id (dec_udp_request_file (drop 16 (request_packet Big 7 (replicate 32 196))))) = Some e)"
proof -
  let ?p = "request_packet Big 7 (replicate 32 196)"
  let ?c = "sample_owner [Dgram ?p sample_addr]"
  obtain c' where c': "handle_udp sample_os 5 ?c = Inr (GoOn, c')" "answers_request ?c sample_file sample_addr c'"
    using request_served [OF sample_owner_serves(1) _ sample_owner_entry _ _ sample_owner_serves(4-7)]
      sample_owner_serves(3) by auto
  have "c' \<noteq> ?c\<lparr>cl_udp_in := []\<rparr>" using c'(2) sample_owner_serves(2) by (auto simp: answers_request_def)
  then show ?thesis
    using owner_answers_only_requests [OF sample_owner_serves(1,2) c'(1)] by blast
qed

section \<open>The event loop of the owner\<close>

text \<open>How a request can end: the announcement was not sent, it was sent in vain, or the transfer has started.\<close>

lemma start_transfer_cases:
  fixes os peer and c :: client and F :: bytes
  assumes "length F \<le> max_file"
  defines "packet \<equiv> start_packet (env_order (cl_env c)) (of_int (if ff_tell (os_file os) then -1 else int (length F)))
    (of_int (((if ff_tell (os_file os) then -1 else int (length F)) + 1023) div 1024))"
  defines "c1 \<equiv> c\<lparr>cl_env := snd (sendto (cl_env c) packet peer)\<rparr>"
  shows "start_transfer os now c F peer = Inr (Continue, c\<lparr>cl_open_files := cl_open_files c + 1\<rparr>) \<and>
      (\<exists>n \<le> 0. os_sendto os = Some n) \<or>
    start_transfer os now c F peer = Inr (Continue, c1) \<or>
    (\<exists>env s. start_transfer os now c F peer = Inr (GoOn, serving F env s c1) \<and> sender_inv F s \<and> window_slid s)"
proof -
  have "length packet = 24" unfolding packet_def using start_packet_accepted by blast
  then have sent: "(case os_sendto os of None \<Rightarrow> int (length packet) | Some n \<Rightarrow> n) \<le> 0 \<Longrightarrow> \<exists>n \<le> 0. os_sendto os = Some n"
    by (auto split: option.splits)
  obtain s where s: "sr_sender_init (Some (cl_sender c1)) (ll_fd (env_link (cl_env c1))) (Some peer) (Some F)
      (of_nat (length F)) True = (0, Some s)" "sender_inv F s" "window_slid s"
    by (rule sr_sender_init_inv [OF assms(1)])
  obtain n env2 s2 where w: "sr_sender_send_window now (cl_env c1) (Some s) = Inr (n, env2, Some s2)"
    "window_filled F (cl_env c1) s n env2 s2"
    by (rule sr_sender_send_window_inv [OF s(2)])
  have "start_transfer os now c F peer \<in> {Inr (Continue, c1), Inr (GoOn, serving F env2 s2 c1)} \<or>
      (case os_sendto os of None \<Rightarrow> int (length packet) | Some n \<Rightarrow> n) \<le> 0 \<and>
      start_transfer os now c F peer = Inr (Continue, c\<lparr>cl_open_files := cl_open_files c + 1\<rparr>)"
    using s(1) w(1) unfolding c1_def packet_def
    by (cases "ff_tell (os_file os)"; cases "os_sendto os")
      (simp_all add: start_transfer_def Let_def fclose_def serving_def sendto_def)
  then show ?thesis using sent window_filled_slid [OF s(2,3) w(2)] by blast
qed

lemma start_transfer_ok:
  assumes "owner_ok c" "length F \<le> max_file"
  shows "\<exists>x c'. start_transfer os now c F peer = Inr (x, c') \<and> owner_ok c' \<and> cl_fs c' = cl_fs c"
  using start_transfer_cases [OF assms(2), of os now c peer] assms(1) by (auto simp: owner_ok_def)

lemma handle_file_request_ok:
  assumes "owner_ok c" "small_files c"
  shows "\<exists>x c'. handle_file_request os now c p peer = Inr (x, c') \<and> owner_ok c' \<and> cl_fs c' = cl_fs c"
proof -
  have "handle_file_request os now c p peer = Inr (Continue, c) \<or>
      (\<exists>F \<in> ran (cl_fs c). handle_file_request os now c p peer = start_transfer os now c F peer)"
    by (auto simp: handle_file_request_def Let_def intro: ranI split: option.splits)
  then show ?thesis using start_transfer_ok [OF assms(1)] assms by (auto simp: small_files_def)
qed

lemma handle_udp_ok:
  assumes "owner_ok c" "small_files c"
  shows "\<exists>x c'. handle_udp os now c = Inr (x, c') \<and> owner_ok c' \<and> cl_fs c' = cl_fs c"
proof (cases "cl_udp_in c")
  case Nil
  then show ?thesis using assms by (simp add: handle_udp_def lossy_recv_def)
next
  case (Cons d ds)
  define c1 where "c1 = c\<lparr>cl_udp_in := ds\<rparr>"
  have c1: "owner_ok c1" "small_files c1" "cl_fs c1 = cl_fs c"
    using assms by (simp_all add: c1_def owner_ok_def small_files_def)
  show ?thesis
  proof (cases d)
    case DgramError
    then show ?thesis using Cons c1 by (simp add: handle_udp_def lossy_recv_def flip: c1_def)
  next
    case (Dgram p peer)
    let ?hdr = "dec_udp_header (env_order (cl_env c1)) (take 1040 p)"
    obtain n env s where a: "sr_sender_handle_ack (cl_env c1) (cl_sender c1) ?hdr = (n, env, s)" by (metis prod_cases3)
    have ack: "owner_ok (c1\<lparr>cl_env := env, cl_sender := s\<rparr>)" if "cl_transfer_active c1"
    proof -
      obtain F where F: "sender_inv F (cl_sender c1)" "window_slid (cl_sender c1)" using c1(1) \<open>cl_transfer_active c1\<close> by (auto simp: owner_ok_def)
      show ?thesis
        by (rule sr_sender_handle_ack_inv [OF F(1), of "cl_env c1" ?hdr "\<lambda>_. True"])
          (use a F(2) in \<open>auto simp: owner_ok_def ack_taken_def\<close>)
    qed
    have "handle_udp os now c \<in> {Inr (Continue, c1), Inr (GoOn, c1), handle_file_request os now c1 (take 1040 p) peer} \<or>
        cl_transfer_active c1 \<and> handle_udp os now c = Inr (GoOn, c1\<lparr>cl_env := env, cl_sender := s\<rparr>)"
      using Cons Dgram a by (simp add: handle_udp_def lossy_recv_def Let_def flip: c1_def)
    then show ?thesis using handle_file_request_ok [OF c1(1,2)] c1 ack by auto
  qed
qed

text \<open>What the commands other than \<^verbatim>\<open>get\<close> leave alone.\<close>

definition same_owner :: "client \<Rightarrow> client \<Rightarrow> bool" where
  "same_owner c c' \<longleftrightarrow> cl_fs c' = cl_fs c \<and> cl_sender c' = cl_sender c \<and> cl_env c' = cl_env c \<and>
     cl_udp_in c' = cl_udp_in c \<and> cl_transfer_active c' = cl_transfer_active c"

lemma same_owner_refl [simp]: "same_owner c c"
  by (simp add: same_owner_def)

lemma quit_same_owner: "same_owner c ((quit c)\<lparr>cl_running := False\<rparr>)"
  by (simp add: same_owner_def quit_def)

lemma share_same_owner: "share os c name = (r, c') \<Longrightarrow> same_owner c c'"
  by (auto simp: share_def same_owner_def Let_def
      split: option.splits prod.splits recv_outcome.splits if_splits)

lemma list_same_owner: "list_files os c = (r, c') \<Longrightarrow> same_owner c c'"
  by (auto simp: list_files_def same_owner_def Let_def
      split: option.splits prod.splits recv_outcome.splits if_splits)

definition typed_get :: "bytes \<Rightarrow> bool" where
  "typed_get line \<longleftrightarrow>
     fst (snd (scan_command (dropWhile isspace (takeWhile (\<lambda>b. b \<noteq> 0 \<and> b \<noteq> 10) line)))) = cmd_get"

lemma after_command_end:
  assumes "same_owner c c1"
  shows "\<exists>e c'. after_command (end_of r) c1 = (e, c') \<and> (\<forall>f. e \<noteq> Faults f) \<and> same_owner c c'"
  using assms quit_same_owner [of c1]
  by (auto simp: after_command_def end_of_def same_owner_def split: option.splits)

lemma if_mem: "x \<in> S \<Longrightarrow> y \<in> S \<Longrightarrow> (if b then x else y) \<in> S"
  by simp

lemma handle_command_ok:
  assumes "\<not> typed_get line"
  shows "\<exists>e c'. handle_command os c line = (e, c') \<and> (\<forall>f. e \<noteq> Faults f) \<and> same_owner c c'"
proof -
  let ?p = "dropWhile isspace (takeWhile (\<lambda>b. b \<noteq> 0 \<and> b \<noteq> 10) line)"
  obtain n cmd arg where scan: "scan_command ?p = (n, cmd, arg)" by (cases "scan_command ?p")
  have other: "(cmd = cmd_get) = False" using assms scan by (simp add: typed_get_def)
  have "handle_command os c line \<in> {(Returns 0, c), (Returns 0, (quit c)\<lparr>cl_running := False\<rparr>),
      (case share os c (Some (dropWhile isspace arg)) of (r, c) \<Rightarrow> after_command (end_of r) c),
      (case list_files os c of (r, c) \<Rightarrow> after_command (end_of r) c)}"
    unfolding handle_command_def Let_def scan prod.case other if_False by (intro if_mem) simp_all
  moreover obtain r1 c1 where s: "share os c (Some (dropWhile isspace arg)) = (r1, c1)" by fastforce
  moreover obtain r2 c2 where l: "list_files os c = (r2, c2)" by fastforce
  ultimately show ?thesis
    using after_command_end [OF share_same_owner [OF s], of r1] after_command_end [OF list_same_owner [OF l], of r2]
      quit_same_owner [of c] by auto
qed

lemma same_owner_keeps: "same_owner c c' \<Longrightarrow> owner_ok c \<and> small_files c \<Longrightarrow> owner_ok c' \<and> small_files c'"
  by (simp add: same_owner_def owner_ok_def small_files_def)

definition loop_state :: "pass_end \<Rightarrow> client option" where
  "loop_state p = (case p of NextPass c \<Rightarrow> Some c | LoopEnds c \<Rightarrow> Some c | PassWaits c \<Rightarrow> Some c | PassFaults f \<Rightarrow> None)"

lemma client_pass_ok:
  assumes "owner_ok c \<and> small_files c" "\<forall>line. cp_line cp = Some line \<longrightarrow> \<not> typed_get line"
  shows "\<exists>c'. loop_state (client_pass_step c cp) = Some c' \<and> owner_ok c' \<and> small_files c'"
proof -
  obtain e c1 where cmd: "(case cp_line cp of None \<Rightarrow> (Returns 0, c) | Some line \<Rightarrow> handle_command (cp_os cp) c line) = (e, c1)"
    by fastforce
  then have c1: "\<forall>f. e \<noteq> Faults f" "owner_ok c1 \<and> small_files c1"
    using handle_command_ok [of _ "cp_os cp" c] assms same_owner_keeps [of c c1]
    by (fastforce split: option.splits)+
  obtain x c2 where udp: "(if cp_udp cp then handle_udp (cp_os cp) (fst (cp_now cp)) c1 else Inr (GoOn, c1)) = Inr (x, c2)"
    "owner_ok c2" "cl_fs c2 = cl_fs c1"
    using handle_udp_ok [of c1 "cp_os cp" "fst (cp_now cp)"] c1(2) by (cases "cp_udp cp") auto
  obtain c3 where drv: "drive_sender (fst (snd (cp_now cp))) (snd (snd (cp_now cp))) c2 = Inr c3"
    "owner_ok c3" "cl_fs c3 = cl_fs c2"
    by (rule drive_sender_ok [OF udp(2)])
  have "small_files c2" "small_files c3" using c1(2) udp(3) drv(3) by (simp_all add: small_files_def)
  moreover have "client_pass_step c cp \<in> {LoopEnds c, PassWaits c1, PassWaits c2, NextPass c2, NextPass c3}"
    using cmd c1(1) udp(1) drv(1) unfolding client_pass_step_def
    by (cases e; cases x) simp_all
  ultimately show ?thesis using assms(1) c1(2) udp(2) drv(2) by (auto simp: loop_state_def)
qed

lemma client_loop_ok:
  assumes "owner_ok c" "small_files c"
    and "\<forall>cp \<in> set cps. \<forall>line. cp_line cp = Some line \<longrightarrow> \<not> typed_get line"
  shows "\<exists>c'. loop_state (client_loop c cps) = Some c' \<and> owner_ok c' \<and> small_files c'"
  using assms
proof (induction cps arbitrary: c)
  case Nil
  then show ?case by (simp add: loop_state_def)
next
  case (Cons cp cps)
  obtain c1 where c1: "loop_state (client_pass_step c cp) = Some c1" "owner_ok c1" "small_files c1"
    using client_pass_ok [of c cp] Cons.prems by auto
  then show ?case
    using Cons.IH [of c1] Cons.prems by (cases "client_pass_step c cp") (auto simp: loop_state_def)
qed



section \<open>Acknowledgements from anybody\<close>

lemma all_acked_complete:
  assumes "sender_inv F s" "acked s = {..< chunk_count (length F)}"
  shows "sr_sender_is_complete s"
  using assms by (simp add: sr_sender_is_complete_def sender_inv_def sender_static_def word_le_nat_alt)

lemma drive_complete:
  assumes "cl_transfer_active c" "sender_inv F (cl_sender c)" "sr_sender_is_complete (cl_sender c)"
  shows "\<exists>c'. drive_sender now cur c = Inr c' \<and> \<not> cl_transfer_active c'"
proof -
  obtain n env1 s1 where w: "sr_sender_send_window now (cl_env c) (Some (cl_sender c)) = Inr (n, env1, Some s1)"
    "window_filled F (cl_env c) (cl_sender c) n env1 s1"
    by (rule sr_sender_send_window_inv [OF assms(2)])
  then have s1: "sender_inv F s1" "acked s1 = acked (cl_sender c)" by (simp_all add: window_filled_def)
  obtain r env2 s2 where t: "sr_sender_check_timeouts env1 s1 cur = Inr (r, env2, s2)" "retimed F env1 s1 env2 s2"
    by (rule sr_sender_check_timeouts_inv [OF s1(1)])
  have "sr_sender_is_complete s2"
    by (rule all_acked_complete [of F]) (use t(2) s1(2) sender_complete_acked [OF assms(2,3)] in \<open>simp_all add: retimed_def\<close>)
  then show ?thesis using assms(1) w(1) t(1) by (simp add: drive_sender_def Let_def)
qed

lemma dec_udp_header_take: "16 \<le> length p \<Longrightarrow> dec_udp_header ord (take 1040 p) = dec_udp_header ord p"
  by (cases ord) (simp_all add: dec_udp_header_def of_be32_def of_be16_def of_host16_def)

text \<open>
  C40. Unverified acknowledgements. While a transfer is active, the owner takes any datagram of at least
  16 bytes that has the type of an acknowledgement for one: whoever sent it and whatever its checksum
  field holds, the chunk it names, if it is in flight, counts as acknowledged. If it was
  the last one missing, the next part of the pass ends the transfer, whether or not the receiver
  has the chunk.
\<close>

theorem unverified_ack_accepted:
  assumes act: "cl_transfer_active c" "sender_inv F (cl_sender c)"
    and p: "cl_udp_in c = Dgram p src # ds" "16 \<le> length p"
      "uh_msg_type (dec_udp_header (env_order (cl_env c)) p) = UDP_ACK"
      "unat (uh_ack_num (dec_udp_header (env_order (cl_env c)) p)) \<in> in_flight (cl_sender c)"
  shows "\<exists>c'. handle_udp os now c = Inr (GoOn, c') \<and> cl_transfer_active c' \<and> sender_inv F (cl_sender c') \<and>
    acked (cl_sender c') = insert (unat (uh_ack_num (dec_udp_header (env_order (cl_env c)) p))) (acked (cl_sender c)) \<and>
    (acked (cl_sender c') = {..< chunk_count (length F)} \<longrightarrow>
      (\<exists>c''. drive_sender now' cur c' = Inr c'' \<and> \<not> cl_transfer_active c''))"
proof -
  let ?hdr = "dec_udp_header (env_order (cl_env c)) p"
  have "dec_udp_header ord (take 1040 p) = dec_udp_header ord p" for ord using p(2) by (simp add: dec_udp_header_take)
  moreover obtain env' s' where a: "sr_sender_handle_ack (cl_env c) (cl_sender c) ?hdr = (0, env', s')"
    "ack_taken F (cl_sender c) (if uh_msg_type ?hdr = UDP_ACK
       then {unat (uh_ack_num ?hdr)} \<inter> in_flight (cl_sender c) else {}) s'"
    by (rule sr_sender_handle_ack_inv [OF act(2), of "cl_env c" ?hdr "\<lambda>_. True"])
  moreover define c' where "c' = c\<lparr>cl_udp_in := ds, cl_env := env', cl_sender := s'\<rparr>"
  ultimately have "handle_udp os now c = Inr (GoOn, c')"
    using act(1) p by (simp add: handle_udp_def lossy_recv_def Let_def) auto
  moreover have c': "cl_transfer_active c'" "sender_inv F (cl_sender c')"
    "acked (cl_sender c') = insert (unat (uh_ack_num ?hdr)) (acked (cl_sender c))"
    using act(1) a(2) p(3,4) by (simp_all add: c'_def ack_taken_def)
  moreover have "\<exists>c''. drive_sender now' cur c' = Inr c'' \<and> \<not> cl_transfer_active c''"
    if "acked (cl_sender c') = {..< chunk_count (length F)}"
    by (rule drive_complete [OF c'(1,2) all_acked_complete [OF c'(2) that]])
  ultimately show ?thesis by blast
qed

text \<open>A stranger acknowledges chunk 1 of the sample file with a wrong checksum.\<close>

theorem unverified_ack_accepted_witness:
  "\<exists>c1 c'. handle_udp sample_os 5 (sample_owner [Dgram (request_packet Big 7 (replicate 32 196)) sample_addr]) = Inr (GoOn, c1) \<and>
    handle_udp sample_os 6 (c1\<lparr>cl_udp_in := [Dgram (enc_udp_header Little ((ack_header 1)\<lparr>uh_checksum := 7\<rparr>))
      \<lparr>sin_port = 6, sin_addr = 6\<rparr>]\<rparr>) = Inr (GoOn, c') \<and> acked (cl_sender c') = {1}"
proof -
  let ?c = "sample_owner [Dgram (request_packet Big 7 (replicate 32 196)) sample_addr]"
  let ?p = "enc_udp_header Little ((ack_header 1)\<lparr>uh_checksum := 7\<rparr>)"
  obtain c1 where c1: "handle_udp sample_os 5 ?c = Inr (GoOn, c1)" "answers_request ?c sample_file sample_addr c1"
    using request_served [OF sample_owner_serves(1) _ sample_owner_entry _ _ sample_owner_serves(4-7)]
      sample_owner_serves(3) by auto
  have ord: "env_order (cl_env c1) = Little"
    using c1(2) by (simp add: answers_request_def sample_owner_def sample_client_def)
  have dec: "dec_udp_header Little ?p = (ack_header 1)\<lparr>uh_checksum := 7\<rparr>"
    using udp_header.dec_enc [where ord = Little and x = "(ack_header 1)\<lparr>uh_checksum := 7\<rparr>" and rest = "[]"] by simp
  have n: "unat (s_next_seq (cl_sender c1)) = 3" "acked (cl_sender c1) = {}" "sender_inv sample_file (cl_sender c1)"
    "cl_transfer_active c1"
    using c1(2) by (simp_all add: answers_request_def)
  have "1 \<in> in_flight (cl_sender c1)"
  proof -
    have "unat (s_base (cl_sender c1)) = 0" using n(2) by (auto simp: acked_def)
    then show ?thesis using n(1) by (simp add: in_flight_def)
  qed
  then obtain c' where "handle_udp sample_os 6 (c1\<lparr>cl_udp_in := [Dgram ?p \<lparr>sin_port = 6, sin_addr = 6\<rparr>]\<rparr>) = Inr (GoOn, c')"
    "acked (cl_sender c') = {1}"
    using unverified_ack_accepted [of "c1\<lparr>cl_udp_in := [Dgram ?p \<lparr>sin_port = 6, sin_addr = 6\<rparr>]\<rparr>" sample_file ?p
        "\<lparr>sin_port = 6, sin_addr = 6\<rparr>" "[]" sample_os 6 0 0] n ord dec
    by (auto simp: ack_header_def udp_header.enc_length)
  then show ?thesis using c1(1) by blast
qed

section \<open>Reading a command\<close>

text \<open>The decimal digits of a number, as a user types them.\<close>

fun decimal :: "nat \<Rightarrow> bytes" where
  "decimal n = (if n < 10 then [48 + of_nat n] else decimal (n div 10) @ [48 + of_nat (n mod 10)])"

declare decimal.simps [simp del]

lemma digit_byte:
  assumes "d < 10"
  shows "isdigit (48 + of_nat d)" "unat (48 + of_nat d :: byte) - 48 = d"
proof -
  have "unat (48 + of_nat d :: byte) = 48 + d"
    using assms by (simp add: unat_word_ariths unat_of_nat take_bit_nat_def)
  then show "isdigit (48 + of_nat d)" "unat (48 + of_nat d :: byte) - 48 = d"
    using assms by (simp_all add: isdigit_def word_le_nat_alt)
qed

lemma decimal_digits: "(\<forall>b \<in> set (decimal n). isdigit b) \<and> decimal n \<noteq> []"
proof (induction n rule: decimal.induct)
  case (1 n)
  then show ?case using digit_byte(1) [of n] digit_byte(1) [of "n mod 10"]
    by (subst (1 2) decimal.simps) auto
qed

lemma digits_value_decimal: "digits_value (decimal n) = n"
proof (induction n rule: decimal.induct)
  case (1 n)
  then show ?case using digit_byte(2) [of n] digit_byte(2) [of "n mod 10"]
    by (subst decimal.simps) (auto simp: digits_value_def)
qed

lemma length_decimal: "n < 10 ^ Suc k \<Longrightarrow> length (decimal n) \<le> Suc k"
proof (induction k arbitrary: n)
  case 0
  then show ?case by (simp add: decimal.simps)
next
  case (Suc k)
  have "n div 10 < 10 ^ Suc k" using Suc.prems by (simp add: less_mult_imp_div_less mult.commute)
  then show ?case using Suc.IH [of "n div 10"] by (subst decimal.simps) simp
qed

lemma isdigit_not: "isdigit b \<Longrightarrow> \<not> isspace b \<and> b \<noteq> 0 \<and> b \<noteq> 10 \<and> b \<noteq> 45 \<and> b \<noteq> 43"
  by (auto simp: isdigit_def isspace_def word_le_nat_alt)

lemma strtoul_decimal:
  assumes "n < 2 ^ 64"
  shows "strtoul (decimal n) = Some (of_nat n, [])"
proof -
  obtain b bs where d: "decimal n = b # bs" using decimal_digits [of n] by (cases "decimal n") auto
  then have "isdigit b" "\<forall>x \<in> set bs. isdigit x" using decimal_digits [of n] by simp_all
  then have "takeWhile isdigit (b # bs) = b # bs" "\<not> isspace b \<and> b \<noteq> 45 \<and> b \<noteq> 43"
    using isdigit_not [of b] by (simp_all add: takeWhile_eq_all_conv)
  then show ?thesis using assms digits_value_decimal [of n] by (simp add: strtoul_def d)
qed

lemma scan_get:
  assumes "n < 2 ^ 64"
  shows "scan_command (cmd_get @ 32 # decimal n) = (2, cmd_get, decimal n)"
proof -
  have "n < 10 ^ Suc 19" using assms by simp
  then have len: "length (decimal n) \<le> 511" using length_decimal [of n 19] by simp
  obtain b bs where d: "decimal n = b # bs" "isdigit b"
    using decimal_digits [of n] by (cases "decimal n") auto
  moreover have "\<not> isspace 103" "\<not> isspace 101" "\<not> isspace 116" "isspace 32" by (simp_all add: isspace_def)
  ultimately show ?thesis using len isdigit_not [of b] by (simp add: scan_command_def cmd_get_def Let_def)
qed

text \<open>
  C29. The command \<^verbatim>\<open>get\<close>. A line of \<^verbatim>\<open>get\<close> and a decimal number below 2^64 fetches the file
  whose id is the number modulo 2^32: \<^verbatim>\<open>strtoul\<close> yields an \<^verbatim>\<open>unsigned long\<close> that is cut to
  \<^verbatim>\<open>uint32_t\<close> without a test, so 4294967297 fetches file 1. When the fetch fails, the client sends
  \<^verbatim>\<open>TCP_UNREGISTER\<close> and stops.
\<close>

theorem get_command_runs:
  assumes "n < 2 ^ 64"
  shows "handle_command os c (cmd_get @ 32 # decimal n @ [10]) =
    (case get os c (of_nat n) of
       (Returns res, c') \<Rightarrow> (Returns 0, if res = 0 then c' else (quit c')\<lparr>cl_running := False\<rparr>)
     | (e, c') \<Rightarrow> (e, c'))"
proof -
  have "takeWhile (\<lambda>b. b \<noteq> 0 \<and> b \<noteq> 10) (decimal n @ [10]) = decimal n"
    using decimal_digits [of n] isdigit_not by (subst takeWhile_append2) auto
  then have line: "takeWhile (\<lambda>b. b \<noteq> 0 \<and> b \<noteq> 10) (cmd_get @ 32 # decimal n @ [10]) = cmd_get @ 32 # decimal n"
    by (simp add: cmd_get_def)
  have skip: "dropWhile isspace (cmd_get @ xs) = cmd_get @ xs" "cmd_get @ xs \<noteq> []" for xs
    by (simp_all add: cmd_get_def isspace_def)
  have cmds: "cmd_get \<noteq> cmd_share" "cmd_get \<noteq> cmd_list" by (simp_all add: cmd_get_def cmd_share_def cmd_list_def)
  have id: "ucast (of_nat n :: u64) = (of_nat n :: u32)" using assms by (simp add: unsigned_of_nat take_bit_nat_eq_self)
  show ?thesis unfolding handle_command_def line skip(1) Let_def
    using skip(2) cmds scan_get [OF assms] strtoul_decimal [OF assms] decimal_digits [of n]
    by (simp add: id after_command_def split: prod.splits call_end.splits)
qed

theorem get_command_runs_witness:
  "handle_command sample_os (sample_get_client [DgramError]) (cmd_get @ 32 # decimal 4294967297 @ [10]) =
   handle_command sample_os (sample_get_client [DgramError]) (cmd_get @ 32 # decimal 1 @ [10])"
proof -
  have id: "(of_nat 4294967297 :: u32) = of_nat 1" by simp
  have n: "(4294967297 :: nat) < 2 ^ 64" "(1 :: nat) < 2 ^ 64" by simp_all
  show ?thesis unfolding get_command_runs [OF n(1)] get_command_runs [OF n(2)] id ..
qed

end
