(* ===== verification/Client_Server.thy ===== *)
theory Client_Server
  imports Directory_Server Client_Main
begin

text \<open>
  The programs together: what a client sends is what the server's dispatcher understands,
  what the server answers is what the client waits for, and what the requesting client asks of the
  owner is what the owner's event loop serves.
\<close>

section \<open>The server understands the client\<close>

lemma server_reads_message:
  assumes "length body = n" "n < 65536"
  shows "process_client_message m s i (enc_tcp_header \<lparr>th_msg_type = ty, th_error_code = e, th_data_len = of_nat n\<rparr> @ body) =
    (if ty = TCP_REGISTER then if n = 2 then handle_register s i (dec_tcp_register body) else s
     else if ty = TCP_SHARE_FILE then if n = 292 then handle_share_file s i (dec_tcp_share_file body) else s
     else if ty = TCP_LIST_FILES then handle_list_files m s i
     else if ty = TCP_REQUEST_FILE then if n = 4 then handle_request_file s i (dec_tcp_request_file body) else s
     else if ty = TCP_UNREGISTER then handle_unregister s i
     else s)"
proof -
  let ?h = "\<lparr>th_msg_type = ty, th_error_code = e, th_data_len = of_nat n\<rparr> :: tcp_header_t"
  have "length (enc_tcp_header ?h) = 4" by (simp only: tcp_header.enc_length)
  moreover have "dec_tcp_header (enc_tcp_header ?h @ body) = ?h" by (rule tcp_header.dec_enc) simp
  moreover have "unat (of_nat n :: u16) = n" using assms(2) by (simp add: unat_of_nat take_bit_nat_eq_self)
  ultimately show ?thesis using assms(1) by (simp add: process_client_message_def Let_def)
qed

lemma server_reads_share:
  assumes "length hash = 32"
  shows "process_client_message m s i (share_message name n hash) =
    handle_share_file s i \<lparr>sh_file_size = n, sh_hash = hash, sh_filename = copy_name name\<rparr>"
proof -
  let ?b = "\<lparr>sh_file_size = n, sh_hash = hash, sh_filename = copy_name name\<rparr>"
  have ok: "share_file_ok ?b" using assms by (simp add: share_file_ok_def)
  have dec: "dec_tcp_share_file (enc_tcp_share_file ?b) = ?b" using tcp_share_file.dec_enc [OF ok, of "[]"] by simp
  have "take 32 hash = hash" using assms by simp
  then show ?thesis
    using server_reads_message [OF tcp_share_file.enc_length [OF ok], of m s i TCP_SHARE_FILE ERR_NONE] dec
    by (simp add: share_message_def)
qed

lemma server_reads_request:
  "process_client_message m s i (request_message file_id) = handle_request_file s i \<lparr>rq_file_id = file_id\<rparr>"
proof -
  let ?b = "\<lparr>rq_file_id = file_id\<rparr>"
  have "length (enc_tcp_request_file ?b) = 4" by (simp only: tcp_request_file.enc_length)
  moreover have "dec_tcp_request_file (enc_tcp_request_file ?b) = ?b" using tcp_request_file.dec_enc [of ?b "[]"] by simp
  ultimately show ?thesis
    using server_reads_message [of "enc_tcp_request_file ?b" 4 m s i TCP_REQUEST_FILE ERR_NONE]
    by (simp add: request_message_def)
qed

section \<open>From sharing to fetching\<close>

text \<open>The bytes the server sends while it handles a message.\<close>

definition replies :: "server \<Rightarrow> server \<Rightarrow> bytes" where
  "replies s s' = concat (map snd (drop (length (sv_out s)) (sv_out s')))"

definition udp_address :: "client_t \<Rightarrow> sockaddr_in" where
  "udp_address c = \<lparr>sin_port = c_udp_port c, sin_addr = sin_addr (c_addr c)\<rparr>"

text \<open>The system calls that deal with a file \<open>F\<close> succeed; the hash function yields 32 bytes for it.\<close>

definition os_fine :: "os_answers \<Rightarrow> bytes \<Rightarrow> bool" where
  "os_fine os F \<longleftrightarrow> os_ctx_ok os \<and> os_file os = no_faults \<and> os_sendto os = None \<and>
     length (os_sha256 os F) = 32 \<and> (\<exists>buf. os_malloc os (length F) = Some buf \<and> length buf = length F)"

text \<open>The socket takes what is sent and delivers \<open>bytes\<close>, in pieces of any size.\<close>

definition tcp_delivers :: "client \<Rightarrow> bytes \<Rightarrow> bool" where
  "tcp_delivers c bytes \<longleftrightarrow> (\<forall>n \<in> set (tk_accept (cl_tcp c)). 0 < n) \<and> segments_ok (tk_in (cl_tcp c)) \<and>
     stream_of (tk_in (cl_tcp c)) = bytes"

lemma c_string_copy_short: "length (c_string name) \<le> 255 \<Longrightarrow> c_string (copy_name name) = c_string name"
proof -
  have "takeWhile P (take n xs) = take n (takeWhile P xs)" for P :: "byte \<Rightarrow> bool" and n xs
    by (induction xs arbitrary: n) (auto simp: take_Cons')
  then show "length (c_string name) \<le> 255 \<Longrightarrow> c_string (copy_name name) = c_string name"
    by (simp add: c_string_copy_name) (simp add: c_string_def)
qed

lemma share_answered_by_server:
  assumes server: "server_inv s" "i < MAX_CLIENTS" "c_active (sv_clients s ! i)" "sv_num_files s < MAX_FILES"
    and disk: "cl_fs a (c_string name) = Some F" "length F \<le> max_file"
    and table: "share_table_ok (cl_table a)" "st_num_files (cl_table a) < MAX_SHARED_FILES"
      "find_shared_file_by_id (cl_table a) (sv_next_file_id s) = None"
    and os: "os_fine os F"
    and sock: "tcp_delivers a (replies s (process_client_message m s i (share_message name (of_nat (length F)) (os_sha256 os F))))"
  obtains a' where "share os a (Some name) = (Some 0, a')" "same_owner a a'"
    "find_shared_file_by_id (cl_table a') (sv_next_file_id s) =
      Some \<lparr>cf_file_id = sv_next_file_id s, cf_file_size = of_nat (length F), cf_hash = os_sha256 os F,
        cf_file_name = copy_name name\<rparr>"
proof -
  let ?hash = "os_sha256 os F" and ?id = "sv_next_file_id s" and ?n = "of_nat (length F) :: u32"
  let ?share = "\<lparr>sh_file_size = ?n, sh_hash = ?hash, sh_filename = copy_name name\<rparr>"
  let ?h = "\<lparr>th_msg_type = TCP_SHARE_ACK, th_error_code = ERR_NONE, th_data_len = 4\<rparr>"
  have hash: "length ?hash = 32" "compute_sha256 (os_sha256 os) (os_ctx_ok os) (os_old_hash os) F = ?hash"
    using os by (simp_all add: os_fine_def compute_sha256_def)
  have ok: "share_file_ok ?share" using hash(1) by (simp add: share_file_ok_def)
  have stream: "stream_of (tk_in (cl_tcp a)) = enc_tcp_header ?h @ enc_tcp_share_ack \<lparr>sack_file_id = ?id\<rparr>"
    using sock shared_is_located [OF server(1-3) ok server(4)]
    by (simp add: tcp_delivers_def server_reads_share [OF hash(1)] replies_def)
  have read: "read_file_to_buffer (cl_fs a) (os_file os) name = (0, Some F)"
    using disk(1) os by (simp add: os_fine_def read_file_to_buffer_def no_faults_def transferred_def)
  have "length F \<le> 4294967295" using disk(2) by (simp add: max_file_def)
  then obtain a' where a': "share os a (Some name) = (Some 0, a')"
    "cl_table a' = add_shared_file (cl_table a) ?id ?n ?hash name"
    using share_answered [OF read _ _ _ stream, of "\<lparr>sack_file_id = ?id\<rparr>" "[]"] sock hash(2)
    by (auto simp: tcp_delivers_def)
  have "find_shared_file_by_id (cl_table a') ?id =
      Some \<lparr>cf_file_id = ?id, cf_file_size = ?n, cf_hash = ?hash, cf_file_name = copy_name name\<rparr>"
    using table(3) add_shared_entries [OF table(1,2)] hash(1)
    by (simp add: a'(2) find_shared_entries shared.find_append)
  then show thesis using that a'(1) share_same_owner [OF a'(1)] by blast
qed

lemma location_found_at_server:
  fixes m :: bool and name :: bytes and n :: u32
  assumes server: "server_inv s" "i < MAX_CLIENTS" "c_active (sv_clients s ! i)" "sv_num_files s < MAX_FILES"
    and hash: "length hash = 32"
  defines "s1 \<equiv> process_client_message m s i (share_message name n hash)"
  assumes sock: "tcp_delivers b (replies s1 (process_client_message m s1 j (request_message (sv_next_file_id s))))"
  obtains loc k where "get_location b (sv_next_file_id s) = (Inr loc, b\<lparr>cl_tcp := k\<rparr>)"
    "peer_of loc = udp_address (sv_clients s ! i)" "loc_hash loc = hash" "loc_file_size loc = n"
    "c_string (loc_filename loc) = c_string (copy_name name)"
proof -
  let ?share = "\<lparr>sh_file_size = n, sh_hash = hash, sh_filename = copy_name name\<rparr>"
  let ?loc = "location_of (shared_as s i ?share) (sv_clients s ! i)"
  let ?h = "\<lparr>th_msg_type = TCP_FILE_LOCATION, th_error_code = ERR_NONE, th_data_len = 302\<rparr>"
  have ok: "share_file_ok ?share" using hash by (simp add: share_file_ok_def)
  have s1: "s1 = handle_share_file s i ?share" unfolding s1_def by (rule server_reads_share [OF hash])
  have stream: "stream_of (tk_in (cl_tcp b)) = enc_tcp_header ?h @ enc_tcp_file_location ?loc @ []"
    using sock shared_is_located [OF server(1-3) ok server(4), of j]
    by (simp add: tcp_delivers_def server_reads_request replies_def s1)
  have sk: "\<forall>n \<in> set (tk_accept (cl_tcp b)). 0 < n" "segments_ok (tk_in (cl_tcp b))"
    using sock by (simp_all add: tcp_delivers_def)
  have loc: "file_location_ok ?loc" "loc_file_id ?loc = sv_next_file_id s"
    using hash by (simp_all add: file_location_ok_def location_of_def shared_as_def)
  obtain k where "get_location b (sv_next_file_id s) = (Inr ?loc, b\<lparr>cl_tcp := k\<rparr>)"
    by (rule get_location_reply [OF sk stream loc]) (simp add: location_of_def shared_as_def)
  moreover have "peer_of ?loc = udp_address (sv_clients s ! i)" "loc_hash ?loc = hash" "loc_file_size ?loc = n"
    "loc_filename ?loc = copy_name name"
    by (simp_all add: peer_of_def location_of_def udp_address_def shared_as_def)
  ultimately show thesis using that by simp
qed


text \<open>A client that shared nothing and receives the server's location of the sample file.\<close>

definition sample_fetcher :: "datagram list \<Rightarrow> client" where
  "sample_fetcher ds =
     (let s1 = process_client_message True sample_server 0 (share_message [97, 0] 2500 (os_sha256 sample_os sample_file));
          s2 = process_client_message True s1 0 (request_message 1)
      in (sample_client [] [SegData (replies s1 s2)])\<lparr>cl_udp_in := ds\<rparr>)"

lemma sample_replies:
  fixes m :: bool
  defines "s1 \<equiv> process_client_message m sample_server 0 (share_message [97, 0] 2500 (os_sha256 sample_os sample_file))"
  shows "replies sample_server s1 \<noteq> []" "replies s1 (process_client_message m s1 0 (request_message 1)) \<noteq> []"
proof -
  let ?share = "\<lparr>sh_file_size = 2500, sh_hash = os_sha256 sample_os sample_file, sh_filename = copy_name [97, 0]\<rparr>"
  have hash: "length (os_sha256 sample_os sample_file) = 32" by (simp add: sample_os_def)
  have a: "0 < (MAX_CLIENTS :: nat)" "c_active (sv_clients sample_server ! 0)" "share_file_ok ?share"
    "sv_num_files sample_server < MAX_FILES"
    using hash by (simp_all add: sample_server_clients share_file_ok_def)
  note l = shared_is_located [OF sample_server_inv a, of 0, unfolded sample_server_facts]
  have s1: "s1 = handle_share_file sample_server 0 ?share" unfolding s1_def by (rule server_reads_share [OF hash])
  show "replies sample_server s1 \<noteq> []" using l by (simp add: s1 replies_def enc_tcp_header_def)
  show "replies s1 (process_client_message m s1 0 (request_message 1)) \<noteq> []"
    using l by (simp add: s1 replies_def server_reads_request enc_tcp_header_def)
qed


end
