(* ===== verification/Client_Dialogues.thy ===== *)
theory Client_Dialogues
  imports Client_Server
begin

text \<open>
  The other dialogues of a client with the directory server: registering and listing the
  files, with the client's socket fed by what the server answers.
\<close>

section \<open>Registering\<close>

lemma server_reads_register:
  "process_client_message m s i (register_message port) = handle_register s i \<lparr>reg_udp_port = port\<rparr>"
proof -
  let ?b = "\<lparr>reg_udp_port = port\<rparr>"
  have "length (enc_tcp_register ?b) = 2" by (simp only: tcp_register.enc_length)
  moreover have "dec_tcp_register (enc_tcp_register ?b) = ?b" using tcp_register.dec_enc [of ?b "[]"] by simp
  ultimately show ?thesis
    using server_reads_message [of "enc_tcp_register ?b" 2 m s i TCP_REGISTER ERR_NONE]
    by (simp add: register_message_def)
qed

text \<open>
  C27. Registering. The server gives a connection that registers an id that no active client
  has, and enters it with the announced UDP port under its own address; the
  client reads exactly this id from the answer, however TCP cuts it, and has sent nothing
  but its registration.
\<close>

theorem register_dialogue:
  fixes m :: bool and port :: u16
  assumes server: "server_inv s" "i < MAX_CLIENTS"
  defines "s' \<equiv> process_client_message m s i (register_message port)"
  assumes sock: "tcp_delivers c (replies s s')"
  shows "(\<exists>c'. register_client c port = (Inr (sv_next_client_id s), c') \<and>
      tk_out (cl_tcp c') = tk_out (cl_tcp c) @ register_message port \<and> stream_of (tk_in (cl_tcp c')) = []) \<and>
    sv_next_client_id s \<notin> set (active_ids s) \<and>
    c_active (sv_clients s' ! i) \<and> c_client_id (sv_clients s' ! i) = sv_next_client_id s \<and>
    udp_address (sv_clients s' ! i) = \<lparr>sin_port = port, sin_addr = sin_addr (c_addr (sv_clients s ! i))\<rparr>"
proof -
  let ?id = "sv_next_client_id s"
  let ?h = "\<lparr>th_msg_type = TCP_REGISTER_ACK, th_error_code = ERR_NONE, th_data_len = 4\<rparr>"
  let ?a = "\<lparr>rack_client_id = ?id\<rparr>"
  have inv: "clients_inv s" using server(1) by (simp add: server_inv_def)
  then have i: "i < length (sv_clients s)" using server(2) by (simp add: clients_inv_def)
  have s': "s' = handle_register s i \<lparr>reg_udp_port = port\<rparr>" unfolding s'_def by (rule server_reads_register)
  have stream: "stream_of (tk_in (cl_tcp c)) = enc_tcp_header ?h @ enc_tcp_register_ack ?a @ []"
    using sock by (simp add: tcp_delivers_def s' replies_def handle_register_def Let_def)
  have sk: "\<forall>n \<in> set (tk_accept (cl_tcp c)). 0 < n" "segments_ok (tk_in (cl_tcp c))"
    using sock by (simp_all add: tcp_delivers_def)
  obtain k1 k2 where k: "send_all (cl_tcp c) (register_message port) = (True, k1)"
    "recv_loop k1 4 [] = (Got (enc_tcp_header ?h), k2)" "stream_of (tk_in k2) = enc_tcp_register_ack ?a @ []"
    "segments_ok (tk_in k2)" "tk_out k2 = tk_out (cl_tcp c) @ register_message port"
    by (rule header_reply [OF sk stream])
  have "length (enc_tcp_register_ack ?a) = 4" by (simp only: tcp_register_ack.enc_length)
  then obtain k3 where k3: "recv_loop k2 4 [] = (Got (enc_tcp_register_ack ?a), k3)" "stream_of (tk_in k3) = []"
    "tk_out k3 = tk_out k2"
    using recv_loop_Got [OF k(4,3)] by metis
  have dec: "dec_tcp_register_ack (enc_tcp_register_ack ?a) = ?a" using tcp_register_ack.dec_enc [of ?a "[]"] by simp
  have "register_client c port = (Inr ?id, c\<lparr>cl_tcp := k3\<rparr>)"
    using k k3 by (simp add: register_client_def dec Let_def)
  moreover have "?id \<notin> set (active_ids s)" using inv by (auto simp: clients_inv_def active_ids_def)
  ultimately show ?thesis using i k(5) k3(2,3)
    by (simp add: s' handle_register_def Let_def udp_address_def)
qed

theorem register_dialogue_witness:
  "\<exists>c'. register_client (sample_client [] [SegData (replies (accept_new_client init_server 5 sample_peer)
      (process_client_message True (accept_new_client init_server 5 sample_peer) 0 (register_message 6000)))]) 6000 =
    (Inr (sv_next_client_id (accept_new_client init_server 5 sample_peer)), c')"
proof -
  let ?s = "accept_new_client init_server 5 sample_peer"
  let ?s' = "process_client_message True ?s 0 (register_message 6000)"
  have inv: "server_inv ?s" using accept_new_client_inv [OF init_server_inv] by blast
  have "replies ?s ?s' \<noteq> []"
    unfolding server_reads_register by (simp add: replies_def handle_register_def Let_def enc_tcp_header_def)
  then have "tcp_delivers (sample_client [] [SegData (replies ?s ?s')]) (replies ?s ?s')"
    by (simp add: tcp_delivers_def sample_client_def segments_ok_def)
  then show ?thesis using register_dialogue [OF inv, of 0 _ True 6000] by auto
qed

section \<open>Listing\<close>

lemma server_reads_list: "process_client_message m s i list_message = handle_list_files m s i"
  using server_reads_message [of "[]" 0 m s i TCP_LIST_FILES ERR_NONE] by (simp add: list_message_def)

text \<open>The wrapped length of a list of 221 to 1024 entries is never a multiple of the size of an entry.\<close>

lemma wrapped_length:
  assumes "220 < n" "n \<le> 1024"
  shows "n * 297 mod 65536 mod 297 \<noteq> (0 :: nat)"
proof
  assume z: "n * 297 mod 65536 mod 297 = 0"
  let ?j = "n * 297 div 65536"
  have "297 dvd n * 297 - n * 297 mod 65536" using z by (intro dvd_diff_nat) auto
  also have "n * 297 - n * 297 mod 65536 = 65536 * ?j" by (simp add: minus_mod_eq_mult_div)
  finally have "297 dvd 65536 * ?j" .
  moreover have "coprime (297 :: nat) 65536" using coprime_power_right_iff [of "297 :: nat" 2 16] by simp
  ultimately have "297 dvd ?j" by (simp add: coprime_dvd_mult_right_iff)
  moreover have "0 < ?j" "?j < 297" using assms by auto
  ultimately show False by (auto dest: dvd_imp_le)
qed

lemma list_stream:
  assumes "server_inv s" "tcp_delivers c (replies s (process_client_message True s i list_message))"
  defines "payload \<equiv> concat (map (\<lambda>f. enc_file_info (info_of f)) (live_files s))"
  shows "stream_of (tk_in (cl_tcp c)) = enc_tcp_header \<lparr>th_msg_type = TCP_FILE_LIST, th_error_code = ERR_NONE,
      th_data_len = of_nat (sv_num_files s * 297)\<rparr> @ payload" "length payload = 297 * sv_num_files s"
    "\<And>k. k < sv_num_files s \<Longrightarrow> dec_file_info (drop (297 * k) payload) = info_of (live_files s ! k)"
  using assms(2) list_response [OF assms(1), of i]
  by (simp_all add: tcp_delivers_def server_reads_list replies_def payload_def)

lemma list_command: "handle_command os c (cmd_list @ [10]) = (case list_files os c of (r, c) \<Rightarrow> after_command (end_of r) c)"
  by (simp add: handle_command_def scan_command_def cmd_list_def cmd_share_def isspace_def Let_def)

text \<open>
  C26. Listing the directory. The command \<^verbatim>\<open>list\<close> shows exactly the files of the server, in its
  order, if there are at most 220 of them. With 221 or more (the server takes 1024) the
  16-bit length of the answer wraps, the client takes it for a malformed answer, shows
  nothing, sends \<^verbatim>\<open>TCP_UNREGISTER\<close> and stops.
\<close>

theorem list_shows_directory:
  assumes inv: "server_inv s" and sock: "tcp_delivers c (replies s (process_client_message True s i list_message))"
    and mem: "\<forall>n. os_malloc os n \<noteq> None"
  shows "\<exists>c'. list_files os c = (Some (if sv_num_files s \<le> 220 then 0 else 1), c') \<and>
    tk_out (cl_tcp c') = tk_out (cl_tcp c) @ list_message \<and>
    cl_shown c' = (if sv_num_files s \<le> 220 then map info_of (live_files s) else cl_shown c) \<and>
    handle_command os c (cmd_list @ [10]) =
      (Returns 0, if sv_num_files s \<le> 220 then c' else (quit c')\<lparr>cl_running := False\<rparr>)"
proof -
  let ?n = "sv_num_files s" and ?payload = "concat (map (\<lambda>f. enc_file_info (info_of f)) (live_files s))"
  let ?h = "\<lparr>th_msg_type = TCP_FILE_LIST, th_error_code = ERR_NONE, th_data_len = of_nat (?n * 297)\<rparr>"
  note p = list_stream [OF inv sock]
  have n: "?n \<le> 1024" "length (live_files s) = ?n" using inv by (simp_all add: server_inv_def files_inv_def live_files_def)
  have len: "unat (th_data_len ?h) = ?n * 297 mod 65536"
    using unat_of_nat [where ?'a = 16, of "?n * 297"] by simp
  have sk: "\<forall>n \<in> set (tk_accept (cl_tcp c)). 0 < n" "segments_ok (tk_in (cl_tcp c))"
    using sock by (simp_all add: tcp_delivers_def)
  obtain k1 k2 where k: "send_all (cl_tcp c) list_message = (True, k1)" "recv_loop k1 4 [] = (Got (enc_tcp_header ?h), k2)"
    "stream_of (tk_in k2) = ?payload" "segments_ok (tk_in k2)" "tk_out k2 = tk_out (cl_tcp c) @ list_message"
    by (rule header_reply [OF sk p(1)])
  have hdr: "dec_tcp_header (enc_tcp_header ?h) = ?h" by (rule dec_header_bare)
  obtain c' where c': "list_files os c = (Some (if ?n \<le> 220 then 0 else 1), c')"
    "tk_out (cl_tcp c') = tk_out (cl_tcp c) @ list_message"
    "cl_shown c' = (if ?n \<le> 220 then map info_of (live_files s) else cl_shown c)"
  proof -
    consider "?n = 0" | "0 < ?n" "?n \<le> 220" | "220 < ?n" by linarith
    then show thesis
    proof cases
      case 1
      then show thesis using that [of "c\<lparr>cl_tcp := k2, cl_shown := []\<rparr>"] k n hdr
        by (simp add: list_files_def Let_def)
    next
      case 2
      have l: "?n * 297 mod 65536 = ?n * 297" using 2(2) by simp
      obtain k3 where k3: "recv_loop k2 (?n * 297) [] = (Got ?payload, k3)" "tk_out k3 = tk_out k2"
        using recv_loop_Got [OF k(4), of ?payload "[]" "?n * 297"] k(3) p(2) by (metis append_Nil2 mult.commute)
      have "map (\<lambda>j. dec_file_info (drop (297 * j) ?payload)) [0 ..< ?n] = map info_of (live_files s)"
        using p(3) n(2) by (intro nth_equalityI) simp_all
      then show thesis
        using that [of "c\<lparr>cl_tcp := k3, cl_shown := map info_of (live_files s)\<rparr>"] k k3 2 hdr len [unfolded l] mem
        by (simp add: list_files_def Let_def)
    next
      case 3
      then have "?n * 297 mod 65536 mod 297 \<noteq> 0" using wrapped_length n(1) by blast
      moreover from this have "?n * 297 mod 65536 \<noteq> 0" by (metis mod_0)
      ultimately show thesis using that [of "c\<lparr>cl_tcp := k2\<rparr>"] k 3 hdr len by (simp add: list_files_def Let_def)
    qed
  qed
  then show ?thesis by (simp add: list_command end_of_def after_command_def)
qed

theorem list_shows_directory_witness:
  "\<exists>c'. list_files sample_os (sample_client [] [SegData (replies sample_server
      (process_client_message True sample_server 0 list_message))]) = (Some 0, c') \<and> cl_shown c' = []"
proof -
  let ?r = "replies sample_server (process_client_message True sample_server 0 list_message)"
  have "?r \<noteq> []" unfolding server_reads_list by (simp add: replies_def handle_list_files_def enc_tcp_header_def)
  then have "tcp_delivers (sample_client [] [SegData ?r]) ?r"
    by (simp add: tcp_delivers_def sample_client_def segments_ok_def)
  moreover have "\<forall>n. os_malloc sample_os n \<noteq> None" by (simp add: sample_os_def)
  moreover have "live_files sample_server = []" by (simp add: live_files_def)
  ultimately show ?thesis using list_shows_directory [OF sample_server_inv] by fastforce
qed

end
