(* ===== verification/Owner_Timeout.thy ===== *)
theory Owner_Timeout
  imports Client_Main
begin

text \<open>
  A transfer ends. When the peer falls silent, the owner's event loop resends what is in
  flight until a packet has used up its retries, and then gives the transfer up: the
  loop does not retransmit for ever.
\<close>

section \<open>Silence\<close>

text \<open>
  A pass in which \<^verbatim>\<open>poll\<close> times out, and the two readings of the clock in it: when the window is filled
  and when the timeouts are checked. The clock never goes back, and from one check to the next
  it advances by at most \<open>G\<close> milliseconds. (\<^verbatim>\<open>poll\<close> waits for 100 ms, so \<open>G\<close> is 100 and what
  the rest of a pass takes.)
\<close>

definition quiet_pass :: "os_answers \<Rightarrow> u64 \<times> u64 \<Rightarrow> client_pass" where
  "quiet_pass os r = \<lparr>cp_poll = 0, cp_line = None, cp_udp = False, cp_now = (fst r, fst r, snd r), cp_os = os\<rparr>"

fun ticks :: "nat \<Rightarrow> u64 \<Rightarrow> (u64 \<times> u64) list \<Rightarrow> bool" where
  "ticks G t [] \<longleftrightarrow> True"
| "ticks G t ((a, b) # rs) \<longleftrightarrow> t \<le> a \<and> a \<le> b \<and> unat b \<le> unat t + G \<and> ticks G b rs"

lemma quiet_pass_step:
  assumes "drive_sender (fst r) (snd r) c = Inr c'"
  shows "client_pass_step c (quiet_pass os r) = NextPass c'"
  using assms by (simp add: client_pass_step_def quiet_pass_def)

text \<open>The age of a packet that was sent at \<open>x\<close>, when the clock goes from \<open>t\<close> to \<open>t'\<close>.\<close>

lemma age_grows:
  fixes t t' x :: u64
  assumes "t \<le> t'" "unat (t - x) < 500"
    and "unat t' - unat t + 500 \<le> 2 ^ 64"
  shows "unat (t' - x) = unat (t - x) + (unat t' - unat t)"
proof -
  have d: "unat (t' - t) = unat t' - unat t" using assms(1) by (rule unat_sub)
  then have "unat (t' - t) + unat (t - x) < 2 ^ 64" using assms(2,3) by simp
  then have "unat ((t' - t) + (t - x)) = unat (t' - t) + unat (t - x)" by (subst unat_add_lem [symmetric]) simp
  then show ?thesis using d by simp
qed

section \<open>A full window\<close>

definition window_full :: "bytes \<Rightarrow> sr_sender_t \<Rightarrow> bool" where
  "window_full F s \<longleftrightarrow> sender_inv F s \<and> window_slid s \<and>
     unat (s_next_seq s) = min (unat (s_base s) + WINDOW_SIZE) (unat (s_num_chunks s))"

lemma send_window_full:
  assumes "window_full F s"
  shows "sr_sender_send_window now env (Some s) = Inr (0, env, Some s)"
proof -
  have inv: "sender_inv F s" and n: "unat (s_next_seq s) = min (unat (s_base s) + WINDOW_SIZE) (unat (s_num_chunks s))"
    using assms by (simp_all add: window_full_def)
  have "\<not> (s_next_seq s < s_base s + WINDOW_SIZE \<and> s_next_seq s < s_num_chunks s)"
    using n sender_inv_bounds [OF inv] by (auto simp: word_less_nat_alt)
  then have "send_window_loop now env s 0 = Inr (0, env, s)" by (auto simp: send_window_loop.simps [of now env s])
  then show ?thesis by (simp add: sr_sender_send_window_def)
qed

lemma window_filled_full:
  assumes "sender_inv F s" "window_slid s" "window_filled F env s n env' s'"
  shows "window_full F s'"
  using window_filled_slid [OF assms] assms(3) by (simp add: window_full_def window_filled_def)

lemma base_pending:
  assumes "window_full F s" "\<not> sr_sender_is_complete s"
  shows "unat (s_base s) \<in> in_flight s" "sw_state (slot s (unat (s_base s))) = PKT_PENDING"
proof -
  have inv: "sender_inv F s" using assms(1) by (simp add: window_full_def)
  have "unat (s_base s) \<le> card (acked s)"
    using card_mono [of "acked s" "{..< unat (s_base s)}"] by (simp add: acked_def in_flight_def)
  also have "\<dots> < unat (s_num_chunks s)"
    using assms(2) inv by (simp add: sr_sender_is_complete_def sender_inv_def word_le_nat_alt)
  finally have b: "unat (s_base s) < unat (s_num_chunks s)" .
  then show f: "unat (s_base s) \<in> in_flight s" using assms(1) by (simp add: window_full_def in_flight_def)
  then have "sw_state (slot s (unat (s_base s))) \<noteq> PKT_EMPTY" using inv by (simp add: sender_inv_def holds_chunk_def)
  moreover have "sw_state (slot s (unat (s_base s))) \<noteq> PKT_ACKED"
    using assms(1) b by (simp add: window_full_def window_slid_def word_less_nat_alt)
  ultimately show "sw_state (slot s (unat (s_base s))) = PKT_PENDING"
    by (cases "sw_state (slot s (unat (s_base s)))") simp_all
qed

section \<open>One silent pass\<close>

text \<open>
  The owner is waiting at the time \<open>t\<close> of its last check: it sends \<open>F\<close> with a full window, and the
  packet at the base has been resent \<open>n\<close> times, for the last time \<open>e\<close> milliseconds ago.
\<close>

definition waiting :: "bytes \<Rightarrow> nat \<Rightarrow> u64 \<Rightarrow> nat \<Rightarrow> client \<Rightarrow> bool" where
  "waiting F n t e c \<longleftrightarrow> cl_transfer_active c \<and> window_full F (cl_sender c) \<and> \<not> sr_sender_is_complete (cl_sender c) \<and>
     sw_retries (slot (cl_sender c) (unat (s_base (cl_sender c)))) = int n \<and> n \<le> MAX_RETRIES \<and>
     unat (t - sw_send_time_ms (slot (cl_sender c) (unat (s_base (cl_sender c))))) = e \<and> e < 500"

definition given_up :: "client \<Rightarrow> bool" where
  "given_up c \<longleftrightarrow> \<not> cl_transfer_active c \<and> cl_file_buffer c = None"

lemma in_flight_retries:
  "window_full F s \<Longrightarrow> k \<in> in_flight s \<Longrightarrow> 0 \<le> sw_retries (slot s k) \<and> sw_retries (slot s k) \<le> MAX_RETRIES"
  by (simp add: window_full_def sender_inv_def holds_chunk_def)

lemma retimed_full: "retimed F env s env' s' \<Longrightarrow> window_full F s \<Longrightarrow> window_full F s'"
  by (simp add: retimed_def window_full_def)

lemma scan_full:
  assumes full: "window_full F s" and scan: "scan_result t 0 s r s'"
    and inc: "\<not> sr_sender_is_complete s" and r: "0 \<le> r"
  defines "b \<equiv> unat (s_base s)"
  shows "slot s' b = (if TIMEOUT_MS \<le> t - sw_send_time_ms (slot s b) then resent t (slot s b) else slot s b)"
    "TIMEOUT_MS \<le> t - sw_send_time_ms (slot s b) \<Longrightarrow> sw_retries (slot s b) < MAX_RETRIES"
proof -
  note p = base_pending [OF full inc, folded b_def]
  have d: "b \<in> due t s \<inter> {0 ..} \<longleftrightarrow> TIMEOUT_MS \<le> t - sw_send_time_ms (slot s b)" using p by (simp add: due_def)
  have no: "\<not> (\<exists>k \<in> due t s \<inter> {0 ..}. MAX_RETRIES \<le> sw_retries (slot s k))"
    using scan r unfolding scan_result_def Let_def by (auto split: if_splits)
  then show "TIMEOUT_MS \<le> t - sw_send_time_ms (slot s b) \<Longrightarrow> sw_retries (slot s b) < MAX_RETRIES" using d by fastforce
  show "slot s' b = (if TIMEOUT_MS \<le> t - sw_send_time_ms (slot s b) then resent t (slot s b) else slot s b)"
    using scan no p(1) d unfolding scan_result_def Let_def by simp
qed

lemma retimed_complete: "sender_inv F s \<Longrightarrow> retimed F env s env' s' \<Longrightarrow> sr_sender_is_complete s' = sr_sender_is_complete s"
  by (simp add: retimed_def sr_sender_is_complete_def sender_inv_def word_le_nat_alt)

text \<open>After a pass with a full window, the owner has stopped, or it waits and the base is as young as can be.\<close>

lemma drive_full:
  assumes act: "cl_transfer_active c"
    and sent: "sr_sender_send_window a (cl_env c) (Some (cl_sender c)) = Inr (n, env1, Some s1)" and full: "window_full F s1"
  defines "e \<equiv> slot s1 (unat (s_base s1))"
  obtains c' where "drive_sender a t c = Inr c'" "cl_running c' = cl_running c" "given_up c'"
  | c' where "drive_sender a t c = Inr c'" "cl_running c' = cl_running c" "\<not> sr_sender_is_complete s1"
    "TIMEOUT_MS \<le> t - sw_send_time_ms e \<longrightarrow> sw_retries e < MAX_RETRIES"
    "waiting F (nat (sw_retries e) + (if TIMEOUT_MS \<le> t - sw_send_time_ms e then 1 else 0)) t
       (if TIMEOUT_MS \<le> t - sw_send_time_ms e then 0 else unat (t - sw_send_time_ms e)) c'"
proof -
  have inv: "sender_inv F s1" using full by (simp add: window_full_def)
  obtain r env2 s2 where t: "sr_sender_check_timeouts env1 s1 t = Inr (r, env2, s2)" "retimed F env1 s1 env2 s2"
    "scan_result t 0 s1 r s2"
    by (rule sr_sender_check_timeouts_inv [OF inv])
  let ?c = "c\<lparr>cl_env := env2, cl_sender := s2\<rparr>"
  show thesis
  proof (cases "r < 0 \<or> sr_sender_is_complete s2")
    case True
    then have "drive_sender a t c = Inr (end_transfer ?c)"
      using act sent t(1) by (auto simp: drive_sender_def Let_def)
    then show thesis by (rule that(1)) (simp_all add: given_up_def)
  next
    case False
    then have d: "drive_sender a t c = Inr ?c" using act sent t(1) by (simp add: drive_sender_def Let_def)
    have inc: "\<not> sr_sender_is_complete s1" using False retimed_complete [OF inv t(2)] by simp
    have r: "0 \<le> r" using False by simp
    note scan = scan_full [OF full t(3) inc r, folded e_def]
    have base: "s_base s2 = s_base s1" using t(2) by (simp add: retimed_def)
    have ret: "0 \<le> sw_retries e" "sw_retries e \<le> MAX_RETRIES"
      using in_flight_retries [OF full base_pending(1) [OF full inc]] by (simp_all add: e_def)
    have "waiting F (nat (sw_retries e) + (if TIMEOUT_MS \<le> t - sw_send_time_ms e then 1 else 0)) t
        (if TIMEOUT_MS \<le> t - sw_send_time_ms e then 0 else unat (t - sw_send_time_ms e)) ?c"
      using act retimed_full [OF t(2) full] False scan base ret
      by (auto simp: waiting_def resent_def word_le_nat_alt)
    then show thesis using scan(2) by (intro that(2) [OF d _ inc]) simp_all
  qed
qed

lemma first_pass:
  assumes "owner_ok c" "cl_transfer_active c"
  obtains c' where "drive_sender a t c = Inr c'" "cl_running c' = cl_running c"
    "given_up c' \<or> (\<exists>F n e. waiting F n t e c')"
proof -
  obtain F where F: "sender_inv F (cl_sender c)" "window_slid (cl_sender c)" using assms(1,2) by (auto simp: owner_ok_def)
  obtain n env1 s1 where w: "sr_sender_send_window a (cl_env c) (Some (cl_sender c)) = Inr (n, env1, Some s1)"
    "window_filled F (cl_env c) (cl_sender c) n env1 s1"
    by (rule sr_sender_send_window_inv [OF F(1)])
  show thesis by (rule drive_full [OF assms(2) w(1) window_filled_full [OF F w(2)], of t]) (use that in blast)+
qed

lemma later_pass:
  assumes wait: "waiting F n t e c" and time: "t \<le> b" "unat b - unat t + 500 \<le> 2 ^ 64"
  obtains c' where "drive_sender a b c = Inr c'" "cl_running c' = cl_running c" "given_up c'"
  | c' where "drive_sender a b c = Inr c'" "cl_running c' = cl_running c"
    "e + (unat b - unat t) < 500" "waiting F n b (e + (unat b - unat t)) c'"
  | c' where "drive_sender a b c = Inr c'" "cl_running c' = cl_running c" "n < MAX_RETRIES" "waiting F (Suc n) b 0 c'"
proof -
  let ?e = "slot (cl_sender c) (unat (s_base (cl_sender c)))"
  have w: "cl_transfer_active c" "window_full F (cl_sender c)" "sw_retries ?e = int n" "unat (t - sw_send_time_ms ?e) = e" "e < 500"
    using wait by (simp_all add: waiting_def)
  have age: "unat (b - sw_send_time_ms ?e) = e + (unat b - unat t)"
    using age_grows [OF time(1) _ time(2), of "sw_send_time_ms ?e"] w(4,5) by simp
  show thesis
  proof (rule drive_full [OF w(1) send_window_full [OF w(2)] w(2), of a b])
    fix c'
    assume d: "drive_sender a b c = Inr c'" "cl_running c' = cl_running c"
      "TIMEOUT_MS \<le> b - sw_send_time_ms ?e \<longrightarrow> sw_retries ?e < MAX_RETRIES"
      "waiting F (nat (sw_retries ?e) + (if TIMEOUT_MS \<le> b - sw_send_time_ms ?e then 1 else 0)) b
        (if TIMEOUT_MS \<le> b - sw_send_time_ms ?e then 0 else unat (b - sw_send_time_ms ?e)) c'"
    show thesis
    proof (cases "TIMEOUT_MS \<le> b - sw_send_time_ms ?e")
      case True
      then show thesis using that(3) [OF d(1,2)] d(3,4) w(3) by simp
    next
      case False
      then have "e + (unat b - unat t) < 500" using age by (simp add: word_le_nat_alt)
      then show thesis using that(2) [OF d(1,2)] d(4) False w(3) age by simp
    qed
  qed (use that(1) in blast)
qed

section \<open>Giving up\<close>

lemma silent_after_giving_up:
  assumes "given_up c" "cl_running c"
  shows "client_loop c (map (quiet_pass os) rs) = NextPass c"
proof (induction rs)
  case (Cons r rs)
  have "drive_sender (fst r) (snd r) c = Inr c" using assms(1) by (simp add: given_up_def drive_sender_def)
  then show ?case using Cons assms(2) by (simp add: quiet_pass_step)
qed simp

text \<open>
  The time that is left: every period of \<^verbatim>\<open>TIMEOUT_MS\<close> and a pass costs a retry.
\<close>

lemma ticks_last: "ticks G t rs \<Longrightarrow> unat t \<le> unat (snd (last ((s, t) # rs)))"
proof (induction G t rs arbitrary: s rule: ticks.induct)
  case (2 G t a b rs)
  then have "unat b \<le> unat (snd (last ((a, b) # rs)))" "unat t \<le> unat b" by (auto simp: word_le_nat_alt)
  then show ?case by simp
qed simp

lemma waiting_gives_up:
  assumes "waiting F n t e c" "ticks G t rs" "G + 500 \<le> 2 ^ 64" "cl_running c"
    and "(Suc MAX_RETRIES - n) * (TIMEOUT_MS + G) \<le> (unat (snd (last ((t, t) # rs))) - unat t) + e"
  shows "\<exists>c'. client_loop c (map (quiet_pass os) rs) = NextPass c' \<and> given_up c'"
  using assms
proof (induction rs arbitrary: n t e c)
  case Nil
  then have n: "n \<le> MAX_RETRIES" "e < 500" by (simp_all add: waiting_def)
  then obtain m where "Suc MAX_RETRIES - n = Suc m" using Suc_diff_le by blast
  then have "TIMEOUT_MS + G \<le> e" using Nil.prems(5) by simp
  then show ?case using n(2) by simp
next
  case (Cons r rs)
  obtain a b where r: "r = (a, b)" by (cases r)
  have tick: "t \<le> b" "unat b \<le> unat t + G" "ticks G b rs" using Cons.prems(2) by (auto simp: r)
  have time: "unat b - unat t + 500 \<le> 2 ^ 64" using tick(2) Cons.prems(3) by simp
  have mono: "unat t \<le> unat b" using tick(1) by (simp add: word_le_nat_alt)
  have last: "unat b \<le> unat (snd (last ((b, b) # rs)))" by (rule ticks_last [OF tick(3)])
  have end_time: "snd (last ((t, t) # r # rs)) = snd (last ((b, b) # rs))" by (simp add: r)
  have step: "client_loop c (map (quiet_pass os) (r # rs)) = client_loop c1 (map (quiet_pass os) rs)"
    if "drive_sender a b c = Inr c1" for c1
    using that Cons.prems(4) quiet_pass_step [of r c c1 os] by (simp add: r)
  show ?case
  proof (rule later_pass [OF Cons.prems(1) tick(1) time, of a])
    fix c1
    assume "drive_sender a b c = Inr c1" "cl_running c1 = cl_running c" "given_up c1"
    then show ?thesis using step silent_after_giving_up [of c1 os rs] Cons.prems(4) by simp
  next
    fix c1
    assume c1: "drive_sender a b c = Inr c1" "cl_running c1 = cl_running c" "waiting F n b (e + (unat b - unat t)) c1"
    have "(Suc MAX_RETRIES - n) * (TIMEOUT_MS + G) \<le> (unat (snd (last ((b, b) # rs))) - unat b) + (e + (unat b - unat t))"
      using Cons.prems(5) last mono unfolding end_time by linarith
    then show ?thesis using Cons.IH [OF c1(3) tick(3) Cons.prems(3)] c1(2) Cons.prems(4) step [OF c1(1)] by simp
  next
    fix c1
    assume c1: "drive_sender a b c = Inr c1" "cl_running c1 = cl_running c" "n < MAX_RETRIES" "waiting F (Suc n) b 0 c1"
    have "Suc MAX_RETRIES - n = Suc (Suc MAX_RETRIES - Suc n)" using c1(3) by simp
    then have "(Suc MAX_RETRIES - Suc n) * (TIMEOUT_MS + G) + (TIMEOUT_MS + G) \<le> (unat (snd (last ((b, b) # rs))) - unat t) + e"
      using Cons.prems(5) unfolding end_time by simp
    moreover have "e < 500" using Cons.prems(1) by (simp add: waiting_def)
    ultimately have "(Suc MAX_RETRIES - Suc n) * (TIMEOUT_MS + G) \<le> (unat (snd (last ((b, b) # rs))) - unat b) + 0"
      using last mono tick(2) by simp
    then show ?thesis using Cons.IH [OF c1(4) tick(3) Cons.prems(3)] c1(2) Cons.prems(4) step [OF c1(1)] by simp
  qed
qed


text \<open>The peer of the sample owner is gone; the loop comes round every 100 ms, for 6.6 seconds.\<close>

definition sample_readings :: "nat \<Rightarrow> (u64 \<times> u64) list" where
  "sample_readings n = map (\<lambda>i. (1000 + 100 * of_nat i, 1000 + 100 * of_nat i)) [1 ..< Suc n]"


end
