(* ===== verification/Client_Steps.thy ===== *)
theory Client_Steps
  imports Client_Main
begin

text \<open>
  What the steps of the client leave alone, and the interface \<open>client_keeps\<close>: a relation that every
  command, every datagram and every run of the sender establish between the states before and after
  holds across any run of the event loop.
\<close>

section \<open>Relations that a run keeps\<close>

locale client_keeps =
  fixes R :: "client \<Rightarrow> client \<Rightarrow> bool" and ok :: "os_answers \<Rightarrow> bool"
  assumes refl: "R c c"
    and trans: "R c c' \<Longrightarrow> R c' c'' \<Longrightarrow> R c c''"
    and command: "handle_command os c line = (e, c') \<Longrightarrow> ok os \<Longrightarrow> R c c'"
    and udp: "handle_udp os now c = Inr (x, c') \<Longrightarrow> ok os \<Longrightarrow> R c c'"
    and drive: "drive_sender now cur c = Inr c' \<Longrightarrow> R c c'"
begin

lemma pass:
  assumes "loop_state (client_pass_step c cp) = Some c'" "ok (cp_os cp)"
  shows "R c c'"
proof -
  obtain e c1 where cmd: "(case cp_line cp of None \<Rightarrow> (Returns 0, c) | Some line \<Rightarrow> handle_command (cp_os cp) c line) = (e, c1)"
    by fastforce
  then have c1: "R c c1" using command refl assms(2) by (auto split: option.splits)
  define u where "u = (if cp_udp cp then handle_udp (cp_os cp) (fst (cp_now cp)) c1 else Inr (GoOn, c1))"
  have c2: "R c c2" if "u = Inr (x, c2)" for x c2
    using that c1 udp assms(2) trans by (auto simp: u_def split: if_splits)
  have c3: "R c c3" if "u = Inr (x, c2)" "drive_sender t v c2 = Inr c3" for x c2 t v c3
    using drive [OF that(2)] c2 [OF that(1)] trans by blast
  have step: "client_pass_step c cp = (if cp_poll cp < 0 then LoopEnds c else case e of
        Waits \<Rightarrow> PassWaits c1 | Faults f \<Rightarrow> PassFaults f
      | Returns _ \<Rightarrow> (case u of Inl f \<Rightarrow> PassFaults f | Inr (Block, c) \<Rightarrow> PassWaits c | Inr (Continue, c) \<Rightarrow> NextPass c
        | Inr (GoOn, c) \<Rightarrow> (case drive_sender (fst (snd (cp_now cp))) (snd (snd (cp_now cp))) c of
            Inl f \<Rightarrow> PassFaults f | Inr c \<Rightarrow> NextPass c)))"
    unfolding client_pass_step_def cmd u_def prod.case ..
  show ?thesis
    using assms(1) refl c1 c2 c3 unfolding step
    by (auto simp: loop_state_def split: if_splits call_end.splits sum.splits udp_end.splits)
qed

lemma loop:
  assumes "loop_state (client_loop c cps) = Some c'" "\<forall>cp \<in> set cps. ok (cp_os cp)"
  shows "R c c'"
  using assms
proof (induction cps arbitrary: c)
  case (Cons cp cps)
  show ?case
  proof (cases "cl_running c")
    case True
    show ?thesis
    proof (cases "\<exists>c1. client_pass_step c cp = NextPass c1")
      case True
      then obtain c1 where c1: "client_pass_step c cp = NextPass c1" by blast
      then have "R c c1" using pass [of c cp c1] Cons.prems(2) by (simp add: loop_state_def)
      moreover have "R c1 c'" using c1 Cons \<open>cl_running c\<close> by simp
      ultimately show ?thesis by (rule trans)
    next
      case False
      then show ?thesis using pass [of c cp c'] Cons.prems \<open>cl_running c\<close>
        by (cases "client_pass_step c cp") auto
    qed
  qed (use Cons.prems refl in \<open>simp add: loop_state_def\<close>)
qed (simp add: loop_state_def refl)

end

section \<open>Commands\<close>

text \<open>A command is one of the four calls, or nothing, and maybe an end.\<close>

lemma after_command_state: "after_command e c = (e', c') \<Longrightarrow> c' = c \<or> c' = (quit c)\<lparr>cl_running := False\<rparr>"
  by (auto simp: after_command_def split: call_end.splits if_splits)

lemma handle_command_state:
  assumes "handle_command os c line = (e, c')"
  obtains c1 where
    "c1 = c \<or> (\<exists>r name. share os c name = (r, c1)) \<or> (\<exists>r. list_files os c = (r, c1)) \<or> (\<exists>r val. get os c val = (r, c1))"
    "c' = c1 \<or> c' = (quit c1)\<lparr>cl_running := False\<rparr>"
proof -
  let ?p = "dropWhile isspace (takeWhile (\<lambda>b. b \<noteq> 0 \<and> b \<noteq> 10) line)"
  obtain n cmd arg where scan: "scan_command ?p = (n, cmd, arg)" by (cases "scan_command ?p")
  define fetched where "fetched = (\<lambda>val. case get os c val of (e, c) \<Rightarrow> after_command e c)"
  have get: "(case strtoul arg of None \<Rightarrow> (Returns 0, c) | Some (val, rest) \<Rightarrow>
      if rest \<noteq> [] then (Returns 0, c) else (case get os c (ucast val) of (e, c) \<Rightarrow> after_command e c)) \<in>
      insert (Returns 0, c) (range fetched)"
    by (auto simp: fetched_def split: option.split)
  have "handle_command os c line \<in> {(Returns 0, c), (Returns 0, (quit c)\<lparr>cl_running := False\<rparr>),
      (case share os c (Some (dropWhile isspace arg)) of (r, c) \<Rightarrow> after_command (end_of r) c),
      (case list_files os c of (r, c) \<Rightarrow> after_command (end_of r) c)} \<union> range fetched" (is "_ \<in> ?R")
    unfolding handle_command_def Let_def scan prod.case
    by (intro if_mem) (use get in auto)
  then consider "c' = c" | "c' = (quit c)\<lparr>cl_running := False\<rparr>"
    | r c1 where "share os c (Some (dropWhile isspace arg)) = (r, c1)" "after_command (end_of r) c1 = (e, c')"
    | r c1 where "list_files os c = (r, c1)" "after_command (end_of r) c1 = (e, c')"
    | r c1 val where "get os c val = (r, c1)" "after_command r c1 = (e, c')"
    unfolding assms fetched_def by (auto split: prod.splits)
  then show thesis
  proof cases
    case (3 r c1)
    then show thesis using that [of c1] after_command_state [of "end_of r" c1] by blast
  next
    case (4 r c1)
    then show thesis using that [of c1] after_command_state [of "end_of r" c1] by blast
  next
    case (5 r c1 val)
    then show thesis using that [of c1] after_command_state [of r c1] by blast
  qed (use that [of c] in blast)+
qed

text \<open>No command touches the transfer that the owner is making, its memory or its streams.\<close>

definition same_parts :: "client \<Rightarrow> client \<Rightarrow> bool" where
  "same_parts c c' \<longleftrightarrow> cl_sender c' = cl_sender c \<and> cl_transfer_active c' = cl_transfer_active c \<and>
     cl_file_buffer c' = cl_file_buffer c \<and> cl_heap c' = cl_heap c \<and> cl_open_files c' = cl_open_files c"

lemma same_parts_refl [simp]: "same_parts c c"
  by (simp add: same_parts_def)

lemma same_parts_trans: "same_parts c c' \<Longrightarrow> same_parts c' c'' \<Longrightarrow> same_parts c c''"
  by (simp add: same_parts_def)

lemma same_parts_simps [simp]:
  "same_parts c (c\<lparr>cl_tcp := k\<rparr>)" "same_parts c (c\<lparr>cl_env := env\<rparr>)" "same_parts c (c\<lparr>cl_udp_in := ds\<rparr>)"
  "same_parts c (c\<lparr>cl_env := env, cl_udp_in := ds\<rparr>)" "same_parts c (c\<lparr>cl_fs := fs\<rparr>)"
  by (simp_all add: same_parts_def)

lemma quit_parts: "same_parts c ((quit c)\<lparr>cl_running := False\<rparr>)" "cl_table ((quit c)\<lparr>cl_running := False\<rparr>) = cl_table c"
  by (simp_all add: same_parts_def quit_def)

lemma list_parts: "list_files os c = (r, c') \<Longrightarrow> same_parts c c' \<and> cl_table c' = cl_table c"
  by (auto simp: list_files_def same_parts_def Let_def split: option.splits prod.splits recv_outcome.splits if_splits)

lemma share_parts: "share os c name = (r, c') \<Longrightarrow> same_parts c c'"
  by (auto simp: share_def same_parts_def Let_def split: option.splits prod.splits recv_outcome.splits if_splits)

lemma save_file_parts: "save_file os c r loc = (e, c') \<Longrightarrow> same_parts c c' \<and> cl_table c' = cl_table c"
  by (auto simp: save_file_def Let_def split: prod.splits option.splits if_splits)

lemma get_parts:
  assumes "get os c file_id = (e, c')"
  shows "same_parts c c' \<and> cl_table c' = cl_table c"
proof -
  obtain x c1 where l: "get_location c file_id = (x, c1)" by fastforce
  obtain k where k: "c1 = c\<lparr>cl_tcp := k\<rparr>" using get_location_frame [OF l] by blast
  show ?thesis
  proof (cases x)
    case (Inl a)
    then show ?thesis using assms l k by (auto simp: get_def)
  next
    case (Inr loc)
    obtain y c2 where w: "await_start os c1 file_id loc = (y, c2)" by fastforce
    then obtain env ds where c2: "c2 = c1\<lparr>cl_env := env, cl_udp_in := ds\<rparr>" using await_start_frame by blast
    have "\<exists>env ds r. c' = c2 \<or> c' = c2\<lparr>cl_env := env, cl_udp_in := ds\<rparr> \<or> save_file os (c2\<lparr>cl_env := env, cl_udp_in := ds\<rparr>) r loc = (e, c')"
      using assms l w Inr
      by (auto simp: get_def split: sum.splits prod.splits option.splits if_splits)
    then show ?thesis using c2 k save_file_parts by (fastforce simp: same_parts_def)
  qed
qed

lemma handle_command_parts:
  assumes "handle_command os c line = (e, c')"
  shows "same_parts c c'"
proof -
  obtain c1 where "c1 = c \<or> (\<exists>r name. share os c name = (r, c1)) \<or> (\<exists>r. list_files os c = (r, c1)) \<or> (\<exists>r val. get os c val = (r, c1))"
    "c' = c1 \<or> c' = (quit c1)\<lparr>cl_running := False\<rparr>"
    by (rule handle_command_state [OF assms])
  then show ?thesis using share_parts list_parts get_parts quit_parts(1) same_parts_trans same_parts_refl by metis
qed

section \<open>Datagrams\<close>

lemma send_window_Some: "sr_sender_send_window now env (Some s) = Inr (n, env', s') \<Longrightarrow> \<exists>s1. s' = Some s1"
  by (auto simp: sr_sender_send_window_def split: sum.splits)

text \<open>The system call that sends the announcement succeeds.\<close>

definition announces :: "os_answers \<Rightarrow> bool" where
  "announces os \<longleftrightarrow> (case os_sendto os of None \<Rightarrow> True | Some n \<Rightarrow> 0 < n)"

text \<open>When the announcement cannot be sent, its stream stays open, and nothing else has changed.\<close>

lemma failed_announcement_leaks:
  "\<not> announces os \<Longrightarrow> start_transfer os now c F peer = Inr (Continue, c\<lparr>cl_open_files := cl_open_files c + 1\<rparr>)"
  by (auto simp: announces_def start_transfer_def Let_def split: option.splits)

text \<open>However large the file is: the stream is left open, nothing of the sender changes, or the new block is served.\<close>

lemma start_transfer_state:
  assumes "start_transfer os now c F peer = Inr (x, c')"
  shows "\<not> announces os \<and> c' = c\<lparr>cl_open_files := cl_open_files c + 1\<rparr> \<or> same_parts c c' \<and> cl_table c' = cl_table c \<or>
    (\<exists>fd size env0 n env s0 s. sr_sender_init (Some (cl_sender c)) fd (Some peer) (Some F) size True = (0, Some s0) \<and>
      sr_sender_send_window now env0 (Some s0) = Inr (n, env, Some s) \<and> c' = serving F env s c)"
proof (cases "announces os")
  case False
  then show ?thesis using failed_announcement_leaks [OF False] assms by auto
next
  case True
  define size where "size = (if ff_tell (os_file os) then -1 else int (length F))"
  define packet where "packet = start_packet (env_order (cl_env c)) (of_int size) (of_int ((size + 1023) div 1024))"
  define env1 where "env1 = snd (sendto (cl_env c) packet peer)"
  have "length packet = 24" unfolding packet_def using start_packet_accepted by blast
  then have sent: "\<not> (case os_sendto os of None \<Rightarrow> int (length packet) | Some n \<Rightarrow> n) \<le> 0"
    using True by (auto simp: announces_def split: option.splits)
  obtain s0 where s0: "sr_sender_init (Some (cl_sender c)) (ll_fd (env_link env1)) (Some peer) (Some F) (of_int size) True = (0, Some s0)"
    by (simp add: sr_sender_init_def)
  define res where "res = sr_sender_send_window now env1 (Some s0)"
  have "start_transfer os now c F peer \<in> {Inr (Continue, c\<lparr>cl_env := env1\<rparr>),
      (case res of Inl f \<Rightarrow> Inl f | Inr (n, env, None) \<Rightarrow> Inr (GoOn, serving F env (cl_sender c) c)
         | Inr (n, env, Some s) \<Rightarrow> Inr (GoOn, serving F env s c))}"
    using sent s0 unfolding res_def env1_def packet_def size_def
    by (cases "ff_tell (os_file os)"; cases "os_sendto os")
      (simp_all add: start_transfer_def Let_def fclose_def serving_def sendto_def split: sum.split prod.split option.split)
  then show ?thesis
    using assms s0 send_window_Some [of now env1 s0]
    by (auto simp: res_def split: sum.splits option.splits prod.splits) blast+
qed

lemma handle_udp_state:
  assumes "handle_udp os now c = Inr (x, c')"
  obtains (idle) ds where "c' = c\<lparr>cl_udp_in := ds\<rparr>"
  | (ack) ds hdr n env s where "sr_sender_handle_ack (cl_env c) (cl_sender c) hdr = (n, env, s)"
    "c' = c\<lparr>cl_udp_in := ds, cl_env := env, cl_sender := s\<rparr>"
  | (request) ds F peer where "start_transfer os now (c\<lparr>cl_udp_in := ds\<rparr>) F peer = Inr (x, c')"
proof (cases "cl_udp_in c")
  case Nil
  then have "c' = c" using assms by (simp add: handle_udp_def lossy_recv_def)
  then show thesis using idle [of "cl_udp_in c"] by simp
next
  case (Cons d ds)
  define c1 where "c1 = c\<lparr>cl_udp_in := ds\<rparr>"
  have c1: "cl_env c1 = cl_env c" "cl_sender c1 = cl_sender c" by (simp_all add: c1_def)
  show thesis
  proof (cases d)
    case DgramError
    then show thesis using assms Cons idle [of ds] by (simp add: handle_udp_def lossy_recv_def)
  next
    case (Dgram p peer)
    let ?hdr = "dec_udp_header (env_order (cl_env c1)) (take 1040 p)"
    obtain n env s where a: "sr_sender_handle_ack (cl_env c1) (cl_sender c1) ?hdr = (n, env, s)" by (metis prod_cases3)
    have "handle_udp os now c \<in> {Inr (Continue, c1), Inr (GoOn, c1), Inr (GoOn, c1\<lparr>cl_env := env, cl_sender := s\<rparr>),
        handle_file_request os now c1 (take 1040 p) peer}"
      using Cons Dgram a by (simp add: handle_udp_def lossy_recv_def Let_def flip: c1_def)
    moreover have "handle_file_request os now c1 (take 1040 p) peer \<in>
        insert (Inr (Continue, c1)) (range (\<lambda>F. start_transfer os now c1 F peer))"
      by (auto simp: handle_file_request_def Let_def split: option.splits)
    ultimately consider "c' = c1" | "c' = c1\<lparr>cl_env := env, cl_sender := s\<rparr>" | F where "start_transfer os now c1 F peer = Inr (x, c')"
      using assms by auto
    then show thesis
      by cases (use idle [of ds] ack [OF a [unfolded c1]] request [of ds] in \<open>simp_all add: c1_def\<close>)
  qed
qed

lemma drive_sender_state:
  assumes "drive_sender now cur c = Inr c'"
  obtains (idle) "c' = c"
  | (driven) n env1 s1 r env2 s2 where "sr_sender_send_window now (cl_env c) (Some (cl_sender c)) = Inr (n, env1, Some s1)"
    "sr_sender_check_timeouts env1 s1 cur = Inr (r, env2, s2)"
    "c' = c\<lparr>cl_env := env2, cl_sender := s2\<rparr> \<or> c' = end_transfer (c\<lparr>cl_env := env2, cl_sender := s2\<rparr>)"
proof (cases "cl_transfer_active c")
  case False
  then show thesis using assms idle by (simp add: drive_sender_def)
next
  case True
  obtain n env1 s1 where w: "sr_sender_send_window now (cl_env c) (Some (cl_sender c)) = Inr (n, env1, Some s1)"
    using assms(1) True send_window_Some by (fastforce simp: drive_sender_def split: sum.splits option.splits)
  obtain r env2 s2 where t: "sr_sender_check_timeouts env1 s1 cur = Inr (r, env2, s2)"
    using assms(1) True w by (auto simp: drive_sender_def split: sum.splits)
  show thesis by (rule driven [OF w t]) (use assms True w t in \<open>auto simp: drive_sender_def Let_def split: if_splits\<close>)
qed

section \<open>Streams\<close>

text \<open>As long as the announcements can be sent, every stream that is opened is closed.\<close>

interpretation streams: client_keeps "\<lambda>c c'. cl_open_files c' = cl_open_files c" announces
proof unfold_locales
  fix os c line e c'
  assume "handle_command os c line = (e, c')"
  then show "cl_open_files c' = cl_open_files c" using handle_command_parts by (simp add: same_parts_def)
next
  fix os now c x c'
  assume "handle_udp os now c = Inr (x, c')" and ok: "announces os"
  then show "cl_open_files c' = cl_open_files c"
  proof (cases rule: handle_udp_state)
    case (request ds F peer)
    then show ?thesis using start_transfer_state [OF request] ok by (auto simp: same_parts_def)
  qed simp_all
next
  fix now cur c c'
  assume "drive_sender now cur c = Inr c'"
  then show "cl_open_files c' = cl_open_files c" by (cases rule: drive_sender_state) auto
qed simp_all

end
