(* ===== verification/Client_Startup.thy ===== *)
theory Client_Startup
  imports Client_Steps
begin

text \<open>
  The client's \<^verbatim>\<open>main\<close> as a whole (\<^verbatim>\<open>client.c\<close>): the arguments, the two sockets, the
  registration, the event loop and the end. What the system calls answer is the record
  \<open>startup\<close>. Every opening and closing of a socket is an event of a ledger; the streams of
  files are counted in the state of the client.

  \<^verbatim>\<open>atoi\<close> is modelled for numbers that fit in an \<^verbatim>\<open>int\<close>; for others C leaves the result open
  and the model takes the value itself. \<^verbatim>\<open>atof\<close>, rounded to \<^verbatim>\<open>float\<close>, is the parameter \<open>atof\<close>.
\<close>

section \<open>Definitions\<close>

definition atoi :: "bytes \<Rightarrow> int" where
  "atoi s =
     (let t = dropWhile isspace s;
          neg = (t \<noteq> [] \<and> hd t = 45);
          t = (if t \<noteq> [] \<and> (hd t = 45 \<or> hd t = 43) then tl t else t);
          v = int (digits_value (takeWhile isdigit t))
      in if neg then - v else v)"

datatype fd_event = Opened int | Closed int

text \<open>The results of \<^verbatim>\<open>socket\<close> and \<^verbatim>\<open>setsockopt\<close>, and of the other calls in their order.\<close>

record startup =
  su_udp :: "int \<times> int"
  su_bind :: int
  su_getsockname :: "int \<times> u16"
  su_time :: u64
  su_tcp :: "int \<times> int"
  su_inet_pton :: "bytes \<Rightarrow> int"
  su_connect :: int

definition socket_events :: "int \<times> int list \<Rightarrow> int \<Rightarrow> fd_event list" where
  "socket_events created fd = (if fd < 0 then [] else Opened fd # map Closed (snd created))"

definition client_setup :: "startup \<Rightarrow> (bytes \<Rightarrow> c_double) \<Rightarrow> bytes list
    \<Rightarrow> (u16 \<times> lossy_link_t \<times> int \<times> int) option \<times> fd_event list" where
  "client_setup su atof argv =
     (if length argv < 3 then (None, [])
      else
        let udp_port = (if length argv \<ge> 4 then of_int (atoi (argv ! 3)) else 0) :: u16;
            udp = create_udp_socket (fst (su_udp su)) (snd (su_udp su));
            udp_fd = fst udp;
            ev = socket_events udp (fst (su_udp su))
        in if udp_fd < 0 then (None, ev)
           else if bind_socket (su_bind su) < 0 then (None, ev @ [Closed udp_fd])
           else if udp_port = 0 \<and> fst (su_getsockname su) = -1 then (None, ev @ [Closed udp_fd])
           else
             let udp_port = (if udp_port = 0 then snd (su_getsockname su) else udp_port);
                 loss_rate = (if length argv \<ge> 5 then atof (argv ! 4) else Finite 0);
                 lossy_link = lossy_init udp_fd loss_rate (su_time su);
                 tcp = create_tcp_socket (fst (su_tcp su)) (snd (su_tcp su));
                 tcp_fd = fst tcp;
                 ev = ev @ socket_events tcp (fst (su_tcp su))
             in if tcp_fd < 0 then (None, ev @ [Closed udp_fd])
                else if su_inet_pton su (argv ! 1) \<noteq> 1 then (None, ev @ [Closed udp_fd, Closed tcp_fd])
                else if su_connect su < 0 then (None, ev @ [Closed tcp_fd, Closed udp_fd])
                else (Some (udp_port, lossy_link, udp_fd, tcp_fd), ev))"

text \<open>
  The world around the process: the byte order of the host, the directory server's
  connection, the datagrams that will arrive and the files.
\<close>

record world =
  wd_order :: byte_order
  wd_tcp :: tcp_sock
  wd_udp_in :: "datagram list"
  wd_fs :: file_system

definition init_client :: "world \<Rightarrow> lossy_link_t \<Rightarrow> client" where
  "init_client w link = \<lparr>cl_tcp = wd_tcp w, cl_table = empty_share_table,
     cl_env = \<lparr>env_order = wd_order w, env_link = link, env_sent = [],
       env_stats = \<lparr>packets_sent = 0, packets_retransmitted = 0, acks_received = 0\<rparr>\<rparr>,
     cl_udp_in = wd_udp_in w, cl_fs = wd_fs w, cl_shown = [], cl_sender = zero_sender,
     cl_file_buffer = None, cl_transfer_active = False, cl_running = True,
     cl_heap = [], cl_open_files = 0\<rparr>"

text \<open>
  How far a run of \<^verbatim>\<open>main\<close> got with the given passes of the loop: it returned an exit code and left
  a number of streams open, it is in the loop, it waits for a socket, or it faulted.
\<close>

datatype main_end = Exits int nat | Loops client | Blocks client | Crashes c_fault

definition client_main :: "startup \<Rightarrow> (bytes \<Rightarrow> c_double) \<Rightarrow> bytes list \<Rightarrow> world \<Rightarrow> client_pass list
    \<Rightarrow> main_end \<times> fd_event list" where
  "client_main su atof argv w passes =
     (case client_setup su atof argv of
        (None, ev) \<Rightarrow> (Exits 1 0, ev)
      | (Some (udp_port, link, udp_fd, tcp_fd), ev) \<Rightarrow>
          let closing = [Closed tcp_fd, Closed udp_fd]
          in case register_client (init_client w link) udp_port of
               (Inl (Some code), c) \<Rightarrow> (Exits code (cl_open_files c), ev @ closing)
             | (Inl None, c) \<Rightarrow> (Blocks c, ev)
             | (Inr client_id, c) \<Rightarrow>
                 (case client_loop c passes of
                    LoopEnds c \<Rightarrow> (Exits 0 (cl_open_files c), ev @ closing)
                  | NextPass c \<Rightarrow> if cl_running c then (Loops c, ev) else (Exits 0 (cl_open_files c), ev @ closing)
                  | PassWaits c \<Rightarrow> (Blocks c, ev)
                  | PassFaults f \<Rightarrow> (Crashes f, ev)))"

section \<open>Descriptors\<close>

text \<open>The descriptors that are open after the events; \<open>None\<close> when one is opened twice or closed without being open.\<close>

fun live_fds :: "int set \<Rightarrow> fd_event list \<Rightarrow> int set option" where
  "live_fds S [] = Some S"
| "live_fds S (Opened fd # ev) = (if fd \<in> S then None else live_fds (insert fd S) ev)"
| "live_fds S (Closed fd # ev) = (if fd \<in> S then live_fds (S - {fd}) ev else None)"

lemma live_fds_append:
  "live_fds S (xs @ ys) = (case live_fds S xs of None \<Rightarrow> None | Some S' \<Rightarrow> live_fds S' ys)"
  by (induction S xs rule: live_fds.induct) auto

lemma client_setup_ledger:
  assumes "client_setup su atof argv = (r, ev)" "fst (su_tcp su) \<noteq> fst (su_udp su)"
  shows "live_fds {} ev = Some (case r of None \<Rightarrow> {} | Some (port, link, udp_fd, tcp_fd) \<Rightarrow> {udp_fd, tcp_fd}) \<and>
    (\<forall>port link udp_fd tcp_fd. r = Some (port, link, udp_fd, tcp_fd) \<longrightarrow> udp_fd \<noteq> tcp_fd)"
proof -
  have udp: "create_udp_socket a b = (if a < 0 then (-1, []) else if b < 0 then (-1, [a]) else (a, []))" for a b
    by (simp add: create_udp_socket_def)
  have tcp: "create_tcp_socket a b = (if a < 0 then (-1, []) else if b < 0 then (-1, [a]) else (a, []))" for a b
    by (simp add: create_tcp_socket_def)
  show ?thesis
    using assms unfolding client_setup_def Let_def udp tcp
    by (auto simp: socket_events_def live_fds_append split: if_splits)
qed

lemma register_client_end:
  "register_client c port = (Inl code, c') \<Longrightarrow> code = Some 1 \<or> code = None"
  by (auto simp: register_client_def Let_def split: prod.splits recv_outcome.splits if_splits)

lemma register_client_same_owner: "register_client c port = (r, c') \<Longrightarrow> same_owner c c'"
  by (auto simp: register_client_def same_owner_def Let_def split: prod.splits recv_outcome.splits if_splits)

lemma register_client_parts: "register_client c port = (r, c') \<Longrightarrow> same_parts c c' \<and> cl_table c' = cl_table c"
  by (auto simp: register_client_def same_parts_def Let_def split: prod.splits recv_outcome.splits if_splits)

section \<open>Properties of main\<close>


definition sample_startup :: startup where
  "sample_startup = \<lparr>su_udp = (3, 0), su_bind = 0, su_getsockname = (0, 4000), su_time = 464, su_tcp = (4, 0),
     su_inet_pton = (\<lambda>ip. 1), su_connect = 0\<rparr>"


end
