(* ===== verification/Client_Types.thy ===== *)
theory Client_Types
  imports Client_Startup
begin

text \<open>
  The shape of the client's state, in every run and without any bound on files or messages: the
  arrays keep their sizes, the hashes in the table are hashes, and the sender never reads
  a buffer that has been freed: \<^verbatim>\<open>global_file_buffer\<close> is not \<^verbatim>\<open>NULL\<close> exactly while
  \<^verbatim>\<open>transfer_active\<close> is set, and then it points to a block that is allocated and holds the sender's
  \<^verbatim>\<open>file_data\<close>.
\<close>

section \<open>The sender keeps its arrays and its file\<close>

definition sender_kept :: "sr_sender_t \<Rightarrow> sr_sender_t \<Rightarrow> bool" where
  "sender_kept s s' \<longleftrightarrow> (window_ok s \<longrightarrow> window_ok s') \<and> s_file_data s' = s_file_data s"

lemma sender_kept_refl [simp]: "sender_kept s s"
  by (simp add: sender_kept_def)

lemma sender_kept_trans: "sender_kept s s' \<Longrightarrow> sender_kept s' s'' \<Longrightarrow> sender_kept s s''"
  by (simp add: sender_kept_def)

lemma window_ok_update:
  assumes "window_ok s" "s_window s' = (s_window s)[i := e]" "length (sw_data e) = CHUNK_SIZE"
  shows "window_ok s'"
proof -
  have "\<forall>x \<in> set ((s_window s)[i := e]). length (sw_data x) = CHUNK_SIZE"
    using set_update_subset_insert [of "s_window s" i e] assms(1,3) by (auto simp: window_ok_def)
  then show ?thesis using assms(1,2) by (simp add: window_ok_def)
qed

lemma window_ok_entry: "window_ok s \<Longrightarrow> length (sw_data (s_window s ! widx seq)) = CHUNK_SIZE"
  by (simp add: window_ok_def)

lemma send_chunk_kept:
  assumes "send_chunk now env s = Inr (env', s')"
  shows "sender_kept s s'"
proof -
  obtain stored e where st: "memcpy_at (sw_data (s_window s ! widx (s_next_seq s))) 0 e = Inr stored"
    and s': "s_window s' = (s_window s)[widx (s_next_seq s) := \<lparr>sw_state = PKT_PENDING, sw_seq_num = s_next_seq s, sw_data = stored,
        sw_data_len = chunk_len_of s (s_next_seq s * CHUNK_SIZE), sw_send_time_ms = now, sw_retries = 0\<rparr>]"
      "s_file_data s' = s_file_data s"
    using assms by (auto simp: send_chunk_def Let_def split: sum.splits)
  have "window_ok s'" if "window_ok s"
    by (rule window_ok_update [OF that s'(1)]) (use memcpy_at_length [OF st] window_ok_entry [OF that] in simp)
  then show ?thesis using s'(2) by (simp add: sender_kept_def)
qed

lemma send_window_loop_kept:
  assumes "send_window_loop now env s n = Inr (n', env', s')"
  shows "sender_kept s s'"
  by (rule send_window_loop_keeps [where P = "sender_kept s", OF _ _ assms])
    (use send_chunk_kept sender_kept_trans in \<open>blast, simp\<close>)

lemma send_window_kept: "sr_sender_send_window now env (Some s) = Inr (n, env', Some s') \<Longrightarrow> sender_kept s s'"
  by (auto simp: sr_sender_send_window_def split: sum.splits dest: send_window_loop_kept)

lemma slide_kept: "sender_kept s (slide_send_window s)"
proof (induction s rule: slide_send_window.induct)
  case (1 s)
  let ?s = "s\<lparr>s_window := (s_window s)[widx (s_base s) := (s_window s ! widx (s_base s))\<lparr>sw_state := PKT_EMPTY\<rparr>],
    s_base := s_base s + 1\<rparr>"
  have "sender_kept s ?s"
    using window_ok_update [of s ?s] window_ok_entry [of s] by (auto simp: sender_kept_def)
  then show ?case using 1 sender_kept_trans by (subst slide_send_window.simps) (auto simp: Let_def)
qed

lemma handle_ack_kept:
  assumes "sr_sender_handle_ack env s hdr = (n, env', s')"
  shows "sender_kept s s'"
proof -
  let ?e = "s_window s ! widx (uh_ack_num hdr)"
  have m: "sender_kept s (snd (mark_acked (uh_ack_num hdr) env s))"
    using window_ok_update [of s "snd (mark_acked (uh_ack_num hdr) env s)" _ "?e\<lparr>sw_state := PKT_ACKED\<rparr>"] window_ok_entry [of s]
    by (auto simp: sender_kept_def mark_acked_def Let_def)
  have "s' = s \<or> s' = slide_send_window (snd (mark_acked (uh_ack_num hdr) env s))"
    using assms by (auto simp: sr_sender_handle_ack_def Let_def split: if_splits prod.splits)
  then show ?thesis using m slide_kept sender_kept_trans sender_kept_refl by metis
qed

lemma check_timeout_kept:
  assumes "check_timeout now seq env s = Inr (r, env', s')"
  shows "sender_kept s s'"
proof -
  let ?e = "s_window s ! widx seq"
  have "s' = s \<or> s' = s\<lparr>s_window := (s_window s)[widx seq := ?e\<lparr>sw_send_time_ms := now, sw_retries := sw_retries ?e + 1\<rparr>]\<rparr>"
    using assms by (auto simp: check_timeout_def Let_def split: sum.splits if_splits)
  then show ?thesis
    using window_ok_update [of s s' "widx seq" "?e\<lparr>sw_send_time_ms := now, sw_retries := sw_retries ?e + 1\<rparr>"]
      window_ok_entry [of s seq] by (auto simp: sender_kept_def)
qed

lemma check_timeouts_loop_kept: "check_timeouts_loop now seq n env s = Inr (r, env', s') \<Longrightarrow> sender_kept s s'"
proof (induction now seq n env s arbitrary: r env' s' rule: check_timeouts_loop.induct)
  case (1 now seq n env s)
  show ?case
  proof (cases "seq < s_next_seq s")
    case True
    then obtain r1 env1 s1 where c: "check_timeout now seq env s = Inr (r1, env1, s1)"
      using "1.prems" by (auto simp: check_timeouts_loop.simps [of now seq n env s] split: sum.splits)
    have "s1 = s' \<or> sender_kept s1 s'"
      using "1.prems" True c "1.IH" [OF True c refl refl]
      by (auto simp: check_timeouts_loop.simps [of now seq n env s] split: if_splits)
    then show ?thesis using check_timeout_kept [OF c] sender_kept_trans by blast
  next
    case False
    then show ?thesis using "1.prems" by (simp add: check_timeouts_loop.simps [of now seq n env s])
  qed
qed

lemma check_timeouts_kept: "sr_sender_check_timeouts env s now = Inr (r, env', s') \<Longrightarrow> sender_kept s s'"
  unfolding sr_sender_check_timeouts_def by (rule check_timeouts_loop_kept)

section \<open>The client keeps its shape\<close>

definition client_typed :: "client \<Rightarrow> bool" where
  "client_typed c \<longleftrightarrow> share_table_ok (cl_table c) \<and> window_ok (cl_sender c) \<and>
     cl_transfer_active c = (cl_file_buffer c \<noteq> None) \<and>
     (\<forall>a. cl_file_buffer c = Some a \<longrightarrow> a < length (cl_heap c) \<and> cl_heap c ! a = Some (s_file_data (cl_sender c)))"

text \<open>What the hash function and the array it fills promise.\<close>

definition os_typed :: "os_answers \<Rightarrow> bool" where
  "os_typed os \<longleftrightarrow> (\<forall>data. length (os_sha256 os data) = 32) \<and> length (os_old_hash os) = 32"

lemma same_parts_typed: "same_parts c c' \<Longrightarrow> share_table_ok (cl_table c') \<Longrightarrow> client_typed c \<Longrightarrow> client_typed c'"
  by (simp add: same_parts_def client_typed_def)

lemma share_table:
  assumes "share os c name = (r, c')" "share_table_ok (cl_table c)" "os_typed os"
  shows "share_table_ok (cl_table c')"
proof -
  let ?hash = "compute_sha256 (os_sha256 os) (os_ctx_ok os) (os_old_hash os)"
  have "length (?hash data) = 32" for data using assms(3) by (simp add: os_typed_def compute_sha256_def)
  moreover have "cl_table c' = cl_table c \<or> (\<exists>i n data f. cl_table c' = add_shared_file (cl_table c) i n (?hash data) f)"
    using assms(1) by (fastforce simp: share_def Let_def split: option.splits prod.splits recv_outcome.splits if_splits)
  ultimately show ?thesis using assms(2) add_shared_ok by metis
qed

lemma handle_command_typed:
  assumes "handle_command os c line = (e, c')" "client_typed c" "os_typed os"
  shows "client_typed c'"
proof -
  have table: "share_table_ok (cl_table c)" using assms(2) by (simp add: client_typed_def)
  obtain c1 where "c1 = c \<or> (\<exists>r name. share os c name = (r, c1)) \<or> (\<exists>r. list_files os c = (r, c1)) \<or> (\<exists>r val. get os c val = (r, c1))"
    "c' = c1 \<or> c' = (quit c1)\<lparr>cl_running := False\<rparr>"
    by (rule handle_command_state [OF assms(1)])
  then have "share_table_ok (cl_table c')"
    using share_table [OF _ table assms(3)] list_parts get_parts quit_parts(2) table by metis
  then show ?thesis using same_parts_typed [OF handle_command_parts [OF assms(1)]] assms(2) by blast
qed

lemma start_transfer_typed:
  assumes "start_transfer os now c F peer = Inr (x, c')" "client_typed c"
  shows "client_typed c'"
  using start_transfer_state [OF assms(1)]
proof (elim disjE exE conjE)
  fix fd size env0 n env s0 s
  assume r: "sr_sender_init (Some (cl_sender c)) fd (Some peer) (Some F) size True = (0, Some s0)"
    "sr_sender_send_window now env0 (Some s0) = Inr (n, env, Some s)" "c' = serving F env s c"
  have "window_ok s0 \<and> s_file_data s0 = F"
    using r(1) by (auto simp: sr_sender_init_def window_ok_def empty_send_entry_def)
  then have "window_ok s \<and> s_file_data s = F" using send_window_kept [OF r(2)] by (simp add: sender_kept_def)
  then show ?thesis using r(3) assms(2) by (simp add: client_typed_def)
qed (use assms(2) in \<open>simp_all add: client_typed_def same_parts_def\<close>)

lemma sender_kept_typed:
  "client_typed c \<Longrightarrow> sender_kept (cl_sender c) s \<Longrightarrow> client_typed (c\<lparr>cl_udp_in := ds, cl_env := env, cl_sender := s\<rparr>)"
  by (simp add: client_typed_def sender_kept_def)

lemma handle_udp_typed:
  assumes "handle_udp os now c = Inr (x, c')" "client_typed c"
  shows "client_typed c'"
  using assms(1)
proof (cases rule: handle_udp_state)
  case (idle ds)
  then show ?thesis using assms(2) by (simp add: client_typed_def)
next
  case (ack ds hdr n env s)
  then show ?thesis using sender_kept_typed [OF assms(2) handle_ack_kept] by blast
next
  case (request ds F peer)
  then show ?thesis using start_transfer_typed [OF request] assms(2) by (simp add: client_typed_def)
qed

lemma drive_sender_typed:
  assumes "drive_sender now cur c = Inr c'" "client_typed c"
  shows "client_typed c'"
  using assms(1)
proof (cases rule: drive_sender_state)
  case idle
  then show ?thesis using assms(2) by simp
next
  case (driven n env1 s1 r env2 s2)
  have "sender_kept (cl_sender c) s2"
    using send_window_kept [OF driven(1)] check_timeouts_kept [OF driven(2)] sender_kept_trans by blast
  then have "client_typed (c\<lparr>cl_env := env2, cl_sender := s2\<rparr>)"
    using sender_kept_typed [OF assms(2), where s = s2 and ds = "cl_udp_in c" and env = env2] by simp
  then show ?thesis using driven(3) by (auto simp: client_typed_def)
qed

interpretation typed: client_keeps "\<lambda>c c'. client_typed c \<longrightarrow> client_typed c'" os_typed
  by unfold_locales (use handle_command_typed handle_udp_typed drive_sender_typed in blast)+

section \<open>Types of a run\<close>

text \<open>
  C20. The shape of the client's state. Suppose SHA-256 yields 32 bytes. In every state that \<^verbatim>\<open>main\<close> reaches, with any commands,
  any messages from the server, any datagrams and any sizes of files: the table has its 1024
  entries with hashes of 32 bytes and terminated names, the window has its 64 entries with
  buffers of 1024 bytes, the pointer to the file buffer is not \<^verbatim>\<open>NULL\<close> exactly while a transfer is
  active, and then it points to a block that is still allocated and holds the data which the sender
  reads. So the sender of an active transfer never reads a freed block, and the end of a transfer
  frees a block that is allocated. (Blocks of transfers that were cut short stay allocated as well.)
\<close>

theorem client_main_typed:
  assumes "client_main su atof argv w passes = (e, ev)" "e = Loops c \<or> e = Blocks c"
    and "\<forall>cp \<in> set passes. os_typed (cp_os cp)"
  shows "client_typed c"
proof -
  have init: "client_typed (init_client w link)" for link
    using empty_share_table_ok
    by (simp add: client_typed_def init_client_def zero_sender_def window_ok_def empty_send_entry_def)
  have reg: "client_typed c1" if "register_client (init_client w link) port = (r, c1)" for link port r c1
    using that init [of link] by (auto simp: register_client_def client_typed_def Let_def split: prod.splits recv_outcome.splits if_splits)
  obtain port link r c1 where "register_client (init_client w link) port = (r, c1)"
    "c = c1 \<or> loop_state (client_loop c1 passes) = Some c"
    using assms(1,2)
    by (fastforce simp: client_main_def loop_state_def Let_def
        split: prod.splits option.splits sum.splits pass_end.splits if_splits)
  then show ?thesis using reg typed.loop assms(3) by blast
qed

theorem client_main_typed_witness:
  "\<exists>c ev. client_main sample_startup (\<lambda>s. Finite 0) [[], [], [53]]
      \<lparr>wd_order = Little, wd_tcp = \<lparr>tk_out = [], tk_accept = [], tk_in = [SegData [2, 0, 0, 4, 0, 0, 0, 9]]\<rparr>, wd_udp_in = [], wd_fs = Map.empty\<rparr> [] =
    (Loops c, ev) \<and> client_typed c"
proof -
  let ?w = "\<lparr>wd_order = Little, wd_tcp = \<lparr>tk_out = [], tk_accept = [], tk_in = [SegData [2, 0, 0, 4, 0, 0, 0, 9]]\<rparr>, wd_udp_in = [], wd_fs = Map.empty\<rparr>"
  obtain link where set_up: "client_setup sample_startup (\<lambda>s. Finite 0) [[], [], [53]] =
      (Some (4000, link, 3, 4), [Opened 3, Opened 4])"
    by (simp add: client_setup_def sample_startup_def create_udp_socket_def create_tcp_socket_def bind_socket_def
        socket_events_def Let_def)
  have "\<exists>id c. register_client (init_client ?w link) 4000 = (Inr id, c) \<and> cl_running c"
    by (simp add: register_client_def init_client_def send_all.simps sock_send_def recv_loop.simps sock_recv_def
        register_message_def enc_tcp_header_def dec_tcp_header_def of_be16_def Let_def)
  then obtain id c where reg: "register_client (init_client ?w link) 4000 = (Inr id, c)" "cl_running c" by blast
  have run: "client_main sample_startup (\<lambda>s. Finite 0) [[], [], [53]] ?w [] = (Loops c, [Opened 3, Opened 4])"
    using set_up reg by (simp add: client_main_def)
  then have "client_typed c" using client_main_typed [OF run] by simp
  then show ?thesis using run by blast
qed

end
