(* ===== verification/Live_Fetch.thy ===== *)
theory Live_Fetch
  imports Client_Types Client_Server
begin

text \<open>
  A whole fetch, between the owner's event loop and the receive loop of \<^verbatim>\<open>get\<close>, on links
  without loss: the datagrams each side hands to the kernel are the datagrams the other
  side receives. The owner runs its passes, one acknowledgement each; the fetching client
  runs its loop on what has arrived. Every round moves the window on by its full size.
\<close>

section \<open>The clock of the owner\<close>

text \<open>
  The passes of the owner's loop are numbered: pass 0 takes the request, pass \<open>k + 1\<close> the
  acknowledgement of chunk \<open>k\<close>. \<open>clock p\<close> is what the three readings of the clock in pass \<open>p\<close> yield:
  when the request starts a transfer, before the window is filled, and for the timeouts. Chunk \<open>q\<close> is sent
  in pass 0 or, when it does not fit in the first window, in pass \<open>q - 63\<close>.
\<close>

type_synonym pass_clock = "nat \<Rightarrow> u64 \<times> u64 \<times> u64"

definition sent_at :: "pass_clock \<Rightarrow> nat \<Rightarrow> u64" where
  "sent_at clock q = (if q < WINDOW_SIZE then fst (clock 0) else fst (snd (clock (q - 63))))"

text \<open>Every pass up to pass \<open>n\<close> comes less than \<^verbatim>\<open>TIMEOUT_MS\<close> after each of the 63 passes before it.\<close>

definition timely :: "nat \<Rightarrow> pass_clock \<Rightarrow> bool" where
  "timely n clock \<longleftrightarrow> (\<forall>q \<in> {..n}. \<forall>p \<in> {..q}. q < p + WINDOW_SIZE \<longrightarrow>
     snd (snd (clock q)) - fst (clock p) < TIMEOUT_MS \<and> snd (snd (clock q)) - fst (snd (clock p)) < TIMEOUT_MS)"

lemma timely_sent:
  assumes "timely n clock" "i \<le> n" "i \<le> k" "k < i + WINDOW_SIZE"
  shows "snd (snd (clock i)) - sent_at clock k < TIMEOUT_MS"
proof (cases "k < WINDOW_SIZE")
  case True
  then have "0 \<in> {..i}" "i < 0 + WINDOW_SIZE" using assms(3) by simp_all
  then show ?thesis using assms(1,2) True by (auto simp: timely_def sent_at_def)
next
  case False
  then have "k - 63 \<in> {..i}" "i < k - 63 + WINDOW_SIZE" using assms(3,4) by simp_all
  then show ?thesis using assms(1,2) False unfolding timely_def sent_at_def by (simp only: if_False atMost_iff)
qed

text \<open>The window records for each packet that waits for its acknowledgement when it was sent.\<close>

definition timed :: "pass_clock \<Rightarrow> sr_sender_t \<Rightarrow> bool" where
  "timed clock s \<longleftrightarrow> length (s_window s) = WINDOW_SIZE \<and>
     (\<forall>e \<in> set (s_window s). sw_state e = PKT_PENDING \<longrightarrow> sw_send_time_ms e = sent_at clock (unat (sw_seq_num e)))"

lemma timed_update:
  assumes "timed clock s" "s_window s' = (s_window s)[i := e]"
    "sw_state e = PKT_PENDING \<longrightarrow> sw_send_time_ms e = sent_at clock (unat (sw_seq_num e))"
  shows "timed clock s'"
  using assms set_update_subset_insert [of "s_window s" i e] unfolding timed_def by auto

lemma send_chunk_timed:
  assumes "send_chunk now env s = Inr (env', s')" "timed clock s" "sent_at clock (unat (s_next_seq s)) = now"
  shows "timed clock s'"
proof -
  obtain i e where "s_window s' = (s_window s)[i := e]" "sw_send_time_ms e = now" "sw_seq_num e = s_next_seq s"
    using assms(1) by (auto simp: send_chunk_def Let_def split: sum.splits)
  then show ?thesis using timed_update [OF assms(2)] assms(3) by metis
qed

lemma slide_timed: "timed clock s \<Longrightarrow> timed clock (slide_send_window s)"
proof (induction s rule: slide_send_window.induct)
  case (1 s)
  let ?s = "s\<lparr>s_window := (s_window s)[widx (s_base s) := (s_window s ! widx (s_base s))\<lparr>sw_state := PKT_EMPTY\<rparr>],
    s_base := s_base s + 1\<rparr>"
  have "timed clock ?s" by (rule timed_update [OF "1.prems"]) auto
  then show ?case using 1 by (subst slide_send_window.simps) (auto simp: Let_def)
qed

lemma handle_ack_timed:
  assumes "sr_sender_handle_ack env s hdr = (n, env', s')" "timed clock s"
  shows "timed clock s'"
proof -
  have "timed clock (snd (mark_acked a env s))" for a
    using assms(2) timed_update [OF assms(2), of "snd (mark_acked a env s)"]
    by (auto simp: mark_acked_def Let_def)
  then show ?thesis using assms slide_timed
    by (auto simp: sr_sender_handle_ack_def Let_def split: if_splits prod.splits) (metis snd_conv)
qed

text \<open>While nothing is due, the check of the timeouts changes nothing.\<close>

lemma check_timeouts_timed:
  assumes "timed clock s"
    and due: "\<And>k. unat (s_base s) \<le> k \<Longrightarrow> k < unat (s_next_seq s) \<Longrightarrow> now - sent_at clock k < TIMEOUT_MS"
  shows "sr_sender_check_timeouts env s now = Inr (0, env, s)"
proof -
  have idle: "check_timeout now seq env s = Inr (0, env, s)" if "s_base s \<le> seq" "seq < s_next_seq s" for seq
  proof -
    have "now - sent_at clock (unat seq) < TIMEOUT_MS"
      using due that by (simp add: word_le_nat_alt word_less_nat_alt)
    moreover have "s_window s ! widx seq \<in> set (s_window s)" using assms(1) by (intro nth_mem) (simp add: timed_def)
    ultimately show ?thesis using assms(1) by (auto simp: check_timeout_def timed_def Let_def)
  qed
  have "check_timeouts_loop now seq n env s = Inr (n, env, s)" if "s_base s \<le> seq" for seq n
    using that
  proof (induction "unat (s_next_seq s) - unat seq" arbitrary: seq rule: less_induct)
    case less
    show ?case
    proof (cases "seq < s_next_seq s")
      case True
      note next_seq = unat_Suc_less [OF True]
      have "unat (s_next_seq s) - unat (seq + 1) < unat (s_next_seq s) - unat seq" "s_base s \<le> seq + 1"
        using True less.prems next_seq by (simp_all add: word_less_nat_alt word_le_nat_alt)
      then have "check_timeouts_loop now (seq + 1) n env s = Inr (n, env, s)" using less.hyps by blast
      then show ?thesis using True idle less.prems by (simp add: check_timeouts_loop.simps [of now seq])
    qed (simp add: check_timeouts_loop.simps)
  qed
  then show ?thesis by (simp add: sr_sender_check_timeouts_def)
qed

section \<open>What is sent, in order\<close>

lemma send_chunk_logs:
  assumes inv: "sender_inv F s" and lt: "s_next_seq s < s_num_chunks s" "s_next_seq s < s_base s + WINDOW_SIZE"
    and loss: "lossless env" and res: "send_chunk now env s = Inr (env', s')"
  shows "\<exists>p. env_sent env' = env_sent env @ [(s_peer_addr s, p)] \<and> carries (env_order env) F (unat (s_next_seq s)) p"
proof -
  obtain env1 s1 where c: "send_chunk now env s = Inr (env1, s1)"
    "sends (\<lambda>d. fst d = s_peer_addr s \<and> carries (env_order env) F (unat (s_next_seq s)) (snd d)) env env1"
    by (rule send_chunk_inv [OF inv lt])
  have "ll_loss (env_link (count_sent env)) = Finite 0" "env_sent (count_sent env) = env_sent env"
    using loss by (simp_all add: lossless_def count_sent_def)
  then obtain p where p: "env_sent env' = env_sent env @ [(s_peer_addr s, p)]"
    using res by (auto simp: send_chunk_def Let_def lossy_send_never_drops sendto_sent split: sum.splits if_splits)
  moreover have "carries (env_order env) F (unat (s_next_seq s)) p" using c res p by (auto simp: sends_def)
  ultimately show ?thesis by blast
qed

lemma send_window_logs:
  assumes "sender_inv F s" "lossless env" "send_window_loop now env s n = Inr (n', env', s')"
  shows "(\<exists>ds. env_sent env' = env_sent env @ ds \<and>
      chunk_log (env_order env) F (s_peer_addr s) [unat (s_next_seq s) ..< unat (s_next_seq s')] ds) \<and>
    ((\<forall>q \<in> {unat (s_next_seq s) ..< unat (s_next_seq s')}. sent_at clock q = now) \<longrightarrow> timed clock s \<longrightarrow> timed clock s')"
  using assms
proof (induction now env s n arbitrary: n' env' s' rule: send_window_loop.induct)
  case (1 now env s packets)
  show ?case
  proof (cases "(s_next_seq s < s_base s + WINDOW_SIZE \<and> s_next_seq s < s_num_chunks s) \<and>
      sw_state (s_window s ! widx (s_next_seq s)) = PKT_EMPTY")
    case True
    then obtain env1 s1 where c: "send_chunk now env s = Inr (env1, s1)"
      "send_window_loop now env1 s1 (packets + 1) = Inr (n', env', s')"
      using "1.prems" by (auto simp: send_window_loop.simps [of now env s] split: sum.splits)
    obtain env2 s2 where i: "send_chunk now env s = Inr (env2, s2)" "sender_inv F s2" "s_peer_addr s2 = s_peer_addr s"
      "s_next_seq s2 = s_next_seq s + 1"
      "sends (\<lambda>d. fst d = s_peer_addr s \<and> carries (env_order env) F (unat (s_next_seq s)) (snd d)) env env2"
      by (rule send_chunk_inv [OF "1.prems"(1)]) (use True in auto)
    have s2: "s2 = s1" "env2 = env1" using c(1) i(1) by simp_all
    have next1: "unat (s_next_seq s1) = Suc (unat (s_next_seq s))"
      using unat_Suc_less [of "s_next_seq s" "s_num_chunks s"] True i(4) by (simp add: s2)
    obtain p where p: "env_sent env1 = env_sent env @ [(s_peer_addr s, p)]" "carries (env_order env) F (unat (s_next_seq s)) p"
      using send_chunk_logs [OF "1.prems"(1) _ _ "1.prems"(2) c(1)] True by blast
    have ord: "env_order env1 = env_order env" "lossless env1"
      using i(5) "1.prems"(2) sends_order lossless_sends by (auto simp: s2)
    have IH: "(\<exists>ds. env_sent env' = env_sent env1 @ ds \<and>
        chunk_log (env_order env1) F (s_peer_addr s1) [unat (s_next_seq s1) ..< unat (s_next_seq s')] ds) \<and>
        ((\<forall>q \<in> {unat (s_next_seq s1) ..< unat (s_next_seq s')}. sent_at clock q = now) \<longrightarrow> timed clock s1 \<longrightarrow> timed clock s')"
      using "1.IH" [OF True [THEN conjunct1] _ c(1) refl _ ord(2) c(2)] True i(2) by (simp add: s2)
    then obtain ds where ds: "env_sent env' = env_sent env1 @ ds"
      "chunk_log (env_order env) F (s_peer_addr s) [Suc (unat (s_next_seq s)) ..< unat (s_next_seq s')] ds"
      using ord(1) i(3) next1 by (auto simp: s2)
    have mono: "unat (s_next_seq s1) \<le> unat (s_next_seq s')"
    proof -
      obtain m env3 s3 where "send_window_loop now env1 s1 (packets + 1) = Inr (packets + 1 + m, env3, s3)"
        "window_filled F env1 s1 m env3 s3"
        using send_window_loop_inv [of F s1 now env1 "packets + 1"] i(2) by (auto simp: s2)
      moreover from this have "s3 = s'" using c(2) by simp
      ultimately show ?thesis using sender_inv_bounds(3,4) [OF i(2)] by (simp add: window_filled_def s2)
    qed
    then have "[unat (s_next_seq s) ..< unat (s_next_seq s')] =
        unat (s_next_seq s) # [Suc (unat (s_next_seq s)) ..< unat (s_next_seq s')]"
      using next1 by (simp add: upt_conv_Cons)
    then have "env_sent env' = env_sent env @ ((s_peer_addr s, p) # ds) \<and>
        chunk_log (env_order env) F (s_peer_addr s) [unat (s_next_seq s) ..< unat (s_next_seq s')] ((s_peer_addr s, p) # ds)"
      using ds p by (simp add: chunk_log_def)
    moreover have "timed clock s'" if "\<forall>q \<in> {unat (s_next_seq s) ..< unat (s_next_seq s')}. sent_at clock q = now" "timed clock s"
    proof -
      have "sent_at clock (unat (s_next_seq s)) = now" using that(1) mono next1 by simp
      then have "timed clock s1" using send_chunk_timed [OF c(1) that(2)] by simp
      then show ?thesis using IH that(1) next1 by simp
    qed
    ultimately show ?thesis by blast
  next
    case False
    then have "s' = s \<and> env' = env" using "1.prems"(3) by (auto simp: send_window_loop.simps [of now env s] split: if_splits)
    then show ?thesis by (simp add: chunk_log_def)
  qed
qed

section \<open>The owner's passes\<close>

abbreviation chunks_of :: "bytes \<Rightarrow> nat" where
  "chunks_of F \<equiv> chunk_count (length F)"

text \<open>The sender has had the acknowledgements of exactly the chunks below \<open>i\<close>, and sent the others at the times of \<open>clock\<close>.\<close>

definition sends_from :: "pass_clock \<Rightarrow> bytes \<Rightarrow> sockaddr_in \<Rightarrow> nat \<Rightarrow> sr_sender_t \<Rightarrow> bool" where
  "sends_from clock F b i s \<longleftrightarrow> sender_inv F s \<and> window_slid s \<and> timed clock s \<and> s_peer_addr s = b \<and> acked s = {..< i} \<and> i \<le> chunks_of F"

lemma sends_from_facts:
  assumes "sends_from clock F b i s"
  shows "unat (s_base s) = i" "unat (s_num_chunks s) = chunks_of F" "sr_sender_is_complete s = (i = chunks_of F)"
proof -
  have inv: "sender_inv F s" and a: "acked s = {..< i}" and i: "i \<le> chunks_of F" and slid: "window_slid s"
    using assms by (simp_all add: sends_from_def)
  show num: "unat (s_num_chunks s) = chunks_of F" using inv by (simp add: sender_inv_def sender_static_def)
  have "{..< unat (s_base s)} \<subseteq> acked s" unfolding acked_def by (rule Un_upper1)
  then have "unat (s_base s) \<le> i" unfolding a by simp
  moreover have "i \<le> unat (s_base s)"
  proof (rule ccontr)
    assume "\<not> i \<le> unat (s_base s)"
    then have "unat (s_base s) \<in> acked s" "s_base s < s_num_chunks s" using a i num by (simp_all add: word_less_nat_alt)
    then show False using slid window_slid_acked [OF inv] by blast
  qed
  ultimately show "unat (s_base s) = i" by simp
  show "sr_sender_is_complete s = (i = chunks_of F)"
    using inv a i num by (auto simp: sr_sender_is_complete_def sender_inv_def word_le_nat_alt)
qed

text \<open>The owner in its loop, and the owner when the transfer is over.\<close>

definition owner_at :: "pass_clock \<Rightarrow> bytes \<Rightarrow> sockaddr_in \<Rightarrow> nat \<Rightarrow> client \<Rightarrow> bool" where
  "owner_at clock F b i c \<longleftrightarrow> cl_running c \<and> lossless (cl_env c) \<and>
     (if i < chunks_of F
      then cl_transfer_active c \<and> sends_from clock F b i (cl_sender c) \<and>
        unat (s_next_seq (cl_sender c)) = min (i + WINDOW_SIZE) (chunks_of F)
      else \<not> cl_transfer_active c \<and> cl_file_buffer c = None)"

lemma drive_timely:
  assumes act: "cl_transfer_active c" "cl_running c" "lossless (cl_env c)" and s: "sends_from clock F b i (cl_sender c)"
    and times: "timely (chunks_of F) clock"
      "\<forall>q \<in> {unat (s_next_seq (cl_sender c)) ..< min (i + WINDOW_SIZE) (chunks_of F)}. sent_at clock q = fst (snd (clock i))"
  obtains c' ds where "drive_sender (fst (snd (clock i))) (snd (snd (clock i))) c = Inr c'" "owner_at clock F b i c'"
    "cl_udp_in c' = cl_udp_in c"
    "env_order (cl_env c') = env_order (cl_env c)" "env_sent (cl_env c') = env_sent (cl_env c) @ ds"
    "chunk_log (env_order (cl_env c)) F b [unat (s_next_seq (cl_sender c)) ..< min (i + WINDOW_SIZE) (chunks_of F)] ds"
proof -
  let ?s = "cl_sender c" and ?now = "fst (snd (clock i))"
  have inv: "sender_inv F ?s" "window_slid ?s" "timed clock ?s" "s_peer_addr ?s = b" "i \<le> chunks_of F"
    using s by (simp_all add: sends_from_def)
  note f = sends_from_facts [OF s]
  obtain n env1 s1 where w: "sr_sender_send_window ?now (cl_env c) (Some ?s) = Inr (n, env1, Some s1)"
    "window_filled F (cl_env c) ?s n env1 s1"
    by (rule sr_sender_send_window_inv [OF inv(1)])
  then have loop: "send_window_loop ?now (cl_env c) ?s 0 = Inr (n, env1, s1)"
    by (auto simp: sr_sender_send_window_def split: sum.splits)
  have next1: "unat (s_next_seq s1) = min (i + WINDOW_SIZE) (chunks_of F)" using w(2) f by (simp add: window_filled_def)
  obtain ds where ds: "env_sent env1 = env_sent (cl_env c) @ ds"
    "chunk_log (env_order (cl_env c)) F b [unat (s_next_seq ?s) ..< min (i + WINDOW_SIZE) (chunks_of F)] ds" "timed clock s1"
    using send_window_logs [OF inv(1) act(3) loop, of clock] inv(3,4) next1 times(2) by auto
  have s1: "sends_from clock F b i s1"
    using window_filled_slid [OF inv(1,2) w(2)] w(2) ds(3) s by (simp add: sends_from_def window_filled_def)
  have env: "env_order env1 = env_order (cl_env c)" "lossless env1"
    using w(2) act(3) sends_order lossless_sends unfolding window_filled_def by blast+
  let ?c = "c\<lparr>cl_env := env1, cl_sender := s1\<rparr>"
  let ?c' = "if i = chunks_of F then end_transfer ?c else ?c"
  have "snd (snd (clock i)) - sent_at clock k < TIMEOUT_MS" if "unat (s_base s1) \<le> k" "k < unat (s_next_seq s1)" for k
    by (rule timely_sent [OF times(1) inv(5)]) (use that sends_from_facts(1) [OF s1] next1 in simp_all)
  then have drive: "drive_sender ?now (snd (snd (clock i))) c = Inr ?c'"
    using act(1) w(1) check_timeouts_timed [OF ds(3), of "snd (snd (clock i))" env1] sends_from_facts(3) [OF s1]
    by (simp add: drive_sender_def Let_def)
  have "owner_at clock F b i ?c'" using act s1 env(2) next1 inv(5) by (auto simp: owner_at_def)
  then show thesis using that [OF drive] env(1) ds(1,2) by (auto split: if_splits)
qed

text \<open>The \<open>i\<close>-th acknowledgement arrives in a pass of the owner's loop.\<close>

definition udp_pass :: "os_answers \<Rightarrow> u64 \<times> u64 \<times> u64 \<Rightarrow> client_pass" where
  "udp_pass os now = \<lparr>cp_poll = 1, cp_line = None, cp_udp = True, cp_now = now, cp_os = os\<rparr>"

lemma udp_pass_step:
  assumes "handle_udp os (fst now) c = Inr (GoOn, c1)" "drive_sender (fst (snd now)) (snd (snd now)) c1 = Inr c2"
  shows "client_pass_step c (udp_pass os now) = NextPass c2"
  using assms by (simp add: client_pass_step_def udp_pass_def)

lemma ack_pass:
  assumes own: "owner_at clock F b i c" and i: "i < chunks_of F" and times: "timely (chunks_of F) clock"
    and q: "cl_udp_in c = Dgram (build_ack_packet (env_order (cl_env c)) (of_nat i)) src # rest"
  obtains c' ds where "client_pass_step c (udp_pass os (clock (Suc i))) = NextPass c'" "owner_at clock F b (Suc i) c'" "cl_udp_in c' = rest"
    "env_order (cl_env c') = env_order (cl_env c)" "env_sent (cl_env c') = env_sent (cl_env c) @ ds"
    "chunk_log (env_order (cl_env c)) F b [min (i + WINDOW_SIZE) (chunks_of F) ..< min (Suc i + WINDOW_SIZE) (chunks_of F)] ds"
proof -
  let ?s = "cl_sender c" and ?ord = "env_order (cl_env c)"
  let ?p = "build_ack_packet ?ord (of_nat i)"
  let ?hdr = "dec_udp_header ?ord ?p"
  have o: "cl_transfer_active c" "cl_running c" "lossless (cl_env c)" "sends_from clock F b i ?s"
    "unat (s_next_seq ?s) = min (i + WINDOW_SIZE) (chunks_of F)"
    using own i by (simp_all add: owner_at_def)
  have s: "sender_inv F ?s" "window_slid ?s" "timed clock ?s" "s_peer_addr ?s = b" "acked ?s = {..< i}"
    using o(4) by (simp_all add: sends_from_def)
  note f = sends_from_facts [OF o(4)]
  have "chunks_of F < 2 ^ 22" using sender_inv_bounds(6) [OF s(1)] f(2) by simp
  then have num: "unat (of_nat i :: u32) = i" using i by (simp add: unat_of_nat take_bit_nat_eq_self)
  have flight: "i \<in> in_flight ?s" using f(1) o(5) i by (simp add: in_flight_def)
  obtain env1 s1 where h: "sr_sender_handle_ack (cl_env c) ?s ?hdr = (0, env1, s1)"
    "ack_taken F ?s (if uh_msg_type ?hdr = UDP_ACK then {unat (uh_ack_num ?hdr)} \<inter> in_flight ?s else {}) s1"
    "window_slid ?s \<longrightarrow> window_slid s1" "sends (\<lambda>_. False) (cl_env c) env1"
    by (rule sr_sender_handle_ack_inv [OF s(1)])
  have t1: "sender_inv F s1" "acked s1 = {..< Suc i}" "s_next_seq s1 = s_next_seq ?s" "s_peer_addr s1 = b"
    using h(2) num flight s(4,5) by (auto simp: ack_taken_def build_ack_packet_ok lessThan_Suc)
  have s1: "sends_from clock F b (Suc i) s1"
    using t1 h(3) s(2) handle_ack_timed [OF h(1) s(3)] i by (simp add: sends_from_def)
  have env1: "env_sent env1 = env_sent (cl_env c)" "env_order env1 = ?ord" "lossless env1"
    using sends_nothing [OF h(4)] sends_order [OF h(4)] o(3) lossless_sends [OF h(4)] by simp_all
  let ?c = "c\<lparr>cl_udp_in := rest, cl_env := env1, cl_sender := s1\<rparr>"
  have "take 1040 ?p = ?p" "length ?p = 16" by (simp_all add: build_ack_packet_ok)
  then have udp: "handle_udp os now c = Inr (GoOn, ?c)" for now
    using q h(1) o(1) by (simp add: handle_udp_def lossy_recv_def build_ack_packet_ok Let_def)
  have sent: "\<forall>q \<in> {unat (s_next_seq s1) ..< min (Suc i + WINDOW_SIZE) (chunks_of F)}. sent_at clock q = fst (snd (clock (Suc i)))"
  proof
    fix q
    assume "q \<in> {unat (s_next_seq s1) ..< min (Suc i + WINDOW_SIZE) (chunks_of F)}"
    then have "q = i + WINDOW_SIZE" using t1(3) o(5) by auto
    then show "sent_at clock q = fst (snd (clock (Suc i)))" by (simp add: sent_at_def)
  qed
  obtain c' ds where d: "drive_sender (fst (snd (clock (Suc i)))) (snd (snd (clock (Suc i)))) ?c = Inr c'" "owner_at clock F b (Suc i) c'" "cl_udp_in c' = cl_udp_in ?c"
    "env_order (cl_env c') = env_order (cl_env ?c)" "env_sent (cl_env c') = env_sent (cl_env ?c) @ ds"
    "chunk_log (env_order (cl_env ?c)) F b [unat (s_next_seq (cl_sender ?c)) ..< min (Suc i + WINDOW_SIZE) (chunks_of F)] ds"
    by (rule drive_timely [of ?c clock F b "Suc i"]) (use o s1 env1 times sent in simp_all)
  show thesis
    by (rule that [OF udp_pass_step [OF udp d(1)] d(2)]) (use d(3-6) env1 t1(3) o(5) in simp_all)
qed

lemma chunk_log_append:
  "chunk_log ord F b [i ..< j] xs \<Longrightarrow> chunk_log ord F b [j ..< k] ys \<Longrightarrow> i \<le> j \<Longrightarrow> j \<le> k \<Longrightarrow>
    chunk_log ord F b [i ..< k] (xs @ ys)"
  using upt_add_eq_append [of i j "k - j"] by (simp add: chunk_log_def list_all2_appendI)

lemma ack_passes:
  assumes "owner_at clock F b i c" "i \<le> j" "j \<le> chunks_of F" and times: "timely (chunks_of F) clock"
    and "cl_udp_in c = map (\<lambda>k. Dgram (build_ack_packet (env_order (cl_env c)) (of_nat k)) src) [i ..< j]"
  shows "\<exists>c' ds. client_loop c (map (\<lambda>k. udp_pass os (clock (Suc k))) [i ..< j]) = NextPass c' \<and> owner_at clock F b j c' \<and> cl_udp_in c' = [] \<and>
    env_order (cl_env c') = env_order (cl_env c) \<and> env_sent (cl_env c') = env_sent (cl_env c) @ ds \<and>
    chunk_log (env_order (cl_env c)) F b [min (i + WINDOW_SIZE) (chunks_of F) ..< min (j + WINDOW_SIZE) (chunks_of F)] ds"
  using assms
proof (induction "j - i" arbitrary: i c)
  case 0
  then show ?case by (simp add: chunk_log_def)
next
  case (Suc d)
  then have lt: "i < j" by simp
  have run: "cl_running c" using Suc.prems(1) by (simp add: owner_at_def)
  have q: "cl_udp_in c = Dgram (build_ack_packet (env_order (cl_env c)) (of_nat i)) src #
      map (\<lambda>k. Dgram (build_ack_packet (env_order (cl_env c)) (of_nat k)) src) [Suc i ..< j]"
    using Suc.prems(5) lt by (simp add: upt_conv_Cons)
  have i: "i < chunks_of F" using lt Suc.prems(3) by simp
  obtain c1 ds1 where p: "client_pass_step c (udp_pass os (clock (Suc i))) = NextPass c1" "owner_at clock F b (Suc i) c1"
    "cl_udp_in c1 = map (\<lambda>k. Dgram (build_ack_packet (env_order (cl_env c)) (of_nat k)) src) [Suc i ..< j]"
    "env_order (cl_env c1) = env_order (cl_env c)" "env_sent (cl_env c1) = env_sent (cl_env c) @ ds1"
    "chunk_log (env_order (cl_env c)) F b [min (i + WINDOW_SIZE) (chunks_of F) ..< min (Suc i + WINDOW_SIZE) (chunks_of F)] ds1"
    by (rule ack_pass [OF Suc.prems(1) i times q])
  have "d = j - Suc i" "Suc i \<le> j" using Suc.hyps(2) lt by simp_all
  then obtain c' ds2 where r: "client_loop c1 (map (\<lambda>k. udp_pass os (clock (Suc k))) [Suc i ..< j]) = NextPass c'" "owner_at clock F b j c'"
    "cl_udp_in c' = []" "env_order (cl_env c') = env_order (cl_env c)" "env_sent (cl_env c') = env_sent (cl_env c1) @ ds2"
    "chunk_log (env_order (cl_env c)) F b [min (Suc i + WINDOW_SIZE) (chunks_of F) ..< min (j + WINDOW_SIZE) (chunks_of F)] ds2"
    using Suc.hyps(1) [of "Suc i" c1] p Suc.prems(3) times by auto
  have "client_loop c (map (\<lambda>k. udp_pass os (clock (Suc k))) [i ..< j]) = NextPass c'"
    using run p(1) r(1) lt by (simp add: upt_conv_Cons)
  moreover have "chunk_log (env_order (cl_env c)) F b
      [min (i + WINDOW_SIZE) (chunks_of F) ..< min (j + WINDOW_SIZE) (chunks_of F)] (ds1 @ ds2)"
    by (rule chunk_log_append [OF p(6) r(6)]) (use lt in auto)
  ultimately show ?case using r p(5) by auto
qed

section \<open>The receive loop\<close>

definition fetcher_at :: "bytes \<Rightarrow> sockaddr_in \<Rightarrow> nat \<Rightarrow> udp_env \<Rightarrow> sr_receiver_t \<Rightarrow> bool" where
  "fetcher_at F a i env r \<longleftrightarrow> recv_inv F r \<and> recv_slid r \<and> got r = {..< i} \<and> r_peer_addr r = a \<and> lossless env"

lemma fetcher_complete:
  assumes "fetcher_at F a i env r" "i \<le> chunks_of F"
  shows "sr_receiver_is_complete r = (i = chunks_of F)" "i < chunks_of F \<Longrightarrow> unat (r_base r) = i"
proof -
  have r: "recv_inv F r" "recv_slid r" "got r = {..< i}" using assms(1) by (simp_all add: fetcher_at_def)
  have sub: "{..< unat (r_base r)} \<subseteq> got r" unfolding got_def by (rule Un_upper1)
  then have le: "unat (r_base r) \<le> i" unfolding r(3) by simp
  show eq: "sr_receiver_is_complete r = (i = chunks_of F)"
  proof
    assume "sr_receiver_is_complete r"
    then show "i = chunks_of F" using le assms(2) recv_inv_bounds(3) [OF r(1)]
      by (simp add: sr_receiver_is_complete_def word_le_nat_alt)
  next
    assume "i = chunks_of F"
    then show "sr_receiver_is_complete r" using receiver_all_got_complete [OF r(1,2)] r(3) by simp
  qed
  assume "i < chunks_of F"
  then show "unat (r_base r) = i" using slid_base_le [OF r(1,2), of i] r(3) eq le by auto
qed

lemma receive_in_order:
  assumes "fetcher_at F a i env r" "chunk_log (env_order env) F b [i ..< j] ds" "i \<le> j" "j \<le> chunks_of F"
  shows "\<exists>env' r'. receive_loop a env r (map (\<lambda>d. Dgram (snd d) a) ds) =
      (if j = chunks_of F then None else Some Waits, env', r', []) \<and> fetcher_at F a j env' r' \<and>
    env_order env' = env_order env \<and>
    env_sent env' = env_sent env @ map (\<lambda>k. (a, build_ack_packet (env_order env) (of_nat k))) [i ..< j]"
  using assms
proof (induction "j - i" arbitrary: i env r ds)
  case 0
  then have "ds = []" "i = j" by (simp_all add: chunk_log_def)
  then show ?case using "0.prems" fetcher_complete(1) [OF "0.prems"(1)] by auto
next
  case (Suc d)
  then have lt: "i < j" by simp
  have i: "i < chunks_of F" using lt Suc.prems(4) by simp
  obtain p q ds' where ds: "ds = (q, p) # ds'" "carries (env_order env) F i p" "chunk_log (env_order env) F b [Suc i ..< j] ds'"
    using Suc.prems(2) lt by (auto simp: chunk_log_def upt_conv_Cons list_all2_Cons1)
  have r: "recv_inv F r" "recv_slid r" "got r = {..< i}" "r_peer_addr r = a" "lossless env"
    using Suc.prems(1) by (simp_all add: fetcher_at_def)
  have base: "unat (r_base r) = i" and inc: "\<not> sr_receiver_is_complete r"
    using fetcher_complete [OF Suc.prems(1)] i by simp_all
  obtain env1 r1 where h: "sr_receiver_handle_data env r p = Inr (0, env1, r1)"
    "data_taken F env r (if i < unat (r_base r) + WINDOW_SIZE then {i} else {}) env1 r1"
    by (rule handle_data_inv [OF r(1,2) ds(2) i])
  then obtain n where n: "unat n = i" "env_sent env1 = env_sent env @ [(a, build_ack_packet (env_order env) n)]"
    using handle_data_acks [OF r(1) ds(2) i _ r(5)] base r(4) by fastforce
  have n': "n = of_nat i" unfolding n(1) [symmetric] by simp
  have t: "recv_inv F r1" "recv_slid r1" "got r1 = {..< Suc i}" "r_peer_addr r1 = a"
    "sends (ack_datagram env r (got r1)) env env1"
    using h(2) base r(3,4) by (auto simp: data_taken_def lessThan_Suc)
  have ord: "env_order env1 = env_order env" "lossless env1" using sends_order [OF t(5)] lossless_sends [OF t(5)] r(5) by simp_all
  have "fetcher_at F a (Suc i) env1 r1" using t ord(2) by (simp add: fetcher_at_def)
  moreover have "d = j - Suc i" "Suc i \<le> j" using Suc.hyps(2) lt by simp_all
  ultimately obtain env' r' where IH: "receive_loop a env1 r1 (map (\<lambda>d. Dgram (snd d) a) ds') =
      (if j = chunks_of F then None else Some Waits, env', r', [])" "fetcher_at F a j env' r'" "env_order env' = env_order env"
    "env_sent env' = env_sent env1 @ map (\<lambda>k. (a, build_ack_packet (env_order env) (of_nat k))) [Suc i ..< j]"
    using Suc.hyps(1) [of "Suc i" env1 r1 ds'] ds(3) ord(1) Suc.prems(4) by auto
  have "receive_loop a env r (map (\<lambda>d. Dgram (snd d) a) ds) = receive_loop a env1 r1 (map (\<lambda>d. Dgram (snd d) a) ds')"
    using inc h(1) carries_fits [OF ds(2)] by (simp add: ds(1))
  then show ?case using IH n(2) lt by (auto simp: n' upt_conv_Cons)
qed

section \<open>Rounds\<close>

text \<open>
  The two ends and the network between them. \<open>mt_seen\<close> counts the acknowledgements that have been
  delivered and \<open>mt_passes\<close> the passes of the owner's loop since the request, \<open>mt_data\<close> is everything the fetching client has received.
\<close>

record meeting =
  mt_owner :: client
  mt_env :: udp_env
  mt_recv :: sr_receiver_t
  mt_seen :: nat
  mt_passes :: nat
  mt_data :: "datagram list"

definition carry :: "sockaddr_in \<Rightarrow> sockaddr_in \<Rightarrow> (sockaddr_in \<times> bytes) list \<Rightarrow> datagram list" where
  "carry dest src sent = map (\<lambda>d. Dgram (snd d) src) (filter (\<lambda>d. fst d = dest) sent)"

text \<open>
  A round: the network takes what the owner at \<open>a\<close> has sent to \<open>b\<close>, the receive loop runs on it,
  and the acknowledgements come to the owner in as many passes of its loop.
\<close>

definition exchange_round :: "os_answers \<Rightarrow> pass_clock \<Rightarrow> sockaddr_in \<Rightarrow> sockaddr_in \<Rightarrow> meeting \<Rightarrow> meeting option" where
  "exchange_round os clock a b m =
     (let owner = mt_owner m;
          ds = carry b a (env_sent (cl_env owner));
          owner = owner\<lparr>cl_env := (cl_env owner)\<lparr>env_sent := []\<rparr>\<rparr>;
          (e, env, r, rest) = receive_loop a (mt_env m) (mt_recv m) ds;
          acks = carry a b (drop (mt_seen m) (env_sent env));
          passes = map (\<lambda>k. udp_pass os (clock (Suc k))) [mt_passes m ..< mt_passes m + length acks]
      in case client_loop (owner\<lparr>cl_udp_in := cl_udp_in owner @ acks\<rparr>) passes of
           NextPass owner \<Rightarrow> Some \<lparr>mt_owner = owner, mt_env = env, mt_recv = r,
               mt_seen = length (env_sent env), mt_passes = mt_passes m + length acks, mt_data = mt_data m @ ds\<rparr>
         | _ \<Rightarrow> None)"

fun exchange :: "os_answers \<Rightarrow> pass_clock \<Rightarrow> sockaddr_in \<Rightarrow> sockaddr_in \<Rightarrow> nat \<Rightarrow> meeting \<Rightarrow> meeting option" where
  "exchange os clock a b 0 m = Some m"
| "exchange os clock a b (Suc n) m =
     (case exchange_round os clock a b m of None \<Rightarrow> None | Some m \<Rightarrow> exchange os clock a b n m)"

text \<open>Before a round, both ends agree that the chunks below \<open>i\<close> are done, and the following window is on its way.\<close>

definition meeting_at :: "pass_clock \<Rightarrow> bytes \<Rightarrow> sockaddr_in \<Rightarrow> sockaddr_in \<Rightarrow> nat \<Rightarrow> meeting \<Rightarrow> bool" where
  "meeting_at clock F a b i m \<longleftrightarrow>
     i \<le> chunks_of F \<and> owner_at clock F b i (mt_owner m) \<and> cl_udp_in (mt_owner m) = [] \<and>
     fetcher_at F a i (mt_env m) (mt_recv m) \<and> mt_seen m = length (env_sent (mt_env m)) \<and> mt_passes m = i \<and>
     env_order (mt_env m) = env_order (cl_env (mt_owner m)) \<and>
     chunk_log (env_order (mt_env m)) F b [i ..< min (i + WINDOW_SIZE) (chunks_of F)] (env_sent (cl_env (mt_owner m)))"

lemma carry_chunk_log:
  assumes "chunk_log ord F b ks ds"
  shows "carry b a ds = map (\<lambda>d. Dgram (snd d) a) ds"
proof -
  have "fst d = b" if "d \<in> set ds" for d
    using assms that by (auto simp: chunk_log_def list_all2_conv_all_nth in_set_conv_nth)
  then show ?thesis by (simp add: carry_def)
qed

lemma one_round:
  assumes "meeting_at clock F a b i m" and times: "timely (chunks_of F) clock"
  defines "j \<equiv> min (i + WINDOW_SIZE) (chunks_of F)"
  obtains m' ds where "exchange_round os clock a b m = Some m'" "meeting_at clock F a b j m'" "mt_data m' = mt_data m @ ds"
    "receive_loop a (mt_env m) (mt_recv m) ds = (if j = chunks_of F then None else Some Waits, mt_env m', mt_recv m', [])"
proof -
  let ?o = "mt_owner m" and ?ord = "env_order (mt_env m)"
  have m: "i \<le> chunks_of F" "owner_at clock F b i ?o" "cl_udp_in ?o = []" "fetcher_at F a i (mt_env m) (mt_recv m)"
    "mt_seen m = length (env_sent (mt_env m))" "?ord = env_order (cl_env ?o)"
    "chunk_log ?ord F b [i ..< j] (env_sent (cl_env ?o))" "mt_passes m = i"
    using assms(1) unfolding meeting_at_def j_def by blast+
  let ?ds = "map (\<lambda>d. Dgram (snd d) a) (env_sent (cl_env ?o))"
  have ij: "i \<le> j" "j \<le> chunks_of F" using m(1) by (simp_all add: j_def)
  obtain env r where rec: "receive_loop a (mt_env m) (mt_recv m) ?ds =
      (if j = chunks_of F then None else Some Waits, env, r, [])" "fetcher_at F a j env r" "env_order env = ?ord"
    "env_sent env = env_sent (mt_env m) @ map (\<lambda>k. (a, build_ack_packet ?ord (of_nat k))) [i ..< j]"
    using receive_in_order [OF m(4,7) ij] by blast
  have acks: "carry a b (drop (mt_seen m) (env_sent env)) = map (\<lambda>k. Dgram (build_ack_packet ?ord (of_nat k)) b) [i ..< j]"
    by (simp add: rec(4) m(5) carry_def filter_map comp_def)
  let ?o1 = "?o\<lparr>cl_env := (cl_env ?o)\<lparr>env_sent := []\<rparr>, cl_udp_in := map (\<lambda>k. Dgram (build_ack_packet ?ord (of_nat k)) b) [i ..< j]\<rparr>"
  have "owner_at clock F b i ?o1" using m(2) by (simp add: owner_at_def lossless_def)
  then obtain o' ds where own: "client_loop ?o1 (map (\<lambda>k. udp_pass os (clock (Suc k))) [i ..< j]) = NextPass o'" "owner_at clock F b j o'"
    "cl_udp_in o' = []" "env_order (cl_env o') = ?ord" "env_sent (cl_env o') = ds"
    "chunk_log ?ord F b [min (i + WINDOW_SIZE) (chunks_of F) ..< min (j + WINDOW_SIZE) (chunks_of F)] ds"
    using ack_passes [of clock F b i ?o1 j b os] ij m(6) times by auto
  let ?m = "\<lparr>mt_owner = o', mt_env = env, mt_recv = r, mt_seen = length (env_sent env), mt_passes = j,
    mt_data = mt_data m @ ?ds\<rparr>"
  have "exchange_round os clock a b m = Some ?m"
    using own(1) rec(1) acks m(3,8) ij(1) carry_chunk_log [OF m(7), of a]
    by (simp add: exchange_round_def Let_def)
  moreover have "meeting_at clock F a b j ?m"
    using own rec(2,3) ij by (simp add: meeting_at_def j_def)
  ultimately show thesis using that rec(1) by simp
qed

section \<open>The whole fetch\<close>

lemma receive_loop_append:
  "receive_loop peer env r xs = (Some Waits, env', r', []) \<Longrightarrow>
    receive_loop peer env r (xs @ ys) = receive_loop peer env' r' ys"
proof (induction peer env r xs rule: receive_loop.induct)
  case (2 peer env r d ds)
  then show ?case by (auto split: if_splits datagram.splits sum.splits prod.splits)
qed (auto split: if_splits)

text \<open>
  What the fetching client has received so far is a run of its receive loop: it waits for more, or it is done.
\<close>

definition received_so_far :: "bytes \<Rightarrow> sockaddr_in \<Rightarrow> udp_env \<Rightarrow> sr_receiver_t \<Rightarrow> nat \<Rightarrow> meeting \<Rightarrow> bool" where
  "received_so_far F a env r i m \<longleftrightarrow> receive_loop a env r (mt_data m) =
     (if i = chunks_of F then None else Some Waits, mt_env m, mt_recv m, [])"

lemma rounds:
  assumes "meeting_at clock F a b i m" "i < chunks_of F" "received_so_far F a env r i m" "chunks_of F \<le> i + WINDOW_SIZE * n"
    and times: "timely (chunks_of F) clock"
  shows "\<exists>k m'. k \<le> n \<and> exchange os clock a b k m = Some m' \<and> meeting_at clock F a b (chunks_of F) m' \<and>
    received_so_far F a env r (chunks_of F) m'"
  using assms
proof (induction n arbitrary: i m)
  case (Suc n)
  let ?j = "min (i + WINDOW_SIZE) (chunks_of F)"
  obtain m1 ds where r: "exchange_round os clock a b m = Some m1" "meeting_at clock F a b ?j m1" "mt_data m1 = mt_data m @ ds"
    "receive_loop a (mt_env m) (mt_recv m) ds = (if ?j = chunks_of F then None else Some Waits, mt_env m1, mt_recv m1, [])"
    by (rule one_round [OF Suc.prems(1) times])
  have "receive_loop a env r (mt_data m) = (Some Waits, mt_env m, mt_recv m, [])"
    using Suc.prems(2,3) by (simp add: received_so_far_def)
  then have rec: "received_so_far F a env r ?j m1"
    using receive_loop_append [of a env r "mt_data m" "mt_env m" "mt_recv m" ds] r(3,4) by (simp add: received_so_far_def)
  show ?case
  proof (cases "?j = chunks_of F")
    case True
    then show ?thesis using r(1,2) rec by (intro exI [of _ "Suc 0"] exI [of _ m1]) simp
  next
    case False
    then have lt: "?j < chunks_of F" "?j = i + WINDOW_SIZE" by auto
    obtain k m' where "k \<le> n" "exchange os clock a b k m1 = Some m'" "meeting_at clock F a b (chunks_of F) m'"
      "received_so_far F a env r (chunks_of F) m'"
      using Suc.IH [OF r(2) lt(1) rec _ times] lt(2) Suc.prems(4) by auto
    then show ?thesis using r(1) by (intro exI [of _ "Suc k"] exI [of _ m']) simp
  qed
qed simp

text \<open>The request arrives: the owner announces the file and sends the first window in one pass of its loop.\<close>

lemma request_reaches:
  assumes "cl_udp_in c = Dgram (request_packet ord file_id hash) peer # ds" "length hash = 32"
    and "find_shared_file_by_id (cl_table c) file_id = Some e" "cf_hash e = hash"
    and "cl_fs c (c_string (cf_file_name e)) = Some F" "os_file os = no_faults"
  shows "handle_udp os now c = start_transfer os now (c\<lparr>cl_udp_in := ds\<rparr>) F peer"
proof -
  let ?p = "request_packet ord file_id hash"
  note p = request_packet_read [where ord = ord and file_id = file_id, OF assms(2)]
  have "take 1040 ?p = ?p" using p(1) by simp
  then show ?thesis using assms p
    by (simp add: handle_udp_def lossy_recv_def handle_file_request_def no_faults_def Let_def)
qed

lemma start_transfer_logs:
  assumes len: "length F \<le> max_file" and os: "os_file os = no_faults" "os_sendto os = None" "os_malloc os (length F) \<noteq> None"
    and loss: "lossless (cl_env c)"
  obtains c' ds where "start_transfer os (fst (clock 0)) c F b = Inr (GoOn, c')" "sends_from clock F b 0 (cl_sender c')"
    "unat (s_next_seq (cl_sender c')) = min WINDOW_SIZE (chunks_of F)" "cl_transfer_active c'" "cl_running c' = cl_running c"
    "cl_udp_in c' = cl_udp_in c" "lossless (cl_env c')" "env_order (cl_env c') = env_order (cl_env c)"
    "env_sent (cl_env c') = env_sent (cl_env c) @
       (b, start_packet (env_order (cl_env c)) (of_nat (length F)) (of_nat (chunks_of F))) # ds"
    "chunk_log (env_order (cl_env c)) F b [0 ..< min WINDOW_SIZE (chunks_of F)] ds"
proof -
  let ?packet = "start_packet (env_order (cl_env c)) (of_nat (length F)) (of_nat (chunks_of F))"
  let ?env = "snd (sendto (cl_env c) ?packet b)"
  have env: "env_sent ?env = env_sent (cl_env c) @ [(b, ?packet)]" "env_order ?env = env_order (cl_env c)" "lossless ?env"
    "ll_fd (env_link ?env) = ll_fd (env_link (cl_env c))"
    using loss by (simp_all add: sendto_def lossless_def)
  obtain s where s: "sr_sender_init (Some (cl_sender c)) (ll_fd (env_link ?env)) (Some b) (Some F)
      (of_nat (length F)) True = (0, Some s)" "sender_inv F s" "window_slid s" "s_base s = 0" "s_next_seq s = 0" "s_peer_addr s = b"
    by (rule sr_sender_init_inv [OF len])
  have timed: "timed clock s" using s(1) by (auto simp: sr_sender_init_def timed_def empty_send_entry_def)
  obtain n env' s' where w: "sr_sender_send_window (fst (clock 0)) ?env (Some s) = Inr (n, env', Some s')" "window_filled F ?env s n env' s'"
    by (rule sr_sender_send_window_inv [OF s(2)])
  then have loop: "send_window_loop (fst (clock 0)) ?env s 0 = Inr (n, env', s')"
    by (auto simp: sr_sender_send_window_def split: sum.splits)
  have num: "unat (s_num_chunks s) = chunks_of F" using s(2) by (simp add: sender_inv_def sender_static_def)
  have next': "unat (s_next_seq s') = min WINDOW_SIZE (chunks_of F)" using w(2) s(4) num by (simp add: window_filled_def)
  obtain ds where ds: "env_sent env' = env_sent ?env @ ds" "timed clock s'"
    "chunk_log (env_order (cl_env c)) F b [0 ..< min WINDOW_SIZE (chunks_of F)] ds"
    using send_window_logs [OF s(2) env(3) loop, of clock] timed s(5,6) env(2) next' by (auto simp: sent_at_def)
  have "acked s = {}" using s(4,5) by (simp add: acked_def in_flight_def)
  then have from0: "sends_from clock F b 0 s'"
    using window_filled_slid [OF s(2,3) w(2)] w(2) ds(2) s(6) by (simp add: sends_from_def window_filled_def)
  have "env_order env' = env_order ?env" "lossless ?env \<longrightarrow> lossless env'"
    using w(2) sends_order lossless_sends unfolding window_filled_def by blast+
  then have env': "env_order env' = env_order (cl_env c)" "lossless env'" using env(2,3) by simp_all
  have "start_transfer os (fst (clock 0)) c F b = Inr (GoOn, serving F env' s' c)"
    using start_transfer_serves [OF os _ w(1)] s(1) env(4) by simp
  then show thesis by (rule that) (use from0 next' env' ds env(1) in simp_all)
qed

lemma request_pass:
  assumes q: "cl_udp_in c = [Dgram (request_packet ord file_id hash) b]" "length hash = 32"
    and entry: "find_shared_file_by_id (cl_table c) file_id = Some e" "cf_hash e = hash"
    and disk: "cl_fs c (c_string (cf_file_name e)) = Some F" "length F \<le> max_file"
    and os: "os_file os = no_faults" "os_sendto os = None" "os_malloc os (length F) \<noteq> None"
    and run: "cl_running c" "lossless (cl_env c)" and times: "timely (chunks_of F) clock"
  obtains c' ds where "client_pass_step c (udp_pass os (clock 0)) = NextPass c'" "owner_at clock F b 0 c'" "cl_udp_in c' = []"
    "env_order (cl_env c') = env_order (cl_env c)"
    "env_sent (cl_env c') = env_sent (cl_env c) @
       (b, start_packet (env_order (cl_env c)) (of_nat (length F)) (of_nat (chunks_of F))) # ds"
    "chunk_log (env_order (cl_env c)) F b [0 ..< min WINDOW_SIZE (chunks_of F)] ds"
proof -
  let ?c = "c\<lparr>cl_udp_in := []\<rparr>"
  have loss: "lossless (cl_env ?c)" using run(2) by simp
  obtain c1 ds where st: "start_transfer os (fst (clock 0)) ?c F b = Inr (GoOn, c1)" "sends_from clock F b 0 (cl_sender c1)"
    "unat (s_next_seq (cl_sender c1)) = min WINDOW_SIZE (chunks_of F)" "cl_transfer_active c1" "cl_running c1 = cl_running ?c"
    "cl_udp_in c1 = cl_udp_in ?c" "lossless (cl_env c1)" "env_order (cl_env c1) = env_order (cl_env ?c)"
    "env_sent (cl_env c1) = env_sent (cl_env ?c) @
       (b, start_packet (env_order (cl_env ?c)) (of_nat (length F)) (of_nat (chunks_of F))) # ds"
    "chunk_log (env_order (cl_env ?c)) F b [0 ..< min WINDOW_SIZE (chunks_of F)] ds"
    by (rule start_transfer_logs [OF disk(2) os loss])
  have "cl_running c1" using st(5) run(1) by simp
  obtain c' ds' where d: "drive_sender (fst (snd (clock 0))) (snd (snd (clock 0))) c1 = Inr c'" "owner_at clock F b 0 c'" "cl_udp_in c' = cl_udp_in c1"
    "env_order (cl_env c') = env_order (cl_env c1)" "env_sent (cl_env c') = env_sent (cl_env c1) @ ds'"
    "chunk_log (env_order (cl_env c1)) F b [unat (s_next_seq (cl_sender c1)) ..< min (0 + WINDOW_SIZE) (chunks_of F)] ds'"
    by (rule drive_timely [OF st(4) \<open>cl_running c1\<close> st(7,2) times]) (use st(3) in simp)
  have "ds' = []" using d(6) st(3) by (simp add: chunk_log_def)
  moreover have udp: "handle_udp os (fst (clock 0)) c = Inr (GoOn, c1)"
    using request_reaches [OF q entry disk(1) os(1), of "fst (clock 0)"] st(1) by simp
  ultimately show thesis
    by (intro that [OF udp_pass_step [OF udp d(1)] d(2)]) (use d(3-5) st(6,8-10) in simp_all)
qed

text \<open>The fetching client: what it asks for, the state it enters its receive loop with, and how it ends.\<close>

definition receiving :: "os_answers \<Rightarrow> client \<Rightarrow> u32 \<Rightarrow> (udp_env \<times> sr_receiver_t) option" where
  "receiving os c file_id =
     (case get_location c file_id of
        (Inl e, c) \<Rightarrow> None
      | (Inr loc, c) \<Rightarrow>
          (case await_start os c file_id loc of
             (Inl e, c) \<Rightarrow> None
           | (Inr start, c) \<Rightarrow>
               (case sr_receiver_init (Some zero_receiver) (ll_fd (env_link (cl_env c))) (Some (peer_of loc))
                       (fs_file_size start) (fs_num_chunks start) True (os_malloc os (unat (fs_file_size start))) of
                  (res, None) \<Rightarrow> None
                | (res, Some r) \<Rightarrow> if res \<noteq> 0 then None else Some (cl_env c, r))))"

lemma get_location_queue:
  assumes "get_location c file_id = (Inr loc, c1)"
  obtains k where "\<And>q. get_location (c\<lparr>cl_udp_in := q\<rparr>) file_id = (Inr loc, c\<lparr>cl_udp_in := q, cl_tcp := k\<rparr>)"
proof -
  have "get_location (c\<lparr>cl_udp_in := q\<rparr>) file_id = (Inr loc, c\<lparr>cl_udp_in := q, cl_tcp := cl_tcp c1\<rparr>)" for q
    using assms by (auto simp: get_location_def Let_def split: prod.splits recv_outcome.splits if_splits)
  then show thesis by (rule that)
qed

lemma get_asks:
  assumes "get_location c file_id = (Inr loc, c1)" "os_sendto os = None"
  obtains c' where "get os (c\<lparr>cl_udp_in := []\<rparr>) file_id = (Waits, c')"
    "env_sent (cl_env c') = env_sent (cl_env c) @ [(peer_of loc, request_packet (env_order (cl_env c)) file_id (loc_hash loc))]"
proof -
  obtain k where "\<And>q. get_location (c\<lparr>cl_udp_in := q\<rparr>) file_id = (Inr loc, c\<lparr>cl_udp_in := q, cl_tcp := k\<rparr>)"
    by (rule get_location_queue [OF assms(1)]) blast
  then show thesis
    using that assms(2) by (simp add: get_def await_start_def lossy_recv_def sendto_def Let_def)
qed

lemma receiving_resumes:
  assumes loc: "get_location c file_id = (Inr loc, c1)" and os: "os_fine os F" "os_sha256 os F = loc_hash loc"
    and c: "lossless (cl_env c)" and len: "length F \<le> max_file"
  defines "start \<equiv> Dgram (start_packet (env_order (cl_env c)) (of_nat (length F)) (of_nat (chunks_of F))) (peer_of loc)"
  obtains env r where "receiving os (c\<lparr>cl_udp_in := [start]\<rparr>) file_id = Some (env, r)" "fetcher_at F (peer_of loc) 0 env r"
    "env_order env = env_order (cl_env c)"
    "\<And>ds env' r'. receive_loop (peer_of loc) env r ds = (None, env', r', []) \<Longrightarrow>
       sr_receiver_get_file r' = (Some F, of_nat (length F)) \<Longrightarrow>
       \<exists>c'. get os (c\<lparr>cl_udp_in := start # ds\<rparr>) file_id = (Returns 0, c') \<and>
         cl_fs c' = (cl_fs c)(c_string (loc_filename loc) \<mapsto> F)"
proof -
  obtain k where k: "\<And>q. get_location (c\<lparr>cl_udp_in := q\<rparr>) file_id = (Inr loc, c\<lparr>cl_udp_in := q, cl_tcp := k\<rparr>)"
    by (rule get_location_queue [OF loc]) blast
  let ?env = "snd (sendto (cl_env c) (request_packet (env_order (cl_env c)) file_id (loc_hash loc)) (peer_of loc))"
  let ?c = "\<lambda>q. c\<lparr>cl_udp_in := q, cl_tcp := k, cl_env := ?env\<rparr>"
  have env: "lossless ?env" "env_order ?env = env_order (cl_env c)" using c by (simp_all add: sendto_def lossless_def)
  obtain buf where o: "os_malloc os (length F) = Some buf" "length buf = length F" "os_ctx_ok os" "os_file os = no_faults"
    "os_sendto os = None" "take 32 (os_sha256 os F) = loc_hash loc"
    using os by (auto simp: os_fine_def)
  note start = start_packet_accepted [of "env_order (cl_env c)" "of_nat (length F)" "of_nat (chunks_of F)" loc]
  have await: "await_start os (c\<lparr>cl_udp_in := start # q, cl_tcp := k\<rparr>) file_id loc =
      (Inr \<lparr>fs_file_size = of_nat (length F), fs_num_chunks = of_nat (chunks_of F)\<rparr>, ?c q)" for q
    using o(5) start env(2) by (simp add: start_def await_start_def lossy_recv_def Let_def)
  have size: "unat (of_nat (length F) :: u32) = length F" using len by (simp add: max_file_def unat_of_nat)
  obtain r where r: "sr_receiver_init (Some zero_receiver) (ll_fd (env_link ?env)) (Some (peer_of loc)) (of_nat (length F))
      (of_nat (chunks_of F)) True (Some buf) = (0, Some r)" "recv_inv F r" "recv_slid r" "got r = {}" "r_peer_addr r = peer_of loc"
    by (rule sr_receiver_init_inv [OF len o(2)])
  have "receiving os (c\<lparr>cl_udp_in := [start]\<rparr>) file_id = Some (?env, r)"
    using r(1) by (simp add: receiving_def k await size o(1))
  moreover have "fetcher_at F (peer_of loc) 0 ?env r" using r env(1) by (simp add: fetcher_at_def)
  moreover have "get os (c\<lparr>cl_udp_in := start # ds\<rparr>) file_id =
      (Returns 0, (?c [])\<lparr>cl_env := env', cl_fs := (cl_fs c)(c_string (loc_filename loc) \<mapsto> F)\<rparr>)"
    if "receive_loop (peer_of loc) ?env r ds = (None, env', r', [])" "sr_receiver_get_file r' = (Some F, of_nat (length F))"
    for ds env' r'
    using that r(1) o by (simp add: get_def k await size save_file_def compute_sha256_def no_faults_def transferred_def)
  ultimately show thesis using that [of ?env r] env(2) by fastforce
qed

text \<open>
  The whole conversation over UDP: the request \<^verbatim>\<open>get\<close> sends, the pass of the owner's loop that
  answers it, and \<open>n\<close> rounds. \<open>mt_data\<close> is in the end all that the fetching client has received.
\<close>

definition live_fetch :: "os_answers \<Rightarrow> os_answers \<Rightarrow> pass_clock \<Rightarrow> sockaddr_in \<Rightarrow> sockaddr_in \<Rightarrow> client \<Rightarrow> client \<Rightarrow> u32 \<Rightarrow> nat \<Rightarrow> meeting option" where
  "live_fetch osa osb clock a b owner fetcher file_id n =
     (let (e, asking) = get osb (fetcher\<lparr>cl_udp_in := []\<rparr>) file_id;
          requests = carry a b (drop (length (env_sent (cl_env fetcher))) (env_sent (cl_env asking)))
      in case client_loop (owner\<lparr>cl_env := (cl_env owner)\<lparr>env_sent := []\<rparr>, cl_udp_in := cl_udp_in owner @ requests\<rparr>)
                (replicate (length requests) (udp_pass osa (clock 0))) of
           NextPass owner \<Rightarrow>
             (case carry b a (env_sent (cl_env owner)) of
                [] \<Rightarrow> None
              | start # _ \<Rightarrow>
                  (case receiving osb (fetcher\<lparr>cl_udp_in := [start]\<rparr>) file_id of
                     None \<Rightarrow> None
                   | Some (env, r) \<Rightarrow>
                       map_option (\<lambda>m. m\<lparr>mt_data := start # mt_data m\<rparr>)
                         (exchange osa clock a b n
                            \<lparr>mt_owner = owner\<lparr>cl_env := (cl_env owner)\<lparr>env_sent := tl (env_sent (cl_env owner))\<rparr>\<rparr>,
                             mt_env = env, mt_recv = r, mt_seen = length (env_sent env), mt_passes = 0, mt_data = []\<rparr>)))
         | _ \<Rightarrow> None)"


lemma live_fetch_meets:
  assumes loc: "get_location d file_id = (Inr loc, d1)" and c: "cl_udp_in c = []" "cl_running c" "lossless (cl_env c)"
    and entry: "find_shared_file_by_id (cl_table c) file_id = Some e" "cf_hash e = loc_hash loc"
    and disk: "cl_fs c (c_string (cf_file_name e)) = Some F" "length F \<le> max_file"
    and os: "os_fine osa F" "os_fine osb F" "os_sha256 osb F = loc_hash loc"
    and d: "lossless (cl_env d)" "env_order (cl_env d) = env_order (cl_env c)"
    and times: "timely (chunks_of F) clock"
  obtains m env r start where "meeting_at clock F (peer_of loc) b 0 m" "received_so_far F (peer_of loc) env r 0 m"
    "\<And>k. live_fetch osa osb clock (peer_of loc) b c d file_id k =
       map_option (\<lambda>m. m\<lparr>mt_data := start # mt_data m\<rparr>) (exchange osa clock (peer_of loc) b k m)"
    "\<And>ds env' r'. receive_loop (peer_of loc) env r ds = (None, env', r', []) \<Longrightarrow>
       sr_receiver_get_file r' = (Some F, of_nat (length F)) \<Longrightarrow>
       \<exists>d'. get osb (d\<lparr>cl_udp_in := start # ds\<rparr>) file_id = (Returns 0, d') \<and>
         cl_fs d' = (cl_fs d)(c_string (loc_filename loc) \<mapsto> F)"
proof -
  let ?a = "peer_of loc" and ?ord = "env_order (cl_env c)"
  let ?req = "request_packet ?ord file_id (loc_hash loc)"
  let ?start = "Dgram (start_packet ?ord (of_nat (length F)) (of_nat (chunks_of F))) ?a"
  let ?c = "c\<lparr>cl_env := (cl_env c)\<lparr>env_sent := []\<rparr>, cl_udp_in := [Dgram ?req b]\<rparr>"
  have o: "os_sendto osb = None" "length (loc_hash loc) = 32" "os_file osa = no_faults" "os_sendto osa = None"
    "os_malloc osa (length F) \<noteq> None"
    using os by (auto simp: os_fine_def)
  obtain d2 where ask: "get osb (d\<lparr>cl_udp_in := []\<rparr>) file_id = (Waits, d2)"
    "env_sent (cl_env d2) = env_sent (cl_env d) @ [(?a, ?req)]"
    by (rule get_asks [OF loc o(1)]) (simp add: d(2))
  obtain c' ds where req: "client_pass_step ?c (udp_pass osa (clock 0)) = NextPass c'" "owner_at clock F b 0 c'" "cl_udp_in c' = []"
    "env_order (cl_env c') = ?ord" "env_sent (cl_env c') = (b, start_packet ?ord (of_nat (length F)) (of_nat (chunks_of F))) # ds"
    "chunk_log ?ord F b [0 ..< min WINDOW_SIZE (chunks_of F)] ds"
    by (rule request_pass [of ?c ?ord file_id "loc_hash loc" b e F osa clock]) (use entry disk o c times in \<open>simp_all add: lossless_def\<close>)
  obtain env r where rec: "receiving osb (d\<lparr>cl_udp_in := [?start]\<rparr>) file_id = Some (env, r)" "fetcher_at F ?a 0 env r"
    "env_order env = ?ord"
    "\<And>ds env' r'. receive_loop ?a env r ds = (None, env', r', []) \<Longrightarrow> sr_receiver_get_file r' = (Some F, of_nat (length F)) \<Longrightarrow>
       \<exists>d'. get osb (d\<lparr>cl_udp_in := ?start # ds\<rparr>) file_id = (Returns 0, d') \<and>
         cl_fs d' = (cl_fs d)(c_string (loc_filename loc) \<mapsto> F)"
    using receiving_resumes [OF loc os(2,3) d(1) disk(2)] unfolding d(2) by metis
  let ?m = "\<lparr>mt_owner = c'\<lparr>cl_env := (cl_env c')\<lparr>env_sent := ds\<rparr>\<rparr>, mt_env = env, mt_recv = r,
    mt_seen = length (env_sent env), mt_passes = 0, mt_data = []\<rparr>"
  have live: "live_fetch osa osb clock ?a b c d file_id k =
      map_option (\<lambda>m. m\<lparr>mt_data := ?start # mt_data m\<rparr>) (exchange osa clock ?a b k ?m)" for k
    using ask req(1,5) rec(1) c(1,2) by (simp add: live_fetch_def carry_def Let_def)
  have m: "meeting_at clock F ?a b 0 ?m" using req rec(2,3) by (simp add: meeting_at_def owner_at_def lossless_def)
  have "received_so_far F ?a env r 0 ?m"
    using fetcher_complete(1) [OF rec(2)] by (simp add: received_so_far_def)
  then show thesis by (rule that [OF m _ live]) (rule rec(4))
qed

lemma all_rounds:
  assumes "meeting_at clock F a b 0 m" "received_so_far F a env r 0 m" "timely (chunks_of F) clock"
  obtains k m' where "k \<le> (chunks_of F + 63) div WINDOW_SIZE" "exchange os clock a b k m = Some m'"
    "meeting_at clock F a b (chunks_of F) m'" "received_so_far F a env r (chunks_of F) m'"
proof (cases "chunks_of F = 0")
  case True
  then show ?thesis using that [of 0 m] assms by simp
next
  case False
  moreover have "chunks_of F \<le> 0 + WINDOW_SIZE * ((chunks_of F + 63) div WINDOW_SIZE)" by simp
  ultimately show ?thesis using that rounds [OF assms(1) _ assms(2) _ assms(3)] by blast
qed

text \<open>
  C8. A fetch over a prompt link succeeds. The server has told the client \<open>d\<close> where a file is; the client \<open>c\<close>
  at that address shares it and runs its event loop; their hosts have the same byte order and all system
  calls succeed. Neither side drops packets and the network delivers, in lock-step rounds, everything that has been sent in the
  order it was sent; the passes of the owner's loop that take a datagram read any times such that
  each pass comes less than \<^verbatim>\<open>TIMEOUT_MS\<close> after each of the 63 before it, so that every acknowledgement comes in time.
  Then the conversation that starts with the request of
  \<^verbatim>\<open>get\<close> ends: the owner answers in one pass, and after at most one round per
  started window of 64 chunks its transfer is over and its buffer freed, while \<^verbatim>\<open>get\<close>, on exactly the
  datagrams that the owner has sent it, returns 0 and has saved the owner's file.
\<close>

theorem live_fetch_completes:
  assumes loc: "get_location d file_id = (Inr loc, d1)" and c: "cl_udp_in c = []" "cl_running c" "lossless (cl_env c)"
    and entry: "find_shared_file_by_id (cl_table c) file_id = Some e" "cf_hash e = loc_hash loc"
    and disk: "cl_fs c (c_string (cf_file_name e)) = Some F" "length F \<le> max_file"
    and os: "os_fine osa F" "os_fine osb F" "os_sha256 osb F = loc_hash loc"
    and d: "lossless (cl_env d)" "env_order (cl_env d) = env_order (cl_env c)"
    and times: "timely (chunks_of F) clock"
  shows "\<exists>k m d'. k \<le> (chunks_of F + 63) div WINDOW_SIZE \<and> live_fetch osa osb clock (peer_of loc) b c d file_id k = Some m \<and>
    \<not> cl_transfer_active (mt_owner m) \<and> cl_file_buffer (mt_owner m) = None \<and> cl_running (mt_owner m) \<and>
    get osb (d\<lparr>cl_udp_in := mt_data m\<rparr>) file_id = (Returns 0, d') \<and> cl_fs d' = (cl_fs d)(c_string (loc_filename loc) \<mapsto> F)"
proof -
  obtain m env r start where m: "meeting_at clock F (peer_of loc) b 0 m" "received_so_far F (peer_of loc) env r 0 m"
    and live: "\<And>k. live_fetch osa osb clock (peer_of loc) b c d file_id k =
       map_option (\<lambda>m. m\<lparr>mt_data := start # mt_data m\<rparr>) (exchange osa clock (peer_of loc) b k m)"
    and saved: "\<And>ds env' r'. receive_loop (peer_of loc) env r ds = (None, env', r', []) \<Longrightarrow>
       sr_receiver_get_file r' = (Some F, of_nat (length F)) \<Longrightarrow>
       \<exists>d'. get osb (d\<lparr>cl_udp_in := start # ds\<rparr>) file_id = (Returns 0, d') \<and>
         cl_fs d' = (cl_fs d)(c_string (loc_filename loc) \<mapsto> F)"
    by (rule live_fetch_meets [OF assms, of b]) blast
  obtain k m' where k: "k \<le> (chunks_of F + 63) div WINDOW_SIZE" "exchange osa clock (peer_of loc) b k m = Some m'"
    "meeting_at clock F (peer_of loc) b (chunks_of F) m'" "received_so_far F (peer_of loc) env r (chunks_of F) m'"
    by (rule all_rounds [OF m times])
  have fin: "fetcher_at F (peer_of loc) (chunks_of F) (mt_env m') (mt_recv m')" "owner_at clock F b (chunks_of F) (mt_owner m')"
    using k(3) by (simp_all add: meeting_at_def)
  have "sr_receiver_get_file (mt_recv m') = (Some F, of_nat (length F))"
    using fetcher_complete(1) [OF fin(1)] fin(1) receiver_complete_file by (simp add: fetcher_at_def)
  moreover have "receive_loop (peer_of loc) env r (mt_data m') = (None, mt_env m', mt_recv m', [])"
    using k(4) by (simp add: received_so_far_def)
  ultimately obtain d' where "get osb (d\<lparr>cl_udp_in := start # mt_data m'\<rparr>) file_id = (Returns 0, d')"
    "cl_fs d' = (cl_fs d)(c_string (loc_filename loc) \<mapsto> F)"
    using saved by blast
  then show ?thesis using k(1,2) live [of k] fin(2)
    by (intro exI [of _ k] exI [of _ "m'\<lparr>mt_data := start # mt_data m'\<rparr>"] exI [of _ d']) (simp add: owner_at_def)
qed

theorem live_fetch_completes_witness:
  "\<exists>k m d'. k \<le> 1 \<and>
    live_fetch sample_os sample_os (\<lambda>p. (100 * of_nat p, 100 * of_nat p + 1, 100 * of_nat p + 2)) sample_addr \<lparr>sin_port = 9, sin_addr = 9\<rparr> (sample_owner []) (sample_get_client []) 7 k = Some m \<and>
    \<not> cl_transfer_active (mt_owner m) \<and>
    get sample_os ((sample_get_client [])\<lparr>cl_udp_in := mt_data m\<rparr>) 7 = (Returns 0, d') \<and> cl_fs d' [98] = Some sample_file"
proof -
  let ?e = "\<lparr>cf_file_id = 7, cf_file_size = 2500, cf_hash = replicate 32 196, cf_file_name = copy_name [97, 0]\<rparr>"
  have peer: "peer_of sample_location = sample_addr" by (simp add: peer_of_def sample_location_def)
  obtain d1 where d1: "get_location (sample_get_client []) 7 = (Inr sample_location, d1)"
    using sample_get_location by blast
  have c: "cl_udp_in (sample_owner []) = []" "cl_running (sample_owner [])" "lossless (cl_env (sample_owner []))"
    "cl_fs (sample_owner []) (c_string (cf_file_name ?e)) = Some sample_file" "cf_hash ?e = loc_hash sample_location"
    by (simp_all add: sample_owner_def sample_client_def c_string_copy_name sample_location_def)
  have d: "lossless (cl_env (sample_get_client []))"
    "env_order (cl_env (sample_get_client [])) = env_order (cl_env (sample_owner []))"
    by (simp_all add: sample_get_client_def sample_owner_def sample_client_def)
  have os: "os_fine sample_os sample_file" "os_sha256 sample_os sample_file = loc_hash sample_location"
    by (simp_all add: os_fine_def sample_os_def sample_location_def)
  have len: "length sample_file \<le> max_file" by simp
  have name: "c_string (loc_filename sample_location) = [98]" by (simp add: sample_location_def c_string_def)
  let ?clock = "\<lambda>p. (100 * of_nat p, 100 * of_nat p + 1, 100 * of_nat p + 2) :: u64 \<times> u64 \<times> u64"
  have "chunks_of sample_file = 3" by (simp add: chunk_count_def)
  moreover have "{..3} = {0, 1, 2, 3 :: nat}" "{..2} = {0, 1, 2 :: nat}" "{..1} = {0, 1 :: nat}" by auto
  ultimately have times: "timely (chunks_of sample_file) ?clock" by (simp add: timely_def)
  show ?thesis
    using live_fetch_completes [OF d1 c(1-3) sample_owner_entry c(5,4) len os(1,1,2) d times, of "\<lparr>sin_port = 9, sin_addr = 9\<rparr>"]
    by (auto simp: peer name)
qed

end
