(* ===== verification/Spec2Isabelle.thy ===== *)
theory Spec2Isabelle
  imports SR_Progress Client_Dialogues Owner_Timeout Live_Fetch
begin

text \<open>
  A peer-to-peer file sharing program: a directory server to which clients register over
  TCP and announce files, and clients that fetch files from each other over UDP with a
  selective-repeat protocol (\<^verbatim>\<open>src/skeleton\<close>).

  \<^bold>\<open>Parts and theories.\<close>

  \<^item> \<^verbatim>\<open>P2P_Prelude\<close>: names of the C types, \<^verbatim>\<open>memcpy\<close> and \<^verbatim>\<open>strncpy\<close> on lists (an access outside
    an array is the value \<open>Inl OutOfBounds\<close>), byte order, scans of arrays, lemmas on words;
    the interfaces as locales: \<open>slot_window\<close> (a window of slots indexed modulo its size),
    \<open>codec\<close> (a packed struct and its bytes), \<open>registry\<close> (an append-only table with lookup by
    key) and \<open>transition_invariant\<close> (steps that keep an invariant).
  \<^item> \<^verbatim>\<open>Protocol\<close> (\<^verbatim>\<open>protocol.h\<close>): message codes, structs, their byte layouts (interpretations of
    \<open>codec\<close>), the checksum and its closed form.
  \<^item> \<^verbatim>\<open>Lossy_UDP\<close> (\<^verbatim>\<open>lossy_udp.c\<close>): the random generator, the loss rate and the sending shim;
    the environment record \<open>udp_env\<close> of everything that sends: host byte order, link,
    log of the datagrams handed to the kernel, statistics counters.
  \<^item> \<^verbatim>\<open>SR_Packets\<close>, \<^verbatim>\<open>SR_Sender\<close>, \<^verbatim>\<open>SR_Receiver\<close> (\<^verbatim>\<open>selective_repeat.c\<close>): packets, the sender's
    window, retransmission and acknowledgements, the receiver's window and delivery. The
    records follow the structs field by field, the operations the functions branch by
    branch; each loop is a recursive function on the \<^verbatim>\<open>uint32_t\<close> counter with a termination
    proof. The invariants \<open>sender_inv\<close> and \<open>recv_inv\<close> relate the slots to the chunks of a file.
  \<^item> \<^verbatim>\<open>SR_Transfer\<close>: sender, receiver and a network that loses, delays, duplicates, reorders
    and damages, acknowledgements from elsewhere with any header (the code does not verify
    them), and the owner's giving up when \<^verbatim>\<open>sr_sender_check_timeouts\<close> returns -1; the step relation \<open>transfer_step\<close>, its invariant (interpretation of
    \<open>transition_invariant\<close>), and the specification \<open>arq_step\<close> with the simulation.
  \<^item> \<^verbatim>\<open>SR_Progress\<close>: as long as the owner has not given up and has retries left, the retransmissions
    can complete a transfer, also when the network has lost all that was under way.
  \<^item> \<^verbatim>\<open>Shared_Files\<close> (\<^verbatim>\<open>share_file_logic.c\<close>): the client's table of shared files, an
    interpretation of \<open>registry\<close>.
  \<^item> \<^verbatim>\<open>Directory_Server\<close> (\<^verbatim>\<open>server.c\<close>): tables of clients and files, the message handlers, the
    event loop, and the invariant \<open>server_inv\<close>; the file table interprets \<open>registry\<close>.
  \<^item> \<^verbatim>\<open>Common_Utils\<close> (\<^verbatim>\<open>common.c\<close>): sockets, clock, files and hashes; SHA-256 and the system calls
    are parameters, the file system is a map from names to contents.
  \<^item> \<^verbatim>\<open>Client_TCP\<close> (\<^verbatim>\<open>client.c\<close>: \<^verbatim>\<open>share\<close>, \<^verbatim>\<open>list\<close>, \<^verbatim>\<open>quit\<close>, the registration in \<^verbatim>\<open>main\<close>): the record
    \<open>client\<close> of the process (globals, sockets, file system, the heap blocks of the files it serves,
    with the global file buffer as the index of one, and the number of open streams), the loops around \<^verbatim>\<open>send\<close> and \<^verbatim>\<open>recv\<close> on a socket that
    splits and joins the stream, and the dialogues with the server.
  \<^item> \<^verbatim>\<open>Client_Get\<close> (\<^verbatim>\<open>get\<close>): asking the server and the peer, the receive loop, the comparison of
    the hash and the saving; a call that blocks for ever is the outcome \<open>Waits\<close>.
  \<^item> \<^verbatim>\<open>Client_Main\<close> (\<^verbatim>\<open>handle_command\<close>, the loop of \<^verbatim>\<open>main\<close>): reading commands, answering requests,
    driving the sender; \<open>owner_ok\<close> is the invariant of a client that sends a file.
  \<^item> \<^verbatim>\<open>Client_Steps\<close>: what each part of a pass can do to the client's state; the locale \<open>client_keeps\<close>
    (a relation kept by a command, a datagram and the sender's turn is kept by the loop), which the ledger
    of streams and the shape of the state interpret.
  \<^item> \<^verbatim>\<open>Client_Server\<close>: the programs together, from sharing a file to fetching it (C7).
  \<^item> \<^verbatim>\<open>Client_Startup\<close> (\<^verbatim>\<open>main\<close> as a whole): arguments, sockets, registration, event loop, exit code,
    the ledger of the sockets that are opened and closed, and the streams that are left open.
  \<^item> \<^verbatim>\<open>Client_Types\<close>: the sizes of the arrays and the block that the file buffer points to, kept by every
    command, datagram and pass of the loop.
  \<^item> \<^verbatim>\<open>Owner_Timeout\<close>: a transfer to a peer that is gone ends by itself, with a bound in milliseconds for
    a loop that comes round every \<open>G\<close> milliseconds (\<^verbatim>\<open>poll\<close> waits up to 100).
  \<^item> \<^verbatim>\<open>Client_Dialogues\<close>: registration and listing, the client and the server together.
  \<^item> \<^verbatim>\<open>Live_Fetch\<close>: the owner's event loop and the receive loop of \<^verbatim>\<open>get\<close>, each fed with what the
    other one sends, in order and in rounds, on a clock by which every acknowledgement comes
    before its timeout, until the file is fetched (C8).

  \<^bold>\<open>What is shown.\<close> This theory holds the properties of a whole transfer: the file that is
  handed out is the file that was sent (C1), the sender does not stop early as long as only its
  receiver's acknowledgements reach it (C2; C40 shows what others do), it can
  go on in spite of losses while it has retries left (C3), no operation faults (C4), the code refines the specification (C5) and
  the buffer grows in order (C6). The theories of the components hold the properties of
  their operations, next to the lemmas they rest on.

  \<^bold>\<open>Bounds.\<close> Chunk arithmetic is in \<^verbatim>\<open>uint32_t\<close>: the transfer properties are for files of at
  most \<open>max_file\<close> = 2^32 - 1024 bytes, beyond which the chunk count wraps (C35). No fuel is
  used: every loop is total. The chunks that a retransmission resends are pinned to the datagrams
  that go to the link (\<open>chunks_sent\<close>). Server ids are fresh for fewer than 2^32 - 1 events.

  \<^bold>\<open>Not modelled.\<close> Printing, and the kernel: the answers of \<^verbatim>\<open>accept\<close>, \<^verbatim>\<open>recv\<close>, \<^verbatim>\<open>poll\<close>, \<^verbatim>\<open>malloc\<close>
  and \<^verbatim>\<open>send\<close> are arguments. The counters of statistics and retries are unbounded integers.
  \<^verbatim>\<open>atof\<close> and the system calls of the start of the programs are parameters, and the text that the
  client prints is only kept where \<^verbatim>\<open>list\<close> shows files; \<^verbatim>\<open>print_sender_window\<close>, which nothing calls, is
  left out. The random generator of the link is deterministic from its seed, so loss is a
  function of it; the transfer properties hold for every seed and rate.
  The codecs are read off the struct declarations with the conversions of byte order built in,
  so a conversion that is forgotten where a field is used could not be expressed, except for the checksum field. The heap
  holds the blocks of served files only; the sender's \<^verbatim>\<open>file_data\<close> is a value, and the properties
  state that it equals the contents of the block. A read over the end of a name that the server sent without its terminating zero is
  a fault in \<^verbatim>\<open>get\<close>, but not in \<^verbatim>\<open>list\<close>, where only printing reads it. The times and the
  readiness that \<^verbatim>\<open>poll\<close> reports are arguments of a pass.
\<close>

section \<open>A whole transfer\<close>

definition sample_transfer :: transfer where
  "sample_transfer = \<lparr>t_senv = sample_env, t_sender = sample_sender, t_renv = sample_env, t_recv = sample_receiver,
     t_active = True, t_forged = False\<rparr>"

lemma sample_transfer_init: "init_transfer sample_file sample_transfer" "lossless_links sample_transfer"
proof -
  have "\<exists>s0 fd addr. sr_sender_init (Some s0) fd (Some addr) (Some sample_file) 2500 True = (0, Some sample_sender)"
    using sample_sender_init by blast
  moreover have "\<exists>r0 fd addr buf. length buf = 2500 \<and>
      sr_receiver_init (Some r0) fd (Some addr) 2500 3 True (Some buf) = (0, Some sample_receiver)"
    using sample_receiver_init length_replicate [of 2500 "0 :: byte"] by blast
  ultimately show "init_transfer sample_file sample_transfer"
    by (simp add: init_transfer_def sample_transfer_def)
  show "lossless_links sample_transfer" by (simp add: lossless_links_def sample_transfer_def)
qed

lemma sample_retries_left: "retries_left (t_sender sample_transfer)"
  by (simp add: retries_left_def sample_transfer_def sample_sender_def empty_send_entry_def)

lemma sample_completes:
  obtains t where "transfer_step\<^sup>*\<^sup>* sample_transfer t" "sr_sender_is_complete (t_sender t)"
    "sr_receiver_is_complete (t_recv t)" "\<not> t_forged t"
proof -
  have "in_progress sample_file sample_transfer"
    using init_transfer_inv(1) [OF sample_transfer_init(1)] sample_transfer_init(2)
    by (simp add: in_progress_def sample_transfer_def)
  then obtain t where "transfer_step\<^sup>*\<^sup>* sample_transfer t" "in_progress sample_file t" "sr_sender_is_complete (t_sender t)"
    using completion_reachable sample_retries_left by blast
  then show thesis using that sender_complete_receiver_complete unfolding in_progress_def by blast
qed

text \<open>
  C1. Correct delivery. Whatever the network loses, delays, duplicates and reorders, and
  whatever it damages in a way that the checksum shows: if the receiver reports the transfer
  complete, the file that \<^verbatim>\<open>sr_receiver_get_file\<close> hands out is the file of the sender, byte
  for byte and of the same size.
\<close>

theorem transfer_delivers_file:
  assumes "init_transfer F t0" "transfer_step\<^sup>*\<^sup>* t0 t" "sr_receiver_is_complete (t_recv t)"
  shows "sr_receiver_get_file (t_recv t) = (Some F, of_nat (length F))"
  using reachable_transfer_inv [OF assms(1,2)] receiver_complete_file [OF _ assms(3)]
  by (simp add: transfer_inv_def)

theorem transfer_delivers_file_witness:
  "\<exists>t. transfer_step\<^sup>*\<^sup>* sample_transfer t \<and> sr_receiver_is_complete (t_recv t) \<and>
    sr_receiver_get_file (t_recv t) = (Some sample_file, 2500)"
proof -
  obtain t where t: "transfer_step\<^sup>*\<^sup>* sample_transfer t" "sr_receiver_is_complete (t_recv t)"
    by (rule sample_completes)
  then show ?thesis using transfer_delivers_file [OF sample_transfer_init(1)] by auto
qed

text \<open>
  C2. The sender does not stop early. The owner verifies neither the checksum nor the source of an
  acknowledgement; so this holds as long as every acknowledgement that has reached it is one that the
  receiver of this transfer sent: when \<^verbatim>\<open>sr_sender_is_complete\<close> holds, the receiver is complete too
  and has the whole file, whatever was lost, delayed, duplicated and reordered.
\<close>

theorem sender_done_means_delivered:
  assumes "init_transfer F t0" "transfer_step\<^sup>*\<^sup>* t0 t" "\<not> t_forged t" "sr_sender_is_complete (t_sender t)"
  shows "sr_receiver_is_complete (t_recv t) \<and> r_file_buffer (t_recv t) = Some F"
proof -
  have inv: "transfer_inv F t" by (rule reachable_transfer_inv [OF assms(1,2)])
  have "sr_receiver_is_complete (t_recv t)" by (rule sender_complete_receiver_complete [OF inv assms(3,4)])
  then show ?thesis using receiver_complete_file [of F "t_recv t"] inv
    by (simp add: transfer_inv_def sr_receiver_get_file_def)
qed

theorem sender_done_means_delivered_witness:
  "\<exists>t. transfer_step\<^sup>*\<^sup>* sample_transfer t \<and> sr_sender_is_complete (t_sender t) \<and>
    r_file_buffer (t_recv t) = Some sample_file"
proof -
  obtain t where t: "transfer_step\<^sup>*\<^sup>* sample_transfer t" "sr_sender_is_complete (t_sender t)" "\<not> t_forged t"
    by (rule sample_completes)
  then show ?thesis using sender_done_means_delivered [OF sample_transfer_init(1)] by blast
qed

text \<open>
  C4. Memory safety of a transfer. In every reachable state, every operation returns: the
  window can be filled and scanned for timeouts at any time, and every data packet under
  way can be handled, without an access outside an array, an overrun of the file buffer or
  a NULL pointer.
\<close>

theorem transfer_never_faults:
  assumes "init_transfer F t0" "transfer_step\<^sup>*\<^sup>* t0 t"
  shows "(\<exists>n env s. sr_sender_send_window now (t_senv t) (Some (t_sender t)) = Inr (n, env, Some s)) \<and>
    (\<exists>n env s. sr_sender_check_timeouts (t_senv t) (t_sender t) now = Inr (n, env, s)) \<and>
    (\<forall>d \<in> set (env_sent (t_senv t)). \<exists>env r.
       sr_receiver_handle_data (t_renv t) (t_recv t) (snd d) = Inr (0, env, r))"
proof (intro conjI ballI)
  have inv: "transfer_inv F t" by (rule reachable_transfer_inv [OF assms])
  have s: "sender_inv F (t_sender t)" using inv by (simp add: transfer_inv_def)
  show "\<exists>n env s. sr_sender_send_window now (t_senv t) (Some (t_sender t)) = Inr (n, env, Some s)"
    by (rule sr_sender_send_window_inv [OF s, of now "t_senv t"]) blast
  show "\<exists>n env s. sr_sender_check_timeouts (t_senv t) (t_sender t) now = Inr (n, env, s)"
    by (rule sr_sender_check_timeouts_inv [OF s, of "t_senv t" now]) blast
  fix d
  assume "d \<in> set (env_sent (t_senv t))"
  then show "\<exists>env r. sr_receiver_handle_data (t_renv t) (t_recv t) (snd d) = Inr (0, env, r)"
    by (rule data_arrives_keeps [OF inv]) blast
qed

theorem transfer_never_faults_witness:
  "\<exists>n env s. sr_sender_send_window 1000 (t_senv sample_transfer) (Some (t_sender sample_transfer)) = Inr (n, env, Some s)"
  using transfer_never_faults [OF sample_transfer_init(1) rtranclp.rtrancl_refl] by blast

text \<open>
  C6. The file buffer grows in order: at every moment the bytes below
  \<^verbatim>\<open>base * CHUNK_SIZE\<close> of the receiver's buffer are those of the file, and the base never
  passes the number of chunks.
\<close>

theorem receiver_prefix:
  assumes "init_transfer F t0" "transfer_step\<^sup>*\<^sup>* t0 t"
  shows "\<exists>buf. r_file_buffer (t_recv t) = Some buf \<and> length buf = length F \<and>
    unat (r_base (t_recv t)) \<le> chunk_count (length F) \<and>
    take (unat (r_base (t_recv t)) * CHUNK_SIZE) buf = take (unat (r_base (t_recv t)) * CHUNK_SIZE) F"
proof -
  have r: "recv_inv F (t_recv t)" using reachable_transfer_inv [OF assms] by (simp add: transfer_inv_def)
  then have "prefix_delivered F (t_recv t)" by (simp add: recv_inv_def)
  moreover have "unat (r_base (t_recv t)) \<le> chunk_count (length F)"
    using recv_inv_bounds(2,3) [OF r] by simp
  ultimately show ?thesis by (auto simp: prefix_delivered_def)
qed

theorem receiver_prefix_witness:
  "\<exists>t buf. transfer_step\<^sup>*\<^sup>* sample_transfer t \<and> sr_receiver_is_complete (t_recv t) \<and>
    r_file_buffer (t_recv t) = Some buf \<and>
    take (unat (r_base (t_recv t)) * CHUNK_SIZE) buf = take (unat (r_base (t_recv t)) * CHUNK_SIZE) sample_file"
proof -
  obtain t where t: "transfer_step\<^sup>*\<^sup>* sample_transfer t" "sr_receiver_is_complete (t_recv t)"
    by (rule sample_completes)
  then show ?thesis using receiver_prefix [OF sample_transfer_init(1) t(1)] by blast
qed

text \<open>
  C3. Progress in spite of losses. Consider any state a transfer can reach, in particular one
  in which the network has just lost everything under way. If the owner has not given up, every
  packet that waits for its acknowledgement has a retry left, no foreign acknowledgement has
  arrived and the program's own loss rate is zero, then some continuation completes the transfer: the
  retransmissions and the windows can still bring both ends to completion, with the file at the
  receiver.
\<close>

theorem transfer_can_complete:
  assumes "init_transfer F t0" "lossless_links t0" "transfer_step\<^sup>*\<^sup>* t0 t"
    and "t_active t" "\<not> t_forged t" "retries_left (t_sender t)"
  shows "\<exists>t'. transfer_step\<^sup>*\<^sup>* t t' \<and> sr_sender_is_complete (t_sender t') \<and>
    sr_receiver_is_complete (t_recv t') \<and> sr_receiver_get_file (t_recv t') = (Some F, of_nat (length F))"
proof -
  have "lossless_links t" using run_lossless [OF assms(3,1)] assms(2) by (simp add: lossless_links_def)
  then have "in_progress F t" using reachable_transfer_inv [OF assms(1,3)] assms(4,5) by (simp add: in_progress_def)
  then obtain t' where t': "transfer_step\<^sup>*\<^sup>* t t'" "in_progress F t'" "sr_sender_is_complete (t_sender t')"
    using completion_reachable assms(6) by blast
  then have inv: "transfer_inv F t'" "\<not> t_forged t'" by (simp_all add: in_progress_def)
  have done_r: "sr_receiver_is_complete (t_recv t')" by (rule sender_complete_receiver_complete [OF inv t'(3)])
  then have "sr_receiver_get_file (t_recv t') = (Some F, of_nat (length F))"
    using receiver_complete_file inv(1) by (simp add: transfer_inv_def)
  then show ?thesis using t' done_r by blast
qed

text \<open>The network loses the first window of the sample transfer.\<close>

lemma sample_first_window_lost:
  obtains t where "transfer_step\<^sup>*\<^sup>* sample_transfer t" "env_sent (t_senv t) = []" "s_next_seq (t_sender t) = 3"
    "t_active t" "\<not> t_forged t" "retries_left (t_sender t)"
proof -
  obtain n env' s' where w: "sr_sender_send_window 0 sample_env (Some sample_sender) = Inr (n, env', Some s')"
    "window_filled sample_file sample_env sample_sender n env' s'"
    by (rule sr_sender_send_window_inv [OF sample_sender_inv(1)])
  let ?t1 = "sample_transfer\<lparr>t_senv := env', t_sender := s'\<rparr>"
  let ?t2 = "?t1\<lparr>t_senv := env'\<lparr>env_sent := []\<rparr>, t_renv := sample_env\<lparr>env_sent := []\<rparr>\<rparr>"
  have act: "t_active sample_transfer" by (simp add: sample_transfer_def)
  have "sr_sender_send_window 0 (t_senv sample_transfer) (Some (t_sender sample_transfer)) = Inr (n, env', Some s')"
    using w(1) by (simp add: sample_transfer_def)
  then have "transfer_step sample_transfer ?t1" by (rule transfer_step.send_window [OF act])
  moreover have "transfer_step ?t1 ?t2"
    using transfer_step.network_loses [of "[]" ?t1 "[]"] by (simp add: sample_transfer_def)
  ultimately have "transfer_step\<^sup>*\<^sup>* sample_transfer ?t2" by simp
  moreover have "unat (s_next_seq s') = 3" using w(2) by (simp add: window_filled_def sample_sender_def)
  then have "s_next_seq s' = 3" by (simp add: word_unat_eq_iff)
  moreover have "retries_left s'"
    using send_window_retries [OF w(1)] sample_retries_left by (simp add: sample_transfer_def)
  ultimately show thesis using that [of ?t2] by (simp add: sample_transfer_def)
qed

theorem transfer_can_complete_witness:
  "\<exists>t t'. transfer_step\<^sup>*\<^sup>* sample_transfer t \<and> env_sent (t_senv t) = [] \<and> s_next_seq (t_sender t) = 3 \<and>
    transfer_step\<^sup>*\<^sup>* t t' \<and> sr_sender_is_complete (t_sender t') \<and>
    sr_receiver_get_file (t_recv t') = (Some sample_file, 2500)"
proof -
  obtain t where t: "transfer_step\<^sup>*\<^sup>* sample_transfer t" "env_sent (t_senv t) = []" "s_next_seq (t_sender t) = 3"
    "t_active t" "\<not> t_forged t" "retries_left (t_sender t)"
    by (rule sample_first_window_lost)
  then show ?thesis using transfer_can_complete [OF sample_transfer_init t(1,4-6)] by auto
qed

text \<open>
  C5. Refinement. Every run of the code is a run of the specification \<open>arq_step\<close> on the
  sets of received and acknowledged chunks, from the empty sets: chunks below the chunk
  count are received, and unless a foreign acknowledgement comes, which the specification
  marks, only received chunks are ever acknowledged.
\<close>

theorem transfer_refines_arq:
  assumes "init_transfer F t0" "transfer_step\<^sup>*\<^sup>* t0 t"
  shows "(arq_step (chunk_count (length F)))\<^sup>*\<^sup>* \<lparr>arq_got = {}, arq_acked = {}, arq_forged = False\<rparr> (arq_of t)"
  using assms(2)
proof (induction rule: rtranclp_induct)
  case base
  then show ?case using init_transfer_inv(2,3) [OF assms(1)] assms(1) by (simp add: arq_of_def init_transfer_def)
next
  case (step y z)
  have "arq_step (chunk_count (length F)) (arq_of y) (arq_of z)"
    by (rule arq_simulates [OF reachable_transfer_inv [OF assms(1) step.hyps(1)] step.hyps(2)])
  with step.IH show ?case by (rule rtranclp.rtrancl_into_rtrancl)
qed

theorem transfer_refines_arq_witness:
  "\<exists>t. transfer_step\<^sup>*\<^sup>* sample_transfer t \<and> sr_sender_is_complete (t_sender t) \<and>
    (arq_step 3)\<^sup>*\<^sup>* \<lparr>arq_got = {}, arq_acked = {}, arq_forged = False\<rparr> (arq_of t)"
proof -
  obtain t where t: "transfer_step\<^sup>*\<^sup>* sample_transfer t" "sr_sender_is_complete (t_sender t)"
    by (rule sample_completes)
  then show ?thesis using transfer_refines_arq [OF sample_transfer_init(1) t(1)] by auto
qed

end
